(* ===== verification/Prelude.thy ===== *)
theory Prelude
  imports Main
begin

text \<open>
  The prelude of the mini-vLLM development: the lemma collection \<open>frame_simps\<close>, which the scheduler's
  theories fill, and the facts about lists that several components share.
  \<^item> \<open>sel m xs\<close> selects the entries of \<open>xs\<close> whose mask entry is 1; it is how an attention
    mask reads a padded row.
  \<^item> \<open>tabulate\<close> facts (\<open>map f [0..<n]\<close>) connect tensors, which are read by index, with the
    rows the proofs reason about.
\<close>

named_theorems frame_simps
  \<open>what an operation of the scheduler leaves alone\<close>

section \<open>Tabulated lists\<close>

abbreviation tabulate :: "nat \<Rightarrow> (nat \<Rightarrow> 'a) \<Rightarrow> 'a list" where
  "tabulate n f \<equiv> map f [0..<n]"

lemma tabulate_cong: "(\<And>i. i < n \<Longrightarrow> f i = g i) \<Longrightarrow> tabulate n f = tabulate n g"
  by simp

lemma tabulate_nth: "tabulate (length xs) (\<lambda>i. xs ! i) = xs"
  by (rule map_nth)

lemma tabulate_const: "tabulate n (\<lambda>_. c) = replicate n c"
  by (simp add: map_replicate_const)

lemma upt_add_split: "[0..<a + b] = [0..<a] @ map (\<lambda>i. a + i) [0..<b]"
  by (rule nth_equalityI) (auto simp: nth_append)

lemma tabulate_append:
  "tabulate (a + b) f = tabulate a f @ tabulate b (\<lambda>i. f (a + i))"
  unfolding upt_add_split by simp

lemma tabulate_drop: "tabulate (n - k) (\<lambda>i. f (k + i)) = drop k (tabulate n f)"
  by (rule nth_equalityI) auto

lemma tabulate_eqI:
  "length xs = n \<Longrightarrow> (\<And>i. i < n \<Longrightarrow> f i = xs ! i) \<Longrightarrow> tabulate n f = xs"
  by (rule nth_equalityI) auto

section \<open>Selecting the positions a mask leaves visible\<close>

definition sel :: "int list \<Rightarrow> 'a list \<Rightarrow> 'a list" where
  "sel m xs = map snd (filter (\<lambda>p. fst p = 1) (zip m xs))"

lemma sel_Nil [simp]: "sel [] xs = []" "sel m [] = []"
  by (simp_all add: sel_def)

lemma sel_append:
  "length m = length xs \<Longrightarrow> sel (m @ m') (xs @ xs') = sel m xs @ sel m' xs'"
  by (simp add: sel_def)

lemma sel_zeros [simp]: "sel (replicate n 0) xs = []"
  by (auto simp: sel_def filter_empty_conv dest: set_zip_leftD)

lemma sel_ones [simp]: "length xs \<le> n \<Longrightarrow> sel (replicate n 1) xs = xs"
proof (induction xs arbitrary: n)
  case Nil
  then show ?case by simp
next
  case (Cons x xs)
  then obtain k where "n = Suc k" by (cases n) auto
  with Cons show ?case by (simp add: sel_def)
qed

text \<open>A left-padded row: \<open>p\<close> masked columns, then the \<open>q\<close> columns that are read.\<close>

definition pad_mask :: "nat \<Rightarrow> nat \<Rightarrow> int list" where
  "pad_mask w q = replicate (w - q) 0 @ replicate q 1"

lemma length_pad_mask [simp]: "q \<le> w \<Longrightarrow> length (pad_mask w q) = w"
  by (simp add: pad_mask_def)

lemma nth_pad_mask: "q \<le> w \<Longrightarrow> j < w \<Longrightarrow> pad_mask w q ! j = (if j < w - q then 0 else 1)"
  by (auto simp: pad_mask_def nth_append)

lemma pad_mask_snoc: "q \<le> w \<Longrightarrow> pad_mask w q @ [1] = pad_mask (Suc w) (Suc q)"
  by (simp add: pad_mask_def replicate_append_same)

lemma pad_mask_more: "q \<le> w \<Longrightarrow> replicate p 0 @ pad_mask w q = pad_mask (p + w) q"
  by (simp add: pad_mask_def replicate_add [symmetric] flip: append_assoc)

lemma pad_mask_drop: "q \<le> w \<Longrightarrow> k \<le> w - q \<Longrightarrow> drop k (pad_mask w q) = pad_mask (w - k) q"
  by (simp add: pad_mask_def)

lemma sum_list_pad_mask: "q \<le> w \<Longrightarrow> sum_list (pad_mask w q) = int q"
  by (simp add: pad_mask_def sum_list_replicate)

lemma sel_pad_mask: "length xs = w \<Longrightarrow> q \<le> w \<Longrightarrow> sel (pad_mask w q) xs = drop (w - q) xs"
proof -
  assume a: "length xs = w" "q \<le> w"
  have "sel (pad_mask w q) (take (w - q) xs @ drop (w - q) xs)
      = sel (replicate (w - q) 0) (take (w - q) xs) @ sel (replicate q 1) (drop (w - q) xs)"
    unfolding pad_mask_def using a by (intro sel_append) simp
  also have "\<dots> = drop (w - q) xs"
    using a by simp
  finally show ?thesis by simp
qed

lemma sum_take_pad_mask:
  "q \<le> w \<Longrightarrow> j \<le> w \<Longrightarrow> sum_list (take j (pad_mask w q)) = int (j - (w - q))"
  by (auto simp: pad_mask_def sum_list_replicate min_def)

section \<open>Suffixes\<close>

lemma last_take_snoc: "xs \<noteq> [] \<Longrightarrow> take (length xs - 1) xs @ [last xs] = xs"
  by (metis append_butlast_last_id butlast_conv_take)

lemma zip_snoc: "length xs = length ys \<Longrightarrow> zip (xs @ [x]) (ys @ [y]) = zip xs ys @ [(x, y)]"
  by simp

end
