(* ===== verification/PyValues.thy ===== *)
theory PyValues
  imports Complex_Main Prelude
begin

text \<open>
  The Python values and built-ins the worker's code uses.
  \<^item> \<open>pyfloat\<close>: a Python float. Comparisons are exact and follow IEEE: every comparison with
    a NaN is false. Arithmetic that rounds (torch's) stays a parameter of the model. Negative
    zero is not distinguished from zero, which no comparison of the source can see.
  \<^item> \<open>py_min\<close>, \<open>py_max\<close>: the two-argument built-ins. They keep the first argument unless the
    second is strictly smaller (larger), which decides what happens to a NaN.
  \<^item> \<open>py_from i xs\<close> is the slice \<open>xs[i:]\<close> with Python's rule for a negative start.
  \<^item> \<open>exn\<close>: the exceptions the modelled code raises or lets through.
\<close>

section \<open>Exceptions\<close>

datatype exn =
    ValueError string
  | TypeError string
  | RuntimeError string
  | QueueFullError int
  | TimeoutError
  | CancelledError
  | ZeroDivisionError

section \<open>Floats\<close>

datatype pyfloat = NaN | NegInf | Fin rat | PosInf

fun flt :: "pyfloat \<Rightarrow> pyfloat \<Rightarrow> bool" where
  "flt (Fin x) (Fin y) = (x < y)"
| "flt NegInf (Fin _) = True"
| "flt NegInf PosInf = True"
| "flt (Fin _) PosInf = True"
| "flt _ _ = False"

fun feq :: "pyfloat \<Rightarrow> pyfloat \<Rightarrow> bool" where
  "feq (Fin x) (Fin y) = (x = y)"
| "feq NegInf NegInf = True"
| "feq PosInf PosInf = True"
| "feq _ _ = False"

definition fle :: "pyfloat \<Rightarrow> pyfloat \<Rightarrow> bool" where
  "fle x y = (flt x y \<or> feq x y)"

definition py_max :: "pyfloat \<Rightarrow> pyfloat \<Rightarrow> pyfloat" where
  "py_max a b = (if flt a b then b else a)"

definition py_min :: "pyfloat \<Rightarrow> pyfloat \<Rightarrow> pyfloat" where
  "py_min a b = (if flt b a then b else a)"

text \<open>\<open>a or b\<close> on floats: a float is false exactly when it equals zero (a NaN is true).\<close>

definition py_or :: "pyfloat \<Rightarrow> pyfloat \<Rightarrow> pyfloat" where
  "py_or a b = (if feq a (Fin 0) then b else a)"

lemma flt_irrefl [simp]: "\<not> flt x x"
  by (cases x) auto

lemma flt_NaN [simp]: "\<not> flt NaN x" "\<not> flt x NaN"
  by (cases x; simp)+

lemma flt_asym: "flt x y \<Longrightarrow> \<not> flt y x"
  by (cases x; cases y) auto

lemma flt_trans: "flt x y \<Longrightarrow> flt y z \<Longrightarrow> flt x z"
  by (cases x; cases y; cases z) auto

lemma feq_refl: "x \<noteq> NaN \<Longrightarrow> feq x x"
  by (cases x) auto

lemma feq_eq: "feq x y \<Longrightarrow> x = y"
  by (cases x; cases y) auto

lemma flt_linear: "x \<noteq> NaN \<Longrightarrow> y \<noteq> NaN \<Longrightarrow> flt x y \<or> x = y \<or> flt y x"
  by (cases x; cases y) auto

lemma fle_refl: "x \<noteq> NaN \<Longrightarrow> fle x x"
  by (simp add: fle_def feq_refl)

lemma fle_trans: "fle x y \<Longrightarrow> fle y z \<Longrightarrow> fle x z"
  unfolding fle_def by (metis feq_eq flt_trans)

lemma not_flt_fle: "x \<noteq> NaN \<Longrightarrow> y \<noteq> NaN \<Longrightarrow> \<not> flt x y \<longleftrightarrow> fle y x"
  by (cases x; cases y) (auto simp: fle_def)

text \<open>
  The order the tensor library sorts floats by: numeric, with NaN after everything. It is a
  linear order, so the library's sorting and maxima apply to floats; the comparisons of the
  source remain \<open>flt\<close> and \<open>fle\<close>, with which it agrees on numbers.
\<close>

instantiation pyfloat :: linorder
begin

definition less_eq_pyfloat :: "pyfloat \<Rightarrow> pyfloat \<Rightarrow> bool" where
  "less_eq_pyfloat x y = (y = NaN \<or> flt x y \<or> x = y)"

definition less_pyfloat :: "pyfloat \<Rightarrow> pyfloat \<Rightarrow> bool" where
  "less_pyfloat x y = (x \<noteq> y \<and> (y = NaN \<or> flt x y))"

instance
proof
  fix x y z :: pyfloat
  show "x < y \<longleftrightarrow> x \<le> y \<and> \<not> y \<le> x"
    by (cases x; cases y) (auto simp: less_eq_pyfloat_def less_pyfloat_def)
  show "x \<le> x" by (simp add: less_eq_pyfloat_def)
  show "x \<le> y \<Longrightarrow> y \<le> z \<Longrightarrow> x \<le> z"
    by (cases x; cases y; cases z) (auto simp: less_eq_pyfloat_def)
  show "x \<le> y \<Longrightarrow> y \<le> x \<Longrightarrow> x = y"
    by (cases x; cases y) (auto simp: less_eq_pyfloat_def)
  show "x \<le> y \<or> y \<le> x"
    by (cases x; cases y) (auto simp: less_eq_pyfloat_def)
qed

end

lemma fle_le: "y \<noteq> NaN \<Longrightarrow> x \<le> y \<Longrightarrow> fle x y"
  by (cases x; cases y) (auto simp: less_eq_pyfloat_def fle_def)

section \<open>Rounding and division\<close>

text \<open>\<open>round(x)\<close>: to the nearest integer, ties to even.\<close>

definition py_round :: "rat \<Rightarrow> int" where
  "py_round x = (let n = \<lfloor>x\<rfloor>; f = x - of_int n
     in if f < 1 / 2 \<or> (f = 1 / 2 \<and> even n) then n else n + 1)"

definition py_div :: "rat \<Rightarrow> rat \<Rightarrow> exn + rat" where
  "py_div a b = (if b = 0 then Inl ZeroDivisionError else Inr (a / b))"

lemma py_round_floor: "py_round x = \<lfloor>x\<rfloor> \<or> py_round x = \<lfloor>x\<rfloor> + 1"
  by (simp add: py_round_def Let_def)

lemma py_round_mono: "x \<le> y \<Longrightarrow> py_round x \<le> py_round y"
proof (cases "\<lfloor>x\<rfloor> = \<lfloor>y\<rfloor>")
  case True
  assume "x \<le> y"
  then show ?thesis using True by (simp add: py_round_def Let_def)
next
  case False
  assume "x \<le> y"
  then have "\<lfloor>x\<rfloor> + 1 \<le> \<lfloor>y\<rfloor>" using False floor_mono [of x y] by linarith
  then show ?thesis using py_round_floor [of x] py_round_floor [of y] by linarith
qed

section \<open>Slices\<close>

definition slice_start :: "int \<Rightarrow> nat \<Rightarrow> nat" where
  "slice_start i n = (if i < 0 then nat (int n + i) else min (nat i) n)"

definition py_from :: "int \<Rightarrow> 'a list \<Rightarrow> 'a list" where
  "py_from i xs = drop (slice_start i (length xs)) xs"

lemma slice_start_le: "slice_start i n \<le> n"
  by (auto simp: slice_start_def)

lemma slice_start_pos [simp]: "slice_start (int k) n = min k n"
  by (simp add: slice_start_def)

lemma slice_start_neg: "0 < k \<Longrightarrow> slice_start (- int k) n = n - k"
  by (simp add: slice_start_def nat_diff_distrib')

lemma py_from_pos: "py_from (int k) xs = drop k xs"
  by (cases "k \<le> length xs") (auto simp: py_from_def min_def)

lemma py_from_neg: "0 < k \<Longrightarrow> py_from (- int k) xs = drop (length xs - k) xs"
  by (simp add: py_from_def slice_start_neg)

text \<open>The start \<open>-0\<close> is \<open>0\<close>: the slice keeps everything.\<close>

lemma py_from_neg_zero: "py_from (- int 0) xs = xs"
  by (simp add: py_from_def slice_start_def)

lemma length_py_from: "length (py_from i xs) \<le> length xs"
  by (simp add: py_from_def)

lemma py_from_suffix: "\<exists>ys. xs = ys @ py_from i xs"
  unfolding py_from_def by (metis append_take_drop_id)

end
