(* ===== verification/Torch.thy ===== *)
theory Torch
  imports PyValues
begin

text \<open>
  The interface of the tensor library. PyTorch is not part of the repository: its calls are
  the fields of a record that the worker's definitions take as an argument, under the names
  the source uses (\<open>torch.cat\<close> is \<open>cat\<close>, \<open>t.index_select\<close> is \<open>index_select\<close>, and so on). What
  the code relies on is the documented behaviour of each call, stated as the laws of a locale:
  a tensor is observed by its \<open>shape\<close> and by \<open>elem t [i, j, ..]\<close>, and each law gives the shape
  and the elements of a result for arguments whose shapes fit. Nothing is said of a call with
  shapes that do not fit (PyTorch raises), so a theorem about the worker also shows that every
  call it makes fits.

  \<open>tensor_lib\<close> is the rank-independent part, \<open>long_lib\<close> adds the integer tensors that hold token
  ids, masks and positions. \<open>row\<close>/\<open>rows\<close> read a matrix as nested lists and \<open>vec\<close> reads one
  position of a \<open>[batch, heads, seq, head_dim]\<close> tensor; the lemmas inside the locales translate
  the element laws to these views.
\<close>

section \<open>The calls\<close>

record ('t, 'e) tensor_ops =
  shape :: "'t \<Rightarrow> nat list"
  elem :: "'t \<Rightarrow> nat list \<Rightarrow> 'e"
  zeros :: "nat list \<Rightarrow> 't"
  full :: "nat list \<Rightarrow> 'e \<Rightarrow> 't"
  cat :: "'t list \<Rightarrow> nat \<Rightarrow> 't"
  index_select :: "'t \<Rightarrow> nat \<Rightarrow> nat list \<Rightarrow> 't"
  slice_from :: "'t \<Rightarrow> nat \<Rightarrow> int \<Rightarrow> 't"
  numel :: "'t \<Rightarrow> nat"
  element_size :: "'t \<Rightarrow> nat"

text \<open>
  \<open>slice_from t d i\<close> is \<open>t[:, .., i:, ..]\<close> with the slice on dimension \<open>d\<close>.
  Of the integer tensors: \<open>of_rows\<close> is \<open>torch.tensor\<close> of nested lists, \<open>put_tail t r a xs\<close> is \<open>t[r, a:] = torch.tensor(xs)\<close>, \<open>fill_tail t r a x\<close>
  is \<open>t[r, a:] = x\<close>, \<open>cumsum\<close> runs along the last dimension, \<open>sum_keepdim\<close> is
  \<open>sum(dim=1, keepdim=True)\<close>, \<open>all_rows\<close> is \<open>all(dim=0)\<close>, \<open>count_true\<close> is \<open>sum().item()\<close> of a
  boolean vector, \<open>index_put out idx v\<close> is \<open>out[idx] = v\<close>, \<open>empty\<close> is \<open>torch.empty\<close>.
\<close>

record ('i, 'b) long_ops = "('i, int) tensor_ops" +
  of_rows :: "int list list \<Rightarrow> 'i"
  put_tail :: "'i \<Rightarrow> nat \<Rightarrow> nat \<Rightarrow> int list \<Rightarrow> 'i"
  fill_tail :: "'i \<Rightarrow> nat \<Rightarrow> nat \<Rightarrow> int \<Rightarrow> 'i"
  cumsum :: "'i \<Rightarrow> 'i"
  sum_keepdim :: "'i \<Rightarrow> 'i"
  sub_scalar :: "'i \<Rightarrow> int \<Rightarrow> 'i"
  clamp_min :: "'i \<Rightarrow> int \<Rightarrow> 'i"
  eq_scalar :: "'i \<Rightarrow> int \<Rightarrow> 'b"
  bshape :: "'b \<Rightarrow> nat list"
  belem :: "'b \<Rightarrow> nat list \<Rightarrow> bool"
  all_rows :: "'b \<Rightarrow> 'b"
  count_true :: "'b \<Rightarrow> nat"
  unsqueeze_last :: "'i \<Rightarrow> 'i"
  empty :: "nat list \<Rightarrow> 'i"
  index_put :: "'i \<Rightarrow> nat list \<Rightarrow> 'i \<Rightarrow> 'i"

definition in_range :: "nat list \<Rightarrow> nat list \<Rightarrow> bool" where
  "in_range s ix = list_all2 (<) ix s"

text \<open>Two shapes that agree on every dimension but \<open>d\<close>.\<close>

definition agree_but :: "nat \<Rightarrow> nat list \<Rightarrow> nat list \<Rightarrow> bool" where
  "agree_but d s s' = (d < length s \<and> s' = s[d := s' ! d] \<and> length s' = length s)"

lemma in_range_simps [simp]:
  "in_range [] ix = (ix = [])"
  "in_range (n # s) [] = False"
  "in_range (n # s) (i # ix) = (i < n \<and> in_range s ix)"
  by (auto simp: in_range_def)

section \<open>Documented behaviour\<close>

locale tensor_lib =
  fixes T :: "('t, 'e, 'm) tensor_ops_scheme" and zero :: 'e
  assumes shape_zeros: "shape T (zeros T s) = s"
    and elem_zeros: "in_range s ix \<Longrightarrow> elem T (zeros T s) ix = zero"
    and shape_full: "shape T (full T s x) = s"
    and elem_full: "in_range s ix \<Longrightarrow> elem T (full T s x) ix = x"
    and shape_cat: "agree_but d (shape T a) (shape T b) \<Longrightarrow>
      shape T (cat T [a, b] d) = (shape T a)[d := shape T a ! d + shape T b ! d]"
    and elem_cat: "agree_but d (shape T a) (shape T b) \<Longrightarrow>
      in_range ((shape T a)[d := shape T a ! d + shape T b ! d]) ix \<Longrightarrow>
      elem T (cat T [a, b] d) ix =
        (if ix ! d < shape T a ! d then elem T a ix
         else elem T b (ix[d := ix ! d - shape T a ! d]))"
    and shape_index_select: "d < length (shape T t) \<Longrightarrow> (\<forall>r\<in>set rs. r < shape T t ! d) \<Longrightarrow>
      shape T (index_select T t d rs) = (shape T t)[d := length rs]"
    and elem_index_select: "d < length (shape T t) \<Longrightarrow> (\<forall>r\<in>set rs. r < shape T t ! d) \<Longrightarrow>
      in_range ((shape T t)[d := length rs]) ix \<Longrightarrow>
      elem T (index_select T t d rs) ix = elem T t (ix[d := rs ! (ix ! d)])"
    and shape_slice_from: "d < length (shape T t) \<Longrightarrow>
      shape T (slice_from T t d i) =
        (shape T t)[d := shape T t ! d - slice_start i (shape T t ! d)]"
    and elem_slice_from: "d < length (shape T t) \<Longrightarrow>
      in_range ((shape T t)[d := shape T t ! d - slice_start i (shape T t ! d)]) ix \<Longrightarrow>
      elem T (slice_from T t d i) ix =
        elem T t (ix[d := slice_start i (shape T t ! d) + ix ! d])"
    and numel: "numel T t = prod_list (shape T t)"

locale long_lib = tensor_lib I 0 for I :: "('i, 'b, 'm) long_ops_scheme" +
  assumes of_rows: "xss \<noteq> [] \<Longrightarrow> (\<forall>xs\<in>set xss. length xs = w) \<Longrightarrow>
      shape I (of_rows I xss) = [length xss, w] \<and>
      (\<forall>i<length xss. \<forall>j<w. elem I (of_rows I xss) [i, j] = xss ! i ! j)"
    and shape_put_tail: "shape I t = [n, w] \<Longrightarrow> r < n \<Longrightarrow> a + length xs = w \<Longrightarrow>
      shape I (put_tail I t r a xs) = [n, w]"
    and elem_put_tail: "shape I t = [n, w] \<Longrightarrow> r < n \<Longrightarrow> a + length xs = w \<Longrightarrow> i < n \<Longrightarrow> j < w \<Longrightarrow>
      elem I (put_tail I t r a xs) [i, j] =
        (if i = r \<and> a \<le> j then xs ! (j - a) else elem I t [i, j])"
    and shape_fill_tail: "shape I t = [n, w] \<Longrightarrow> r < n \<Longrightarrow> a \<le> w \<Longrightarrow>
      shape I (fill_tail I t r a x) = [n, w]"
    and elem_fill_tail: "shape I t = [n, w] \<Longrightarrow> r < n \<Longrightarrow> a \<le> w \<Longrightarrow> i < n \<Longrightarrow> j < w \<Longrightarrow>
      elem I (fill_tail I t r a x) [i, j] = (if i = r \<and> a \<le> j then x else elem I t [i, j])"
    and shape_cumsum: "shape I (cumsum I t) = shape I t"
    and elem_cumsum: "shape I t = [n, w] \<Longrightarrow> i < n \<Longrightarrow> j < w \<Longrightarrow>
      elem I (cumsum I t) [i, j] = (\<Sum>k\<le>j. elem I t [i, k])"
    and shape_sum_keepdim: "shape I t = [n, w] \<Longrightarrow> shape I (sum_keepdim I t) = [n, 1]"
    and elem_sum_keepdim: "shape I t = [n, w] \<Longrightarrow> i < n \<Longrightarrow>
      elem I (sum_keepdim I t) [i, 0] = (\<Sum>k<w. elem I t [i, k])"
    and shape_sub_scalar: "shape I (sub_scalar I t x) = shape I t"
    and elem_sub_scalar: "in_range (shape I t) ix \<Longrightarrow>
      elem I (sub_scalar I t x) ix = elem I t ix - x"
    and shape_clamp_min: "shape I (clamp_min I t x) = shape I t"
    and elem_clamp_min: "in_range (shape I t) ix \<Longrightarrow>
      elem I (clamp_min I t x) ix = max x (elem I t ix)"
    and bshape_eq_scalar: "bshape I (eq_scalar I t x) = shape I t"
    and belem_eq_scalar: "in_range (shape I t) ix \<Longrightarrow>
      belem I (eq_scalar I t x) ix = (elem I t ix = x)"
    and bshape_all_rows: "bshape I c = [n, w] \<Longrightarrow> bshape I (all_rows I c) = [w]"
    and belem_all_rows: "bshape I c = [n, w] \<Longrightarrow> j < w \<Longrightarrow>
      belem I (all_rows I c) [j] = (\<forall>i<n. belem I c [i, j])"
    and count_true: "bshape I c = [w] \<Longrightarrow>
      count_true I c = length (filter (\<lambda>j. belem I c [j]) [0..<w])"
    and shape_unsqueeze_last: "shape I t = [n] \<Longrightarrow> shape I (unsqueeze_last I t) = [n, 1]"
    and elem_unsqueeze_last: "shape I t = [n] \<Longrightarrow> i < n \<Longrightarrow>
      elem I (unsqueeze_last I t) [i, 0] = elem I t [i]"
    and shape_empty: "shape I (empty I s) = s"
    and shape_index_put: "shape I t = [n] \<Longrightarrow> (\<forall>r\<in>set rs. r < n) \<Longrightarrow>
      shape I v = [length rs] \<Longrightarrow> shape I (index_put I t rs v) = [n]"
    and elem_index_put: "shape I t = [n] \<Longrightarrow> (\<forall>r\<in>set rs. r < n) \<Longrightarrow> distinct rs \<Longrightarrow>
      shape I v = [length rs] \<Longrightarrow> k < length rs \<Longrightarrow>
      elem I (index_put I t rs v) [rs ! k] = elem I v [k]"
    and elem_index_put_other: "shape I t = [n] \<Longrightarrow> (\<forall>r\<in>set rs. r < n) \<Longrightarrow>
      shape I v = [length rs] \<Longrightarrow> i < n \<Longrightarrow> i \<notin> set rs \<Longrightarrow>
      elem I (index_put I t rs v) [i] = elem I t [i]"

section \<open>Views\<close>

definition row :: "('t, 'e, 'm) tensor_ops_scheme \<Rightarrow> 't \<Rightarrow> nat \<Rightarrow> 'e list" where
  "row T t i = tabulate (shape T t ! 1) (\<lambda>j. elem T t [i, j])"

definition rows :: "('t, 'e, 'm) tensor_ops_scheme \<Rightarrow> 't \<Rightarrow> 'e list list" where
  "rows T t = tabulate (shape T t ! 0) (row T t)"

text \<open>The vectors one row of a batch holds for position \<open>s\<close>, one per head.\<close>

definition vec :: "('t, 'e, 'm) tensor_ops_scheme \<Rightarrow> 't \<Rightarrow> nat \<Rightarrow> nat \<Rightarrow> 'e list list" where
  "vec T t i s = tabulate (shape T t ! 1) (\<lambda>h. tabulate (shape T t ! 3) (\<lambda>d. elem T t [i, h, s, d]))"

lemma length_row [simp]: "length (row T t i) = shape T t ! 1"
  by (simp add: row_def)

lemma length_rows [simp]: "length (rows T t) = shape T t ! 0"
  by (simp add: rows_def)

lemma nth_rows [simp]: "i < shape T t ! 0 \<Longrightarrow> rows T t ! i = row T t i"
  by (simp add: rows_def)

lemma nth_row: "j < shape T t ! 1 \<Longrightarrow> row T t i ! j = elem T t [i, j]"
  by (simp add: row_def)

section \<open>Matrices\<close>

context tensor_lib begin

lemma full_mat:
  "shape T (full T [n, w] x) = [n, w]"
  "rows T (full T [n, w] x) = replicate n (replicate w x)"
  by (auto simp: shape_full rows_def row_def elem_full intro!: nth_equalityI)

lemma cat1_mat:
  assumes "shape T a = [n, w]" and "shape T b = [n, v]"
  shows "shape T (cat T [a, b] 1) = [n, w + v]"
    and "i < n \<Longrightarrow> row T (cat T [a, b] 1) i = row T a i @ row T b i"
proof -
  have fit: "agree_but 1 (shape T a) (shape T b)"
    using assms by (simp add: agree_but_def)
  show sh: "shape T (cat T [a, b] 1) = [n, w + v]"
    using shape_cat [OF fit] assms by simp
  show "row T (cat T [a, b] 1) i = row T a i @ row T b i" if "i < n"
  proof -
    have "elem T (cat T [a, b] 1) [i, j] = (if j < w then elem T a [i, j] else elem T b [i, j - w])"
      if "j < w + v" for j
      using elem_cat [OF fit, of "[i, j]"] assms that \<open>i < n\<close> by simp
    then show ?thesis
      using assms sh by (simp add: row_def tabulate_append)
  qed
qed

lemma cat0_mat:
  assumes "shape T a = [n, w]" and "shape T b = [m, w]"
  shows "shape T (cat T [a, b] 0) = [n + m, w]"
    and "i < n + m \<Longrightarrow>
      row T (cat T [a, b] 0) i = (if i < n then row T a i else row T b (i - n))"
proof -
  have fit: "agree_but 0 (shape T a) (shape T b)"
    using assms by (simp add: agree_but_def)
  show sh: "shape T (cat T [a, b] 0) = [n + m, w]"
    using shape_cat [OF fit] assms by simp
  show "row T (cat T [a, b] 0) i = (if i < n then row T a i else row T b (i - n))" if "i < n + m"
    using elem_cat [OF fit, of "[i, _]"] assms sh that by (simp add: row_def)
qed

lemma index_select_mat:
  assumes "shape T t = [n, w]" and "\<forall>r\<in>set rs. r < n"
  shows "shape T (index_select T t 0 rs) = [length rs, w]"
    and "i < length rs \<Longrightarrow> row T (index_select T t 0 rs) i = row T t (rs ! i)"
proof -
  show sh: "shape T (index_select T t 0 rs) = [length rs, w]"
    using shape_index_select [of 0 t rs] assms by simp
  show "row T (index_select T t 0 rs) i = row T t (rs ! i)" if "i < length rs"
    using elem_index_select [of 0 t rs "[i, _]"] assms sh that by (simp add: row_def)
qed

lemma slice1_mat:
  assumes "shape T t = [n, w]" and "k \<le> w"
  shows "shape T (slice_from T t 1 (int k)) = [n, w - k]"
    and "i < n \<Longrightarrow> row T (slice_from T t 1 (int k)) i = drop k (row T t i)"
proof -
  show sh: "shape T (slice_from T t 1 (int k)) = [n, w - k]"
    using shape_slice_from [of 1 t "int k"] assms by simp
  show "row T (slice_from T t 1 (int k)) i = drop k (row T t i)" if "i < n"
    using elem_slice_from [of 1 t "int k" "[i, _]"] assms sh that
    by (simp add: row_def tabulate_drop [symmetric])
qed

end

section \<open>Cache tensors\<close>

context tensor_lib begin

lemma zeros_vec:
  "shape T (zeros T [b, h, p, d]) = [b, h, p, d]"
  "i < b \<Longrightarrow> s < p \<Longrightarrow> vec T (zeros T [b, h, p, d]) i s = replicate h (replicate d zero)"
  by (auto simp: shape_zeros vec_def elem_zeros intro!: nth_equalityI)

lemma cat2_vec:
  assumes "shape T k = [b, h, l, d]" and "shape T k' = [b, h, m, d]"
  shows "shape T (cat T [k, k'] 2) = [b, h, l + m, d]"
    and "i < b \<Longrightarrow> s < l + m \<Longrightarrow>
      vec T (cat T [k, k'] 2) i s = (if s < l then vec T k i s else vec T k' i (s - l))"
proof -
  have fit: "agree_but 2 (shape T k) (shape T k')"
    using assms by (simp add: agree_but_def)
  show sh: "shape T (cat T [k, k'] 2) = [b, h, l + m, d]"
    using shape_cat [OF fit] assms by simp
  show "vec T (cat T [k, k'] 2) i s = (if s < l then vec T k i s else vec T k' i (s - l))"
    if "i < b" "s < l + m"
    using elem_cat [OF fit, of "[i, _, s, _]"] assms sh that by (simp add: vec_def)
qed

lemma cat0_vec:
  assumes "shape T k = [b, h, l, d]" and "shape T k' = [c, h, l, d]"
  shows "shape T (cat T [k, k'] 0) = [b + c, h, l, d]"
    and "i < b + c \<Longrightarrow> s < l \<Longrightarrow>
      vec T (cat T [k, k'] 0) i s = (if i < b then vec T k i s else vec T k' (i - b) s)"
proof -
  have fit: "agree_but 0 (shape T k) (shape T k')"
    using assms by (simp add: agree_but_def)
  show sh: "shape T (cat T [k, k'] 0) = [b + c, h, l, d]"
    using shape_cat [OF fit] assms by simp
  show "vec T (cat T [k, k'] 0) i s = (if i < b then vec T k i s else vec T k' (i - b) s)"
    if "i < b + c" "s < l"
    using elem_cat [OF fit, of "[i, _, s, _]"] assms sh that by (simp add: vec_def)
qed

lemma index_select_vec:
  assumes "shape T k = [b, h, l, d]" and "\<forall>r\<in>set rs. r < b"
  shows "shape T (index_select T k 0 rs) = [length rs, h, l, d]"
    and "i < length rs \<Longrightarrow> s < l \<Longrightarrow> vec T (index_select T k 0 rs) i s = vec T k (rs ! i) s"
proof -
  show sh: "shape T (index_select T k 0 rs) = [length rs, h, l, d]"
    using shape_index_select [of 0 k rs] assms by simp
  show "vec T (index_select T k 0 rs) i s = vec T k (rs ! i) s" if "i < length rs" "s < l"
    using elem_index_select [of 0 k rs "[i, _, s, _]"] assms sh that by (simp add: vec_def)
qed

lemma slice2_vec:
  assumes "shape T k = [b, h, l, d]"
  shows "shape T (slice_from T k 2 a) = [b, h, l - slice_start a l, d]"
    and "i < b \<Longrightarrow> s < l - slice_start a l \<Longrightarrow>
      vec T (slice_from T k 2 a) i s = vec T k i (slice_start a l + s)"
proof -
  show sh: "shape T (slice_from T k 2 a) = [b, h, l - slice_start a l, d]"
    using shape_slice_from [of 2 k a] assms by simp
  show "vec T (slice_from T k 2 a) i s = vec T k i (slice_start a l + s)"
    if "i < b" "s < l - slice_start a l"
    using elem_slice_from [of 2 k a "[i, _, s, _]"] assms sh that by (simp add: vec_def)
qed

end

section \<open>Integer matrices\<close>

context long_lib begin

lemma cumsum_mat:
  assumes "shape I t = [n, w]"
  shows "shape I (cumsum I t) = [n, w]"
    and "i < n \<Longrightarrow> j < w \<Longrightarrow> elem I (cumsum I t) [i, j] = sum_list (take (Suc j) (row I t i))"
proof -
  show "shape I (cumsum I t) = [n, w]" using assms by (simp add: shape_cumsum)
  show "elem I (cumsum I t) [i, j] = sum_list (take (Suc j) (row I t i))" if "i < n" "j < w"
    using elem_cumsum [OF assms that] assms that
    by (simp add: row_def take_map interv_sum_list_conv_sum_set_nat atLeast0LessThan
        lessThan_Suc_atMost [symmetric])
qed

lemma sum_keepdim_mat:
  assumes "shape I t = [n, w]"
  shows "shape I (sum_keepdim I t) = [n, 1]"
    and "i < n \<Longrightarrow> elem I (sum_keepdim I t) [i, 0] = sum_list (row I t i)"
proof -
  show "shape I (sum_keepdim I t) = [n, 1]" using assms by (rule shape_sum_keepdim)
  show "elem I (sum_keepdim I t) [i, 0] = sum_list (row I t i)" if "i < n"
    using elem_sum_keepdim [OF assms that] assms
    by (simp add: row_def interv_sum_list_conv_sum_set_nat atLeast0LessThan)
qed

lemma put_tail_mat:
  assumes "shape I t = [n, w]" and "r < n" and "a + length xs = w"
  shows "shape I (put_tail I t r a xs) = [n, w]"
    and "i < n \<Longrightarrow>
      row I (put_tail I t r a xs) i = (if i = r then take a (row I t i) @ xs else row I t i)"
proof -
  show sh: "shape I (put_tail I t r a xs) = [n, w]" using assms by (rule shape_put_tail)
  show "row I (put_tail I t r a xs) i = (if i = r then take a (row I t i) @ xs else row I t i)"
    if "i < n"
    using assms sh that
    by (intro nth_equalityI) (auto simp: nth_row elem_put_tail nth_append)
qed

lemma fill_tail_mat:
  assumes "shape I t = [n, w]" and "r < n" and "a \<le> w"
  shows "shape I (fill_tail I t r a x) = [n, w]"
    and "i < n \<Longrightarrow> row I (fill_tail I t r a x) i =
      (if i = r then take a (row I t i) @ replicate (w - a) x else row I t i)"
proof -
  show sh: "shape I (fill_tail I t r a x) = [n, w]" using assms by (rule shape_fill_tail)
  show "row I (fill_tail I t r a x) i =
      (if i = r then take a (row I t i) @ replicate (w - a) x else row I t i)" if "i < n"
    using assms sh that
    by (intro nth_equalityI) (auto simp: nth_row elem_fill_tail nth_append)
qed

end

end
