(* ===== verification/TorchRef.thy ===== *)
theory TorchRef
  imports Torch
begin

text \<open>
  A reference tensor library: a tensor is a shape with an index function. It satisfies every
  law of the interface, which shows that the laws are consistent, and it is executable, so the
  witnesses of the development run the worker's code on it.
\<close>

datatype 'e ften = Ften (fshape: "nat list") (felem: "nat list \<Rightarrow> 'e")

definition ften_cat2 :: "nat \<Rightarrow> 'e ften \<Rightarrow> 'e ften \<Rightarrow> 'e ften" where
  "ften_cat2 d a b =
     Ften ((fshape a)[d := fshape a ! d + fshape b ! d])
       (\<lambda>ix. if ix ! d < fshape a ! d then felem a ix
             else felem b (ix[d := ix ! d - fshape a ! d]))"

fun ften_cat :: "'e ften list \<Rightarrow> nat \<Rightarrow> 'e ften" where
  "ften_cat [] d = Ften [] (\<lambda>_. undefined)"
| "ften_cat (t # ts) d = foldl (ften_cat2 d) t ts"

definition ften_index_select :: "'e ften \<Rightarrow> nat \<Rightarrow> nat list \<Rightarrow> 'e ften" where
  "ften_index_select t d rs =
     Ften ((fshape t)[d := length rs]) (\<lambda>ix. felem t (ix[d := rs ! (ix ! d)]))"

definition ften_slice_from :: "'e ften \<Rightarrow> nat \<Rightarrow> int \<Rightarrow> 'e ften" where
  "ften_slice_from t d i =
     (let a = slice_start i (fshape t ! d)
      in Ften ((fshape t)[d := fshape t ! d - a]) (\<lambda>ix. felem t (ix[d := a + ix ! d])))"

definition ften_ops :: "'e \<Rightarrow> nat \<Rightarrow> ('e ften, 'e) tensor_ops" where
  "ften_ops z bytes =
     \<lparr>shape = fshape, elem = felem, zeros = (\<lambda>s. Ften s (\<lambda>_. z)),
      full = (\<lambda>s x. Ften s (\<lambda>_. x)), cat = ften_cat, index_select = ften_index_select,
      slice_from = ften_slice_from, numel = (\<lambda>t. prod_list (fshape t)),
      element_size = (\<lambda>_. bytes)\<rparr>"

definition ften_map :: "('a \<Rightarrow> 'b) \<Rightarrow> 'a ften \<Rightarrow> 'b ften" where
  "ften_map f t = Ften (fshape t) (\<lambda>ix. f (felem t ix))"

definition ften_long :: "(int ften, bool ften) long_ops" where
  "ften_long =
     \<lparr>shape = fshape, elem = felem, zeros = (\<lambda>s. Ften s (\<lambda>_. 0)),
      full = (\<lambda>s x. Ften s (\<lambda>_. x)), cat = ften_cat, index_select = ften_index_select,
      slice_from = ften_slice_from, numel = (\<lambda>t. prod_list (fshape t)),
      element_size = (\<lambda>_. 8),
      of_rows = (\<lambda>xss. Ften [length xss, length (hd xss)] (\<lambda>ix. xss ! (ix ! 0) ! (ix ! 1))),
      put_tail = (\<lambda>t r a xs. Ften (fshape t)
        (\<lambda>ix. if ix ! 0 = r \<and> a \<le> ix ! 1 then xs ! (ix ! 1 - a) else felem t ix)),
      fill_tail = (\<lambda>t r a x. Ften (fshape t)
        (\<lambda>ix. if ix ! 0 = r \<and> a \<le> ix ! 1 then x else felem t ix)),
      cumsum = (\<lambda>t. Ften (fshape t)
        (\<lambda>ix. sum_list (map (\<lambda>k. felem t [ix ! 0, k]) [0..<Suc (ix ! 1)]))),
      sum_keepdim = (\<lambda>t. Ften [fshape t ! 0, 1]
        (\<lambda>ix. sum_list (map (\<lambda>k. felem t [ix ! 0, k]) [0..<fshape t ! 1]))),
      sub_scalar = (\<lambda>t x. ften_map (\<lambda>e. e - x) t),
      clamp_min = (\<lambda>t x. ften_map (\<lambda>e. max x e) t),
      eq_scalar = (\<lambda>t x. ften_map (\<lambda>e. e = x) t),
      bshape = fshape, belem = felem,
      all_rows = (\<lambda>c. Ften [fshape c ! 1]
        (\<lambda>ix. list_all (\<lambda>i. felem c [i, ix ! 0]) [0..<fshape c ! 0])),
      count_true = (\<lambda>c. length (filter (\<lambda>j. felem c [j]) [0..<fshape c ! 0])),
      unsqueeze_last = (\<lambda>t. Ften [fshape t ! 0, 1] (\<lambda>ix. felem t [ix ! 0])),
      empty = (\<lambda>s. Ften s (\<lambda>_. 0)),
      index_put = (\<lambda>t rs v. Ften (fshape t) (\<lambda>ix.
        case filter (\<lambda>k. rs ! k = ix ! 0) [0..<length rs] of
          [] \<Rightarrow> felem t ix | k # _ \<Rightarrow> felem v [k]))\<rparr>"

lemma ften_fields [simp]:
  "shape (ften_ops z n) = fshape" "elem (ften_ops z n) = felem"
  "shape ften_long = fshape" "elem ften_long = felem"
  by (simp_all add: ften_ops_def ften_long_def)

lemma tensor_lib_ften: "tensor_lib (ften_ops z n) z"
  by unfold_locales
    (auto simp: ften_ops_def ften_cat2_def ften_index_select_def ften_slice_from_def Let_def)

lemma tensor_lib_ften_long: "tensor_lib ften_long 0"
  by unfold_locales
    (auto simp: ften_long_def ften_cat2_def ften_index_select_def ften_slice_from_def Let_def)

interpretation ref_float: tensor_lib "ften_ops z n" z for z :: "'e" and n :: nat
  by (rule tensor_lib_ften)

lemma filter_index: "distinct rs \<Longrightarrow> k < length rs \<Longrightarrow>
    filter (\<lambda>j. rs ! j = rs ! k) [0..<length rs] = [k]"
proof -
  assume "distinct rs" "k < length rs"
  then have "filter (\<lambda>j. rs ! j = rs ! k) [0..<length rs] = filter (\<lambda>j. j = k) [0..<length rs]"
    by (intro filter_cong) (auto simp: nth_eq_iff_index_eq)
  also have "\<dots> = [k]"
    using \<open>k < length rs\<close> upt_add_eq_append [of 0 k "length rs - k"]
    by (simp add: upt_conv_Cons filter_empty_conv)
  finally show ?thesis .
qed

lemma filter_index_none: "i \<notin> set rs \<Longrightarrow> filter (\<lambda>j. rs ! j = i) [0..<length rs] = []"
  by (auto simp: filter_empty_conv)

lemma long_lib_ften: "long_lib ften_long"
proof (intro long_lib.intro tensor_lib_ften_long long_lib_axioms.intro, goal_cases)
  case (1 xss w)
  then show ?case by (cases xss) (auto simp: ften_long_def)
next
  case (6 t)
  then show ?case by (simp add: ften_long_def)
next
  case (7 t n w i j)
  then show ?case
    by (simp add: ften_long_def interv_sum_list_conv_sum_set_nat atLeast0LessThan
        lessThan_Suc_atMost [symmetric])
next
  case (9 t n w i)
  then show ?case
    by (simp add: ften_long_def interv_sum_list_conv_sum_set_nat atLeast0LessThan)
next
  case (17 c n w j)
  then show ?case by (auto simp: ften_long_def list_all_iff)
next
  case (23 t n rs v k)
  then show ?case by (simp add: ften_long_def filter_index)
next
  case (24 t n rs v i)
  then show ?case by (simp add: ften_long_def filter_index_none)
qed (simp_all add: ften_long_def ften_map_def)

interpretation ref_long: long_lib ften_long
  by (rule long_lib_ften)

end
