(* ===== verification/KVCache.thy ===== *)
theory KVCache
  imports TorchRef
begin

text \<open>
  \<open>worker/server/kvcache.py\<close>: batch-dimension surgery on key/value caches, and the left padding
  of token lists and masks.

  A cache is the source's \<open>LegacyCache\<close>: one pair of \<open>[batch, heads, seq, head_dim]\<close> tensors per
  layer. \<open>cache_shape T dims b l c\<close> says that every layer has the heads and head size \<open>dims\<close>
  lists for it, batch \<open>b\<close> and length \<open>l\<close>. \<open>crow T c i\<close> is what the cache holds for row \<open>i\<close> of the
  batch: one entry per position, each the key and value vectors of all layers. The lemmas give
  shape and rows after every operation; a caller never looks at a tensor again.
\<close>

section \<open>Definitions\<close>

type_synonym 't legacy_cache = "('t \<times> 't) list"

text \<open>The cache object of the model library, and what the model may hand back.\<close>

record ('t, 'd) cache_lib =
  has_dynamic_cache :: bool
  from_legacy_cache :: "'t legacy_cache \<Rightarrow> 'd"
  to_legacy_cache :: "'d \<Rightarrow> 't legacy_cache"
  iter_cache :: "'d \<Rightarrow> 't legacy_cache"

datatype ('t, 'd) past = NoPast | DynamicPast 'd | TuplePast "'t legacy_cache"

definition from_cache :: "('t, 'd, 'm) cache_lib_scheme \<Rightarrow> ('t, 'd) past \<Rightarrow> 't legacy_cache" where
  "from_cache L past =
     (case past of
        NoPast \<Rightarrow> []
      | DynamicPast d \<Rightarrow> if has_dynamic_cache L then to_legacy_cache L d
                         else map (\<lambda>(k, v). (k, v)) (iter_cache L d)
      | TuplePast ps \<Rightarrow> map (\<lambda>(k, v). (k, v)) ps)"

definition to_cache :: "('t, 'd, 'm) cache_lib_scheme \<Rightarrow> 't legacy_cache \<Rightarrow> ('t, 'd) past" where
  "to_cache L legacy =
     (if legacy = [] then NoPast
      else if has_dynamic_cache L then DynamicPast (from_legacy_cache L legacy)
      else TuplePast legacy)"

definition cache_length :: "('t, 'e, 'm) tensor_ops_scheme \<Rightarrow> 't legacy_cache \<Rightarrow> nat" where
  "cache_length T legacy = (case legacy of [] \<Rightarrow> 0 | (k, v) # _ \<Rightarrow> shape T k ! 2)"

definition batch_size :: "('t, 'e, 'm) tensor_ops_scheme \<Rightarrow> 't legacy_cache \<Rightarrow> nat" where
  "batch_size T legacy = (case legacy of [] \<Rightarrow> 0 | (k, v) # _ \<Rightarrow> shape T k ! 0)"

definition select_rows ::
    "('t, 'e, 'm) tensor_ops_scheme \<Rightarrow> 't legacy_cache \<Rightarrow> nat list \<Rightarrow> 't legacy_cache" where
  "select_rows T legacy rs =
     (if legacy = [] then []
      else if rs = [] then []
      else map (\<lambda>(k, v). (index_select T k 0 rs, index_select T v 0 rs)) legacy)"

definition left_pad ::
    "('t, 'e, 'm) tensor_ops_scheme \<Rightarrow> 't legacy_cache \<Rightarrow> int \<Rightarrow> 't legacy_cache" where
  "left_pad T legacy pad =
     (if pad \<le> 0 \<or> legacy = [] then legacy
      else map (\<lambda>(k, v).
        let b = shape T k ! 0; h = shape T k ! 1; d = shape T k ! 3;
            zeros_k = zeros T [b, h, nat pad, d];
            zeros_v = zeros T [b, h, nat pad, d]
        in (cat T [zeros_k, k] 2, cat T [zeros_v, v] 2)) legacy)"

definition concat_batch ::
    "('t, 'e, 'm) tensor_ops_scheme \<Rightarrow> 't legacy_cache \<Rightarrow> 't legacy_cache \<Rightarrow> 't legacy_cache" where
  "concat_batch T a b =
     (if a = [] then b
      else if b = [] then a
      else
        let la = cache_length T a; lb = cache_length T b;
            a' = (if la < lb then left_pad T a (int lb - int la) else a);
            b' = (if la < lb then b
                  else if lb < la then left_pad T b (int la - int lb) else b)
        in map (\<lambda>((ka, va), (kb, vb)). (cat T [ka, kb] 0, cat T [va, vb] 0)) (zip a' b'))"

definition trim_left ::
    "('t, 'e, 'm) tensor_ops_scheme \<Rightarrow> 't legacy_cache \<Rightarrow> int \<Rightarrow> 't legacy_cache" where
  "trim_left T legacy keep =
     (if legacy = [] \<or> int (cache_length T legacy) \<le> keep then legacy
      else map (\<lambda>(k, v). (slice_from T k 2 (- keep), slice_from T v 2 (- keep))) legacy)"

definition cache_bytes :: "('t, 'e, 'm) tensor_ops_scheme \<Rightarrow> 't legacy_cache \<Rightarrow> nat" where
  "cache_bytes T legacy =
     sum_list (map (\<lambda>(k, v). numel T k * element_size T k + numel T v * element_size T v) legacy)"

text \<open>The loop of \<open>left_pad_sequences\<close>: row by row, the tail of both tensors is overwritten.\<close>

fun fill_padded ::
    "('i, 'b, 'm) long_ops_scheme \<Rightarrow> nat \<Rightarrow> nat \<Rightarrow> int list list \<Rightarrow> 'i \<Rightarrow> 'i \<Rightarrow> 'i \<times> 'i" where
  "fill_padded I width r [] ids attn = (ids, attn)"
| "fill_padded I width r (s # ss) ids attn =
     fill_padded I width (Suc r) ss
       (put_tail I ids r (width - length s) s)
       (fill_tail I attn r (width - length s) 1)"

definition left_pad_sequences ::
    "('i, 'b, 'm) long_ops_scheme \<Rightarrow> int list list \<Rightarrow> int \<Rightarrow> exn + 'i \<times> 'i" where
  "left_pad_sequences I sequences pad_id =
     (if sequences = [] then Inl (ValueError ''max() arg is an empty sequence'')
      else
        let width = Max (set (map length sequences));
            ids = full I [length sequences, width] pad_id;
            attn = zeros I [length sequences, width]
        in Inr (fill_padded I width 0 sequences ids attn))"

definition positions_from_mask :: "('i, 'b, 'm) long_ops_scheme \<Rightarrow> 'i \<Rightarrow> 'i" where
  "positions_from_mask I attn = clamp_min I (sub_scalar I (cumsum I attn) 1) 0"

section \<open>Shapes and rows of a cache\<close>

definition cache_shape ::
    "('t, 'e, 'm) tensor_ops_scheme \<Rightarrow> (nat \<times> nat) list \<Rightarrow> nat \<Rightarrow> nat \<Rightarrow> 't legacy_cache \<Rightarrow> bool" where
  "cache_shape T dims b l c =
     list_all2 (\<lambda>(h, d) (k, v). shape T k = [b, h, l, d] \<and> shape T v = [b, h, l, d]) dims c"

type_synonym 'e entry = "('e list list \<times> 'e list list) list"

definition entry ::
    "('t, 'e, 'm) tensor_ops_scheme \<Rightarrow> 't legacy_cache \<Rightarrow> nat \<Rightarrow> nat \<Rightarrow> 'e entry" where
  "entry T c i s = map (\<lambda>(k, v). (vec T k i s, vec T v i s)) c"

definition crow :: "('t, 'e, 'm) tensor_ops_scheme \<Rightarrow> 't legacy_cache \<Rightarrow> nat \<Rightarrow> 'e entry list" where
  "crow T c i = tabulate (cache_length T c) (entry T c i)"

definition zero_entry :: "'e \<Rightarrow> (nat \<times> nat) list \<Rightarrow> 'e entry" where
  "zero_entry z dims =
     map (\<lambda>(h, d). (replicate h (replicate d z), replicate h (replicate d z))) dims"

lemma cache_shape_Nil [simp]: "cache_shape T dims b l [] = (dims = [])"
  by (simp add: cache_shape_def)

lemma cache_shape_nonempty: "cache_shape T dims b l c \<Longrightarrow> dims \<noteq> [] \<Longrightarrow> c \<noteq> []"
  by auto

lemma cache_shape_elem:
  "cache_shape T dims b l c \<Longrightarrow> (k, v) \<in> set c \<Longrightarrow>
    \<exists>h d. shape T k = [b, h, l, d] \<and> shape T v = [b, h, l, d]"
  unfolding cache_shape_def by (induction dims c rule: list_all2_induct) auto

lemma cache_length_eq [simp]: "cache_shape T dims b l c \<Longrightarrow> dims \<noteq> [] \<Longrightarrow> cache_length T c = l"
  by (cases dims; cases c) (auto simp: cache_shape_def cache_length_def)

lemma batch_size_eq [simp]: "cache_shape T dims b l c \<Longrightarrow> dims \<noteq> [] \<Longrightarrow> batch_size T c = b"
  by (cases dims; cases c) (auto simp: cache_shape_def batch_size_def)

lemma length_crow [simp]: "length (crow T c i) = cache_length T c"
  by (simp add: crow_def)

text \<open>A layerwise operation changes the shape of a cache layer by layer.\<close>

lemma cache_shape_map:
  assumes "cache_shape T dims b l c"
    and "\<And>h d k. shape T k = [b, h, l, d] \<Longrightarrow> shape T (f k) = [b', h, l', d]"
  shows "cache_shape T dims b' l' (map (\<lambda>(k, v). (f k, f v)) c)"
  using assms unfolding cache_shape_def by (auto simp: list_all2_map2 elim!: list_all2_mono)

text \<open>... and its rows position by position.\<close>

lemma entry_map:
  assumes "cache_shape T dims b l c"
    and "\<And>h d k. shape T k = [b, h, l, d] \<Longrightarrow> vec T (f k) i s = vec T k i' s'"
  shows "entry T (map (\<lambda>(k, v). (f k, f v)) c) i s = entry T c i' s'"
  using assms unfolding cache_shape_def entry_def
  by (induction dims c rule: list_all2_induct) auto

lemma entry_map_const:
  assumes "cache_shape T dims b l c"
    and "\<And>h d k. shape T k = [b, h, l, d] \<Longrightarrow> vec T (f k) i s = replicate h (replicate d z)"
  shows "entry T (map (\<lambda>(k, v). (f k, f v)) c) i s = zero_entry z dims"
  using assms unfolding cache_shape_def entry_def zero_entry_def
  by (induction dims c rule: list_all2_induct) auto

section \<open>What each operation does to the rows\<close>

context tensor_lib begin

lemma select_rows_cache:
  assumes c: "cache_shape T dims b l c" "dims \<noteq> []"
    and rs: "\<forall>r\<in>set rs. r < b" "rs \<noteq> []"
  shows "cache_shape T dims (length rs) l (select_rows T c rs)"
    and "i < length rs \<Longrightarrow> crow T (select_rows T c rs) i = crow T c (rs ! i)"
proof -
  have eq: "select_rows T c rs = map (\<lambda>(k, v). (index_select T k 0 rs, index_select T v 0 rs)) c"
    using c rs by (auto simp: select_rows_def)
  show sh: "cache_shape T dims (length rs) l (select_rows T c rs)"
    unfolding eq by (rule cache_shape_map [OF c(1) index_select_vec(1) [OF _ rs(1)]])
  show "crow T (select_rows T c rs) i = crow T c (rs ! i)" if "i < length rs"
  proof -
    have "entry T (select_rows T c rs) i s = entry T c (rs ! i) s" if "s < l" for s
      unfolding eq
      by (rule entry_map [OF c(1) index_select_vec(2) [OF _ rs(1) \<open>i < length rs\<close> that]])
    then show ?thesis using sh c by (simp add: crow_def)
  qed
qed

lemma left_pad_cache:
  assumes c: "cache_shape T dims b l c" "dims \<noteq> []"
  shows "cache_shape T dims b (nat p + l) (left_pad T c p)"
    and "i < b \<Longrightarrow>
      crow T (left_pad T c p) i = replicate (nat p) (zero_entry zero dims) @ crow T c i"
proof -
  define f where "f k = cat T [zeros T [shape T k ! 0, shape T k ! 1, nat p, shape T k ! 3], k] 2"
    for k
  have vec_f: "shape T (f k) = [b, h, nat p + l, d]"
    "i < b \<Longrightarrow> s < nat p \<Longrightarrow> vec T (f k) i s = replicate h (replicate d zero)"
    "i < b \<Longrightarrow> s < l \<Longrightarrow> vec T (f k) i (nat p + s) = vec T k i s"
    if "shape T k = [b, h, l, d]" for k h d i s
    using that cat2_vec [OF zeros_vec(1) that] zeros_vec(2) [of i b s "nat p" h d]
    by (simp_all add: f_def)
  have eq: "left_pad T c p = map (\<lambda>(k, v). (f k, f v)) c" if "0 < p"
    using that by (auto simp: left_pad_def f_def Let_def dest!: cache_shape_elem [OF c(1)])
  show sh: "cache_shape T dims b (nat p + l) (left_pad T c p)"
  proof (cases "0 < p")
    case True
    show ?thesis unfolding eq [OF True] by (rule cache_shape_map [OF c(1) vec_f(1)])
  next
    case False
    then show ?thesis using c by (simp add: left_pad_def)
  qed
  show "crow T (left_pad T c p) i = replicate (nat p) (zero_entry zero dims) @ crow T c i"
    if i: "i < b"
  proof (cases "0 < p")
    case True
    have z: "entry T (left_pad T c p) i s = zero_entry zero dims" if "s < nat p" for s
      unfolding eq [OF True] by (rule entry_map_const [OF c(1) vec_f(2) [OF _ i that]])
    have r: "entry T (left_pad T c p) i (nat p + s) = entry T c i s" if "s < l" for s
      unfolding eq [OF True] by (rule entry_map [OF c(1) vec_f(3) [OF _ i that]])
    show ?thesis
      using sh c z r by (simp add: crow_def tabulate_append map_replicate_const cong: map_cong)
        (auto intro: nth_equalityI)
  next
    case False
    then show ?thesis using c by (simp add: left_pad_def)
  qed
qed

text \<open>A slice \<open>[:, :, a:, :]\<close> of every tensor.\<close>

lemma slice_cache:
  fixes a :: int
  assumes c: "cache_shape T dims b l c" "dims \<noteq> []"
  defines "c' \<equiv> map (\<lambda>(k, v). (slice_from T k 2 a, slice_from T v 2 a)) c"
  shows "cache_shape T dims b (l - slice_start a l) c'"
    and "i < b \<Longrightarrow> crow T c' i = py_from a (crow T c i)"
proof -
  show sh: "cache_shape T dims b (l - slice_start a l) c'"
    unfolding c'_def by (rule cache_shape_map [OF c(1) slice2_vec(1)])
  show "crow T c' i = py_from a (crow T c i)" if i: "i < b"
  proof -
    have "entry T c' i s = entry T c i (slice_start a l + s)" if "s < l - slice_start a l" for s
      unfolding c'_def by (rule entry_map [OF c(1) slice2_vec(2) [OF _ i that]])
    then show ?thesis
      using sh c by (simp add: crow_def py_from_def tabulate_drop [symmetric])
  qed
qed

lemma trim_left_cache:
  assumes c: "cache_shape T dims b l c" "dims \<noteq> []" and k: "0 < k"
  shows "cache_shape T dims b (min k l) (trim_left T c (int k))"
    and "i < b \<Longrightarrow> crow T (trim_left T c (int k)) i = drop (l - k) (crow T c i)"
proof -
  show "cache_shape T dims b (min k l) (trim_left T c (int k))"
    using c k slice_cache(1) [OF c, of "- int k"] cache_shape_nonempty [OF c]
    by (auto simp: trim_left_def slice_start_neg min_def not_le)
  show "crow T (trim_left T c (int k)) i = drop (l - k) (crow T c i)" if "i < b"
    using c k slice_cache(2) [OF c that, of "- int k"]  cache_shape_nonempty [OF c]
    by (auto simp: trim_left_def py_from_neg)
qed

end

section \<open>Stacking two caches\<close>

definition stack :: "('t, 'e, 'm) tensor_ops_scheme \<Rightarrow> 't legacy_cache \<Rightarrow> 't legacy_cache \<Rightarrow> 't legacy_cache" where
  "stack T a b = map (\<lambda>((ka, va), (kb, vb)). (cat T [ka, kb] 0, cat T [va, vb] 0)) (zip a b)"

context tensor_lib begin

lemma stack_shape:
  "cache_shape T dims n l a \<Longrightarrow> cache_shape T dims m l b \<Longrightarrow>
    cache_shape T dims (n + m) l (stack T a b)"
proof (induction dims arbitrary: a b)
  case Nil
  then show ?case by (simp add: cache_shape_def stack_def)
next
  case (Cons hd ds)
  then show ?case
    by (auto simp: cache_shape_def stack_def list_all2_Cons1 cat0_vec(1))
qed

lemma stack_entry:
  assumes "i < n + m" "s < l"
  shows "cache_shape T dims n l a \<Longrightarrow> cache_shape T dims m l b \<Longrightarrow>
    entry T (stack T a b) i s = (if i < n then entry T a i s else entry T b (i - n) s)"
proof (induction dims arbitrary: a b)
  case Nil
  then show ?case by (simp add: cache_shape_def stack_def entry_def)
next
  case (Cons hd ds)
  then show ?case
    using assms by (fastforce simp: cache_shape_def stack_def entry_def list_all2_Cons1 cat0_vec(2))
qed

lemma stack_crow:
  assumes "cache_shape T dims n l a" "cache_shape T dims m l b" "dims \<noteq> []" "i < n + m"
  shows "crow T (stack T a b) i = (if i < n then crow T a i else crow T b (i - n))"
  using assms stack_shape [OF assms(1,2)] stack_entry [OF assms(4) _ assms(1,2)]
  by (simp add: crow_def)

lemma concat_batch_stack:
  assumes "cache_shape T dims n la a" "cache_shape T dims m lb b" "dims \<noteq> []"
  shows "concat_batch T a b =
    stack T (left_pad T a (int lb - int la)) (left_pad T b (int la - int lb))"
proof -
  have "a \<noteq> []" "b \<noteq> []" using assms by auto
  then show ?thesis
    using assms by (auto simp: concat_batch_def stack_def Let_def left_pad_def [where pad = "_ - _"])
qed

text \<open>Admission: both caches end up as long as the longer one, each row padded on the left.\<close>

lemma concat_batch_cache:
  assumes a: "cache_shape T dims n la a" and b: "cache_shape T dims m lb b" and d: "dims \<noteq> []"
  shows "cache_shape T dims (n + m) (max la lb) (concat_batch T a b)"
    and "i < n \<Longrightarrow> crow T (concat_batch T a b) i =
      replicate (lb - la) (zero_entry zero dims) @ crow T a i"
    and "n \<le> i \<Longrightarrow> i < n + m \<Longrightarrow> crow T (concat_batch T a b) i =
      replicate (la - lb) (zero_entry zero dims) @ crow T b (i - n)"
proof -
  let ?a = "left_pad T a (int lb - int la)" and ?b = "left_pad T b (int la - int lb)"
  have "nat (int lb - int la) + la = max la lb" "nat (int la - int lb) + lb = max la lb"
    by auto
  then have sh: "cache_shape T dims n (max la lb) ?a" "cache_shape T dims m (max la lb) ?b"
    using left_pad_cache(1) [OF a d, of "int lb - int la"] left_pad_cache(1) [OF b d, of "int la - int lb"]
    by simp_all
  note eq = concat_batch_stack [OF a b d]
  show "cache_shape T dims (n + m) (max la lb) (concat_batch T a b)"
    unfolding eq by (rule stack_shape [OF sh])
  show "crow T (concat_batch T a b) i = replicate (lb - la) (zero_entry zero dims) @ crow T a i"
    if "i < n"
    unfolding eq using stack_crow [OF sh d] left_pad_cache(2) [OF a d that] that
    by (simp add: nat_diff_distrib')
  show "crow T (concat_batch T a b) i =
      replicate (la - lb) (zero_entry zero dims) @ crow T b (i - n)" if "n \<le> i" "i < n + m"
    unfolding eq using stack_crow [OF sh d, of i] left_pad_cache(2) [OF b d, of "i - n"] that
    by (simp add: nat_diff_distrib')
qed

lemma cache_bytes_eq:
  assumes "cache_shape T dims b l c" and "\<forall>(k, v)\<in>set c. element_size T k = n \<and> element_size T v = n"
  shows "cache_bytes T c = 2 * b * l * n * sum_list (map (\<lambda>(h, d). h * d) dims)"
  using assms unfolding cache_shape_def cache_bytes_def
  by (induction dims c rule: list_all2_induct) (auto simp: numel algebra_simps)

end

section \<open>Padded token batches\<close>

definition padded :: "'a \<Rightarrow> nat \<Rightarrow> 'a list \<Rightarrow> 'a list" where
  "padded x w s = replicate (w - length s) x @ s"

context long_lib begin

text \<open>
  The loop invariant: rows below \<open>r\<close> keep what they have, the next \<open>length ss\<close> rows get the
  sequences, later rows are untouched.
\<close>

lemma fill_padded:
  assumes "shape I ids = [n, w]" "shape I attn = [n, w]" "r + length ss \<le> n"
    "\<forall>s\<in>set ss. length s \<le> w" "fill_padded I w r ss ids attn = (ids', attn')"
  shows "shape I ids' = [n, w] \<and> shape I attn' = [n, w] \<and> (\<forall>i<n.
    row I ids' i = (if r \<le> i \<and> i < r + length ss
      then take (w - length (ss ! (i - r))) (row I ids i) @ ss ! (i - r) else row I ids i) \<and>
    row I attn' i = (if r \<le> i \<and> i < r + length ss
      then take (w - length (ss ! (i - r))) (row I attn i) @ replicate (length (ss ! (i - r))) 1
      else row I attn i))"
  using assms
proof (induction ss arbitrary: r ids attn)
  case Nil
  then show ?case by auto
next
  case (Cons s ss)
  let ?ids = "put_tail I ids r (w - length s) s" and ?attn = "fill_tail I attn r (w - length s) 1"
  have r: "r < n" "w - length s + length s = w" using Cons.prems by auto
  note put = put_tail_mat [OF Cons.prems(1) r]
  note fill = fill_tail_mat [OF Cons.prems(2) r(1) diff_le_self, where x = 1]
  have IH: "shape I ids' = [n, w] \<and> shape I attn' = [n, w] \<and> (\<forall>i<n.
    row I ids' i = (if Suc r \<le> i \<and> i < Suc r + length ss
      then take (w - length (ss ! (i - Suc r))) (row I ?ids i) @ ss ! (i - Suc r) else row I ?ids i) \<and>
    row I attn' i = (if Suc r \<le> i \<and> i < Suc r + length ss
      then take (w - length (ss ! (i - Suc r))) (row I ?attn i)
        @ replicate (length (ss ! (i - Suc r))) 1
      else row I ?attn i))"
    using Cons.prems put(1) fill(1) by (intro Cons.IH) auto
  have nth: "(s # ss) ! (i - r) = ss ! (i - Suc r)" if "Suc r \<le> i" for i
    using that by (simp add: nth_Cons' Suc_le_eq)
  have "w - (w - length s) = length s" using r by simp
  with IH put(2) fill(2) show ?case
    by (auto simp: nth not_less_eq_eq le_Suc_eq Suc_le_eq)
qed

lemma left_pad_sequences_rows:
  assumes "ss \<noteq> []" and w: "w = Max (set (map length ss))"
  obtains ids attn where "left_pad_sequences I ss pad_id = Inr (ids, attn)"
    and "shape I ids = [length ss, w]" and "shape I attn = [length ss, w]"
    and "\<forall>i<length ss. row I ids i = padded pad_id w (ss ! i)"
    and "\<forall>i<length ss. row I attn i = pad_mask w (length (ss ! i))"
proof -
  let ?n = "length ss"
  obtain ids attn where f:
    "fill_padded I w 0 ss (full I [?n, w] pad_id) (zeros I [?n, w]) = (ids, attn)"
    by (cases "fill_padded I w 0 ss (full I [?n, w] pad_id) (zeros I [?n, w])")
  have le: "\<forall>s\<in>set ss. length s \<le> w" unfolding w by simp
  have z: "row I (zeros I [?n, w]) i = replicate w 0" if "i < ?n" for i
    using that by (auto simp: row_def shape_zeros elem_zeros intro!: nth_equalityI)
  have o: "row I (full I [?n, w] pad_id) i = replicate w pad_id" if "i < ?n" for i
    using that by (auto simp: row_def shape_full elem_full intro!: nth_equalityI)
  have R: "shape I ids = [?n, w] \<and> shape I attn = [?n, w] \<and> (\<forall>i<?n.
      row I ids i = padded pad_id w (ss ! i) \<and> row I attn i = pad_mask w (length (ss ! i)))"
    using fill_padded [OF shape_full shape_zeros _ le f] z o le
    by (auto simp: padded_def pad_mask_def min_def)
  show ?thesis
  proof (rule that)
    show "left_pad_sequences I ss pad_id = Inr (ids, attn)"
      using assms(1) f by (simp add: left_pad_sequences_def Let_def w)
  qed (use R in auto)
qed

lemma positions_from_mask_rows:
  assumes "shape I t = [n, w]"
  shows "shape I (positions_from_mask I t) = [n, w]"
    and "i < n \<Longrightarrow> row I t i = pad_mask w q \<Longrightarrow> q \<le> w \<Longrightarrow>
      row I (positions_from_mask I t) i = padded 0 w (map int [0..<q])"
proof -
  show sh: "shape I (positions_from_mask I t) = [n, w]"
    using assms by (simp add: positions_from_mask_def shape_clamp_min shape_sub_scalar shape_cumsum)
  show "row I (positions_from_mask I t) i = padded 0 w (map int [0..<q])"
    if "i < n" "row I t i = pad_mask w q" "q \<le> w"
  proof (rule nth_equalityI)
    show "length (row I (positions_from_mask I t) i) = length (padded 0 w (map int [0..<q]))"
      using sh that by (simp add: padded_def)
    fix j assume "j < length (row I (positions_from_mask I t) i)"
    then have j: "j < w" using sh by simp
    have "row I (positions_from_mask I t) i ! j = max 0 (int (Suc j - (w - q)) - 1)"
      using j that assms sh cumsum_mat [OF assms] sum_take_pad_mask [of q w "Suc j"]
      by (simp add: nth_row positions_from_mask_def elem_clamp_min elem_sub_scalar shape_sub_scalar)
    also have "\<dots> = padded 0 w (map int [0..<q]) ! j"
      using j that by (auto simp: padded_def nth_append)
    finally show "row I (positions_from_mask I t) i ! j = padded 0 w (map int [0..<q]) ! j" .
  qed
qed

end

end
