(* ===== verification/Config.thy ===== *)
theory Config
  imports PyValues
begin

text \<open>
  \<open>worker/server/config.py\<close>: the runtime settings, read from the environment. The environment
  is a partial map from names to strings. \<open>py_int\<close> and \<open>py_float\<close> are Python's \<open>int(str)\<close> and
  \<open>float(str)\<close> on ASCII text, underscores between digits and surrounding white space included;
  \<open>py_float\<close> gives the exact decimal value, where Python rounds it to a double.
\<close>

section \<open>Parsing numbers\<close>

definition is_space :: "char \<Rightarrow> bool" where
  "is_space c = (c = CHR '' '' \<or> (9 \<le> (of_char c :: nat) \<and> (of_char c :: nat) \<le> 13) \<or>
                 (28 \<le> (of_char c :: nat) \<and> (of_char c :: nat) \<le> 31))"

definition strip :: "string \<Rightarrow> string" where
  "strip s = rev (dropWhile is_space (rev (dropWhile is_space s)))"

definition digit :: "char \<Rightarrow> nat option" where
  "digit c = (let n = (of_char c :: nat) in if 48 \<le> n \<and> n \<le> 57 then Some (n - 48) else None)"

text \<open>
  A digit part: digits, with single underscores between two digits. The first argument says
  whether the last character read was a digit.
\<close>

fun digit_part :: "bool \<Rightarrow> nat \<Rightarrow> string \<Rightarrow> nat option" where
  "digit_part after_digit n [] = (if after_digit then Some n else None)"
| "digit_part after_digit n (c # cs) =
     (case digit c of
        Some d \<Rightarrow> digit_part True (10 * n + d) cs
      | None \<Rightarrow> if c = CHR ''_'' \<and> after_digit then digit_part False n cs else None)"

fun signed :: "string \<Rightarrow> bool \<times> string" where
  "signed [] = (False, [])"
| "signed (c # cs) =
     (if c = CHR ''-'' then (True, cs) else if c = CHR ''+'' then (False, cs)
      else (False, c # cs))"

definition py_int :: "string \<Rightarrow> exn + int" where
  "py_int s =
     (let (neg, body) = signed (strip s)
      in case digit_part False 0 body of
           None \<Rightarrow> Inl (ValueError ''invalid literal for int() with base 10'')
         | Some n \<Rightarrow> Inr (if neg then - int n else int n))"

definition lower :: "char \<Rightarrow> char" where
  "lower c = (let n = (of_char c :: nat) in if 65 \<le> n \<and> n \<le> 90 then char_of (n + 32) else c)"

definition count_digits :: "string \<Rightarrow> nat" where
  "count_digits s = length (filter (\<lambda>c. digit c \<noteq> None) s)"

text \<open>The part before an exponent: digits, a point and digits, one of the two digit parts optional.\<close>

definition mantissa :: "string \<Rightarrow> rat option" where
  "mantissa s =
     (let whole = takeWhile (\<lambda>c. c \<noteq> CHR ''.'') s; rest = dropWhile (\<lambda>c. c \<noteq> CHR ''.'') s
      in case rest of
           [] \<Rightarrow> map_option of_nat (digit_part False 0 whole)
         | _ # frc \<Rightarrow>
             let w = (if whole = [] then Some 0 else digit_part False 0 whole);
                 f = (if frc = [] then Some 0 else digit_part False 0 frc)
             in if whole = [] \<and> frc = [] then None
                else case (w, f) of
                       (Some a, Some b) \<Rightarrow> Some (of_nat a + of_nat b / 10 ^ count_digits frc)
                     | _ \<Rightarrow> None)"

definition decimal :: "string \<Rightarrow> rat option" where
  "decimal s =
     (let m = takeWhile (\<lambda>c. c \<noteq> CHR ''e'') s; rest = dropWhile (\<lambda>c. c \<noteq> CHR ''e'') s
      in case rest of
           [] \<Rightarrow> mantissa m
         | _ # ex \<Rightarrow>
             (let (neg, body) = signed ex
              in case (mantissa m, digit_part False 0 body) of
                   (Some x, Some n) \<Rightarrow> Some (if neg then x / 10 ^ n else x * 10 ^ n)
                 | _ \<Rightarrow> None))"

definition py_float :: "string \<Rightarrow> exn + pyfloat" where
  "py_float s =
     (let (neg, body) = signed (map lower (strip s))
      in if body = ''inf'' \<or> body = ''infinity'' then Inr (if neg then NegInf else PosInf)
         else if body = ''nan'' then Inr NaN
         else case decimal body of
                None \<Rightarrow> Inl (ValueError ''could not convert string to float'')
              | Some x \<Rightarrow> Inr (Fin (if neg then - x else x)))"

section \<open>Settings\<close>

type_synonym environ = "string \<Rightarrow> string option"

definition env_str :: "environ \<Rightarrow> string \<Rightarrow> string \<Rightarrow> exn + string" where
  "env_str env key dflt = Inr (case env key of None \<Rightarrow> dflt | Some v \<Rightarrow> v)"

definition env_int :: "environ \<Rightarrow> string \<Rightarrow> int \<Rightarrow> exn + int" where
  "env_int env key dflt =
     (case env key of
        None \<Rightarrow> Inr dflt
      | Some raw \<Rightarrow> if raw = '''' then Inr dflt else py_int raw)"

definition env_float :: "environ \<Rightarrow> string \<Rightarrow> pyfloat \<Rightarrow> exn + pyfloat" where
  "env_float env key dflt =
     (case env key of
        None \<Rightarrow> Inr dflt
      | Some raw \<Rightarrow> if raw = '''' then Inr dflt else py_float raw)"

record settings =
  model_name :: string
  device :: string
  torch_threads :: int
  max_batch_size :: int
  batch_window_ms :: int
  max_queue_size :: int
  request_timeout_s :: pyfloat
  max_new_tokens :: int
  max_context :: int
  http_port :: int
  grpc_port :: int
  metrics_port :: int

text \<open>Sequencing of fallible steps: the first exception ends the evaluation.\<close>

definition try_bind :: "exn + 'a \<Rightarrow> ('a \<Rightarrow> exn + 'b) \<Rightarrow> exn + 'b" where
  "try_bind m f = (case m of Inl e \<Rightarrow> Inl e | Inr x \<Rightarrow> f x)"

lemma try_bind_simps [simp]:
  "try_bind (Inl e) f = Inl e"
  "try_bind (Inr x) f = f x"
  by (simp_all add: try_bind_def)

lemma try_bind_Inr_iff: "try_bind m f = Inr y \<longleftrightarrow> (\<exists>x. m = Inr x \<and> f x = Inr y)"
  by (cases m) auto

text \<open>\<open>Settings()\<close>: the default factories run in the order of the fields.\<close>

definition load_settings :: "environ \<Rightarrow> exn + settings" where
  "load_settings env =
     try_bind (env_str env ''MODEL_NAME'' ''gpt2'') (\<lambda>name.
     try_bind (env_str env ''DEVICE'' ''cpu'') (\<lambda>dev.
     try_bind (env_int env ''TORCH_THREADS'' 0) (\<lambda>threads.
     try_bind (env_int env ''MAX_BATCH_SIZE'' 8) (\<lambda>mb.
     try_bind (env_int env ''BATCH_WINDOW_MS'' 20) (\<lambda>win.
     try_bind (env_int env ''MAX_QUEUE_SIZE'' 256) (\<lambda>mq.
     try_bind (env_float env ''REQUEST_TIMEOUT_S'' (Fin 120)) (\<lambda>tmo.
     try_bind (env_int env ''MAX_NEW_TOKENS'' 256) (\<lambda>mnt.
     try_bind (env_int env ''MAX_CONTEXT'' 1024) (\<lambda>mc.
     try_bind (env_int env ''HTTP_PORT'' 8000) (\<lambda>hp.
     try_bind (env_int env ''GRPC_PORT'' 50051) (\<lambda>gp.
     try_bind (env_int env ''METRICS_PORT'' 9100) (\<lambda>mp.
       Inr \<lparr>model_name = name, device = dev, torch_threads = threads, max_batch_size = mb,
            batch_window_ms = win, max_queue_size = mq, request_timeout_s = tmo,
            max_new_tokens = mnt, max_context = mc, http_port = hp, grpc_port = gp,
            metrics_port = mp\<rparr>))))))))))))"

section \<open>Printing and reading back\<close>

text \<open>\<open>str(n)\<close>, the text an integer setting is normally given as.\<close>

definition digit_char :: "nat \<Rightarrow> char" where
  "digit_char d = char_of (d + 48)"

fun digits_of :: "nat \<Rightarrow> string" where
  "digits_of n = (if n < 10 then [digit_char n] else digits_of (n div 10) @ [digit_char (n mod 10)])"

declare digits_of.simps [simp del]

definition py_str :: "int \<Rightarrow> string" where
  "py_str n = (if n < 0 then CHR ''-'' # digits_of (nat (- n)) else digits_of (nat n))"

lemma digit_digit_char [simp]: "d < 10 \<Longrightarrow> digit (digit_char d) = Some d"
  by (simp add: digit_def digit_char_def Let_def)

lemma digits_of_nonempty [simp]: "digits_of n \<noteq> []"
  by (subst digits_of.simps) simp

lemma digit_part_digits_of:
  "digit_part b k (digits_of n @ cs) = digit_part True (k * 10 ^ length (digits_of n) + n) cs"
proof (induction n arbitrary: b k cs rule: digits_of.induct)
  case (1 n)
  show ?case
  proof (cases "n < 10")
    case True
    then have "digits_of n = [digit_char n]" by (subst digits_of.simps) simp
    then show ?thesis using True by (simp add: algebra_simps)
  next
    case False
    have d: "digits_of n = digits_of (n div 10) @ [digit_char (n mod 10)]"
      by (subst digits_of.simps) (simp add: False)
    define len where "len = length (digits_of (n div 10))"
    have "10 * (k * 10 ^ len + n div 10) + n mod 10 = k * 10 ^ Suc len + n"
      by (simp add: algebra_simps)
    moreover have "digit_part b k (digits_of n @ cs)
        = digit_part True (10 * (k * 10 ^ len + n div 10) + n mod 10) cs"
      unfolding d append_assoc 1 [OF False] len_def by simp
    moreover have "length (digits_of n) = Suc len" by (simp add: d len_def)
    ultimately show ?thesis by (simp only:)
  qed
qed

lemma set_digits_of: "c \<in> set (digits_of n) \<Longrightarrow> \<exists>d<10. c = digit_char d"
proof (induction n rule: digits_of.induct)
  case (1 n)
  have "c = digit_char n \<and> n < 10 \<or> \<not> n < 10 \<and> c \<in> set (digits_of (n div 10)) \<or> c = digit_char (n mod 10)"
    using 1(2) by (subst (asm) digits_of.simps) (auto split: if_splits)
  moreover have "n mod 10 < 10" by simp
  ultimately show ?case using 1(1) by blast
qed

lemma digit_char_plain:
  assumes "d < 10"
  shows "\<not> is_space (digit_char d)" "digit_char d \<noteq> CHR ''-''" "digit_char d \<noteq> CHR ''+''"
proof -
  have n: "of_char (digit_char d) = d + 48" using assms by (simp add: digit_char_def)
  show "\<not> is_space (digit_char d)"
    using n by (auto simp: is_space_def)
  show "digit_char d \<noteq> CHR ''-''" "digit_char d \<noteq> CHR ''+''" using n by auto
qed

lemma strip_id: "(\<And>c. c \<in> set s \<Longrightarrow> \<not> is_space c) \<Longrightarrow> strip s = s"
proof -
  assume "\<And>c. c \<in> set s \<Longrightarrow> \<not> is_space c"
  moreover from this have "dropWhile is_space (rev s) = rev s"
    by (cases "rev s") (auto simp: dropWhile_eq_self_iff dest: arg_cong [where f = set])
  moreover have "dropWhile is_space s = s" using calculation(1) by (cases s) auto
  ultimately show ?thesis by (simp add: strip_def)
qed

lemma py_str_no_space: "c \<in> set (py_str n) \<Longrightarrow> \<not> is_space c"
proof -
  assume that: "c \<in> set (py_str n)"
  show "\<not> is_space c"
  proof (cases "c = CHR ''-''")
    case True
    then show ?thesis by (simp add: is_space_def)
  next
    case False
    then have "\<exists>m. c \<in> set (digits_of m)" using that by (auto simp: py_str_def split: if_splits)
    then obtain d where "d < 10" "c = digit_char d" using set_digits_of by blast
    then show ?thesis by (simp add: digit_char_plain)
  qed
qed

lemma py_int_py_str: "py_int (py_str n) = Inr n"
proof -
  have st: "strip (py_str n) = py_str n" by (rule strip_id) (rule py_str_no_space)
  have dp: "digit_part False 0 (digits_of m) = Some m" for m
    using digit_part_digits_of [of False 0 m "[]"] by simp
  show ?thesis
  proof (cases "n < 0")
    case True
    then show ?thesis by (simp add: py_int_def st) (simp add: py_str_def dp)
  next
    case False
    obtain c cs where d: "digits_of (nat n) = c # cs" by (cases "digits_of (nat n)") auto
    then obtain k where "k < 10" "c = digit_char k" using set_digits_of [of c "nat n"] by auto
    then have "signed (digits_of (nat n)) = (False, digits_of (nat n))"
      using digit_char_plain by (simp add: d)
    then show ?thesis using False by (simp add: py_int_def st) (simp add: py_str_def dp)
  qed
qed

text \<open>A text with a character that is no digit, sign, underscore or space is not an integer.\<close>

lemma digit_part_bad: "c \<in> set s \<Longrightarrow> digit c = None \<Longrightarrow> c \<noteq> CHR ''_'' \<Longrightarrow> digit_part b n s = None"
  by (induction s arbitrary: b n) (auto split: option.splits)

lemma py_int_trailing:
  assumes "digit c = None" "c \<noteq> CHR ''_''" "\<not> is_space c"
  shows "\<exists>msg. py_int (py_str n @ [c]) = Inl (ValueError msg)"
proof -
  have st: "strip (py_str n @ [c]) = py_str n @ [c]"
    by (rule strip_id) (use py_str_no_space assms(3) in auto)
  obtain d ds where d: "py_str n = d # ds" by (cases "py_str n") (auto simp: py_str_def split: if_splits)
  obtain neg body where b: "signed (py_str n @ [c]) = (neg, body)" by fastforce
  then have "c \<in> set body" by (auto simp: d split: if_splits)
  then have "digit_part False 0 body = None" using assms by (intro digit_part_bad [of c])
  then show ?thesis by (simp add: py_int_def st b)
qed

end
