(* ===== verification/Sampling.thy ===== *)
theory Sampling
  imports Config TorchRef "HOL-Library.Multiset"
begin

text \<open>
  \<open>worker/server/sampling.py\<close>: logits to next tokens, greedy at temperature 0 and top-k/top-p
  sampling otherwise, and the grouping of a ragged batch by sampling parameters.

  The logits are a float tensor, so their operations are the library's: the record \<open>float_ops\<close>
  adds them to the structural calls. Rounding arithmetic (\<open>/\<close>, \<open>softmax\<close>, \<open>cumsum\<close>) is described
  only as far as the code relies on it. \<open>multinomial\<close> takes and returns the state of the random
  generator and may raise.
\<close>

section \<open>Sampling parameters\<close>

record sampling_params =
  max_tokens :: int
  temperature :: pyfloat
  top_k :: int
  top_p :: pyfloat

definition default_params :: sampling_params where
  "default_params = \<lparr>max_tokens = 50, temperature = Fin 0, top_k = 0, top_p = Fin 1\<rparr>"

definition clamp :: "('m) settings_scheme \<Rightarrow> sampling_params \<Rightarrow> sampling_params" where
  "clamp S p =
     \<lparr>max_tokens = max 1 (min (max_tokens p) (max_new_tokens S)),
      temperature = py_max (Fin 0) (py_min (temperature p) (Fin 2)),
      top_k = max 0 (top_k p),
      top_p = py_or (py_min (py_max (top_p p) (Fin 0)) (Fin 1)) (Fin 1)\<rparr>"

section \<open>The calls on logits\<close>

record ('f, 'i, 'b, 'r) float_ops = "('f, pyfloat) tensor_ops" +
  last_position :: "'f \<Rightarrow> 'f"
  argmax :: "'f \<Rightarrow> 'i"
  div_scalar :: "'f \<Rightarrow> pyfloat \<Rightarrow> 'f"
  topk_values :: "'f \<Rightarrow> nat \<Rightarrow> 'f"
  last_column :: "'f \<Rightarrow> 'f"
  lt_elem :: "'f \<Rightarrow> 'f \<Rightarrow> 'b"
  masked_fill :: "'f \<Rightarrow> 'b \<Rightarrow> pyfloat \<Rightarrow> 'f"
  sort_descending :: "'f \<Rightarrow> 'f \<times> 'i"
  softmax :: "'f \<Rightarrow> 'f"
  fcumsum :: "'f \<Rightarrow> 'f"
  sub_elem :: "'f \<Rightarrow> 'f \<Rightarrow> 'f"
  gt_scalar :: "'f \<Rightarrow> pyfloat \<Rightarrow> 'b"
  empty_like :: "'f \<Rightarrow> 'f"
  scatter :: "'f \<Rightarrow> 'i \<Rightarrow> 'f \<Rightarrow> 'f"
  multinomial :: "'f \<Rightarrow> 'r \<Rightarrow> exn + 'i \<times> 'r"
  squeeze_last :: "'i \<Rightarrow> 'i"

text \<open>
  \<open>last_position t\<close> is \<open>t[:, -1, :]\<close>, \<open>last_column t\<close> is \<open>t[..., -1, None]\<close>, \<open>lt_elem a b\<close> is
  \<open>a < b\<close> with \<open>b\<close> broadcast along the rows, \<open>gt_scalar t x\<close> is \<open>t > x\<close>.
\<close>

section \<open>Sampling\<close>

definition filter_top_k ::
    "('f, 'i, 'b, 'r, 'm) float_ops_scheme \<Rightarrow> int \<Rightarrow> 'f \<Rightarrow> 'f" where
  "filter_top_k F tk logits =
     (if 0 < tk then
        let k = min (nat tk) (last (shape F logits));
            kth = last_column F (topk_values F logits k)
        in masked_fill F logits (lt_elem F logits kth) NegInf
      else logits)"

definition filter_top_p ::
    "('f, 'i, 'b, 'r, 'm) float_ops_scheme \<Rightarrow> pyfloat \<Rightarrow> 'f \<Rightarrow> 'f" where
  "filter_top_p F tp logits =
     (if flt tp (Fin 1) then
        let (ordered, order) = sort_descending F logits;
            cumulative = fcumsum F (softmax F ordered);
            dropped = gt_scalar F (sub_elem F cumulative (softmax F ordered)) tp;
            ordered' = masked_fill F ordered dropped NegInf
        in scatter F (empty_like F logits) order ordered'
      else logits)"

definition sample ::
    "('f, 'i, 'b, 'r, 'm) float_ops_scheme \<Rightarrow> 'f \<Rightarrow> sampling_params \<Rightarrow> 'r \<Rightarrow> exn + 'i \<times> 'r" where
  "sample F logits params rng =
     (if fle (temperature params) (Fin 0) then Inr (argmax F logits, rng)
      else
        let logits = div_scalar F logits (temperature params);
            logits = filter_top_k F (top_k params) logits;
            logits = filter_top_p F (top_p params) logits
        in try_bind (multinomial F (softmax F logits) rng)
             (\<lambda>(t, rng'). Inr (squeeze_last F t, rng')))"

section \<open>Batches with parameters of their own per row\<close>

type_synonym group_key = "pyfloat \<times> int \<times> pyfloat"

definition key_of :: "sampling_params \<Rightarrow> group_key" where
  "key_of p = (temperature p, top_k p, top_p p)"

text \<open>\<open>groups.setdefault(key, []).append(row)\<close> on a dictionary in insertion order.\<close>

fun add_to_group :: "group_key \<Rightarrow> nat \<Rightarrow> (group_key \<times> nat list) list \<Rightarrow> (group_key \<times> nat list) list" where
  "add_to_group key r [] = [(key, [r])]"
| "add_to_group key r ((key', rs) # gs) =
     (if key = key' then (key', rs @ [r]) # gs else (key', rs) # add_to_group key r gs)"

fun group_rows :: "nat \<Rightarrow> sampling_params list \<Rightarrow> (group_key \<times> nat list) list
    \<Rightarrow> (group_key \<times> nat list) list" where
  "group_rows r [] gs = gs"
| "group_rows r (p # ps) gs = group_rows (Suc r) ps (add_to_group (key_of p) r gs)"

fun group_params :: "group_key \<Rightarrow> sampling_params" where
  "group_params (temp, tk, tp) = default_params\<lparr>temperature := temp, top_k := tk, top_p := tp\<rparr>"

fun sample_groups ::
    "('f, 'i, 'b, 'r, 'm) float_ops_scheme \<Rightarrow> ('i, 'b, 'n) long_ops_scheme \<Rightarrow> 'f \<Rightarrow>
     (group_key \<times> nat list) list \<Rightarrow> 'i \<Rightarrow> 'r \<Rightarrow> exn + 'i \<times> 'r" where
  "sample_groups F I logits [] out rng = Inr (out, rng)"
| "sample_groups F I logits ((key, rs) # gs) out rng =
     try_bind (sample F (index_select F logits 0 rs) (group_params key) rng)
       (\<lambda>(t, rng'). sample_groups F I logits gs (index_put I out rs t) rng')"

definition sample_batch ::
    "('f, 'i, 'b, 'r, 'm) float_ops_scheme \<Rightarrow> ('i, 'b, 'n) long_ops_scheme \<Rightarrow> 'f \<Rightarrow>
     sampling_params list \<Rightarrow> 'r \<Rightarrow> exn + 'i \<times> 'r" where
  "sample_batch F I logits params rng =
     (if params = [] then Inr (empty I [0], rng)
      else sample_groups F I logits (group_rows 0 params [])
             (empty I [shape F logits ! 0]) rng)"

section \<open>Documented behaviour\<close>

text \<open>
  Each call works row by row: \<open>amax\<close> is the position of a row's first maximum, \<open>sortd\<close> a row in
  descending order and \<open>order\<close> the positions it came from, \<open>fdiv\<close>, \<open>smax\<close>, \<open>csum\<close>, \<open>fsub\<close> the
  rounded arithmetic.
\<close>

locale float_lib =
  F: tensor_lib F "Fin 0" + I: long_lib I
  for F :: "('f, 'i, 'b, 'r, 'm) float_ops_scheme" and I :: "('i, 'b, 'n) long_ops_scheme" +
  fixes amax :: "pyfloat list \<Rightarrow> nat"
    and fdiv :: "pyfloat \<Rightarrow> pyfloat \<Rightarrow> pyfloat"
    and sortd :: "pyfloat list \<Rightarrow> pyfloat list"
    and order :: "pyfloat list \<Rightarrow> nat list"
    and smax :: "pyfloat list \<Rightarrow> pyfloat list"
    and csum :: "pyfloat list \<Rightarrow> pyfloat list"
    and fsub :: "pyfloat \<Rightarrow> pyfloat \<Rightarrow> pyfloat"
  assumes last_position: "shape F t = [b, n, v] \<Longrightarrow> 0 < n \<Longrightarrow>
      shape F (last_position F t) = [b, v] \<and>
      (\<forall>i<b. \<forall>j<v. elem F (last_position F t) [i, j] = elem F t [i, n - 1, j])"
    and argmax: "shape F t = [b, v] \<Longrightarrow> 0 < v \<Longrightarrow>
      shape I (argmax F t) = [b] \<and> (\<forall>i<b. elem I (argmax F t) [i] = int (amax (row F t i)))"
    and amax_less: "xs \<noteq> [] \<Longrightarrow> amax xs < length xs"
    and amax_max: "NaN \<notin> set xs \<Longrightarrow> x \<in> set xs \<Longrightarrow> fle x (xs ! amax xs)"
    and div_scalar: "shape F t = [b, v] \<Longrightarrow>
      shape F (div_scalar F t c) = [b, v] \<and>
      (\<forall>i<b. row F (div_scalar F t c) i = map (\<lambda>x. fdiv x c) (row F t i))"
    and topk_values: "shape F t = [b, v] \<Longrightarrow> 0 < k \<Longrightarrow> k \<le> v \<Longrightarrow>
      shape F (topk_values F t k) = [b, k] \<and>
      (\<forall>i<b. row F (topk_values F t k) i = take k (sortd (row F t i)))"
    and sortd_perm: "mset (sortd xs) = mset xs"
    and sortd_sorted: "NaN \<notin> set xs \<Longrightarrow> sorted_wrt (\<lambda>x y. fle y x) (sortd xs)"
    and order_perm: "mset (order xs) = mset [0..<length xs]"
    and order_sortd: "map ((!) xs) (order xs) = sortd xs"
    and last_column: "shape F t = [b, k] \<Longrightarrow> 0 < k \<Longrightarrow>
      shape F (last_column F t) = [b, 1] \<and>
      (\<forall>i<b. elem F (last_column F t) [i, 0] = elem F t [i, k - 1])"
    and lt_elem: "shape F t = [b, v] \<Longrightarrow> shape F u = [b, 1] \<Longrightarrow>
      bshape I (lt_elem F t u) = [b, v] \<and>
      (\<forall>i<b. \<forall>j<v. belem I (lt_elem F t u) [i, j] = flt (elem F t [i, j]) (elem F u [i, 0]))"
    and masked_fill: "shape F t = [b, v] \<Longrightarrow> bshape I cnd = [b, v] \<Longrightarrow>
      shape F (masked_fill F t cnd x) = [b, v] \<and>
      (\<forall>i<b. \<forall>j<v. elem F (masked_fill F t cnd x) [i, j] =
         (if belem I cnd [i, j] then x else elem F t [i, j]))"
    and sort_descending: "shape F t = [b, v] \<Longrightarrow> sort_descending F t = (o', ix) \<Longrightarrow>
      shape F o' = [b, v] \<and> shape I ix = [b, v] \<and>
      (\<forall>i<b. row F o' i = sortd (row F t i) \<and> row I ix i = map int (order (row F t i)))"
    and softmax: "shape F t = [b, v] \<Longrightarrow>
      shape F (softmax F t) = [b, v] \<and> (\<forall>i<b. row F (softmax F t) i = smax (row F t i))"
    and length_smax: "length (smax xs) = length xs"
    and smax_NegInf: "j < length xs \<Longrightarrow> xs ! j = NegInf \<Longrightarrow> (\<exists>x\<in>set xs. \<exists>r. x = Fin r) \<Longrightarrow>
      set xs \<inter> {NaN, PosInf} = {} \<Longrightarrow> smax xs ! j = Fin 0"
    and smax_Fin: "j < length xs \<Longrightarrow> (\<exists>x\<in>set xs. \<exists>r. x = Fin r) \<Longrightarrow>
      set xs \<inter> {NaN, PosInf} = {} \<Longrightarrow> \<exists>p. smax xs ! j = Fin p"
    and fcumsum: "shape F t = [b, v] \<Longrightarrow>
      shape F (fcumsum F t) = [b, v] \<and> (\<forall>i<b. row F (fcumsum F t) i = csum (row F t i))"
    and csum_first: "csum (x # xs) ! 0 = x"
    and length_csum: "length (csum xs) = length xs"
    and sub_elem: "shape F t = [b, v] \<Longrightarrow> shape F u = [b, v] \<Longrightarrow>
      shape F (sub_elem F t u) = [b, v] \<and>
      (\<forall>i<b. \<forall>j<v. elem F (sub_elem F t u) [i, j] = fsub (elem F t [i, j]) (elem F u [i, j]))"
    and fsub_self: "fsub (Fin p) (Fin p) = Fin 0"
    and gt_scalar: "shape F t = [b, v] \<Longrightarrow>
      bshape I (gt_scalar F t x) = [b, v] \<and>
      (\<forall>i<b. \<forall>j<v. belem I (gt_scalar F t x) [i, j] = flt x (elem F t [i, j]))"
    and empty_like: "shape F (empty_like F t) = shape F t"
    and scatter: "shape F t = [b, v] \<Longrightarrow> shape F u = [b, v] \<Longrightarrow> shape I ix = [b, v] \<Longrightarrow>
      (\<forall>i<b. mset (row I ix i) = mset (map int [0..<v])) \<Longrightarrow>
      shape F (scatter F t ix u) = [b, v] \<and>
      (\<forall>i<b. \<forall>j<v. elem F (scatter F t ix u) [i, nat (elem I ix [i, j])] = elem F u [i, j])"
    and multinomial: "shape F t = [b, v] \<Longrightarrow> multinomial F t rng = Inr (drawn, rng') \<Longrightarrow>
      shape I drawn = [b, 1] \<and>
      (\<forall>i<b. \<exists>j<v. elem I drawn [i, 0] = int j \<and> elem F t [i, j] \<noteq> Fin 0)"
    and squeeze_last: "shape I drawn = [b, 1] \<Longrightarrow>
      shape I (squeeze_last F drawn) = [b] \<and> (\<forall>i<b. elem I (squeeze_last F drawn) [i] = elem I drawn [i, 0])"

section \<open>Clamping\<close>

lemma py_max_zero [simp]: "py_max (Fin 0) x = (if flt (Fin 0) x then x else Fin 0)"
  by (simp add: py_max_def)

lemma clamp_max_tokens: "1 \<le> max_tokens (clamp S p)"
  "1 \<le> max_new_tokens S \<Longrightarrow> max_tokens (clamp S p) \<le> max_new_tokens S"
  by (simp_all add: clamp_def)

lemma clamp_temperature_greedy [simp]:
  "fle (temperature (clamp S p)) (Fin 0) \<longleftrightarrow> \<not> flt (Fin 0) (temperature p)"
  by (cases "temperature p") (auto simp: clamp_def py_min_def fle_def)

section \<open>Grouping\<close>

definition groups_ok :: "nat \<Rightarrow> sampling_params list \<Rightarrow> (group_key \<times> nat list) list \<Rightarrow> bool" where
  "groups_ok n ps gs \<longleftrightarrow>
     distinct (concat (map snd gs)) \<and> set (concat (map snd gs)) = {0..<n} \<and>
     (\<forall>(key, rs)\<in>set gs. \<forall>r\<in>set rs. key_of (ps ! r) = key)"

lemma set_add_to_group:
  "set (concat (map snd (add_to_group key r gs))) = insert r (set (concat (map snd gs)))"
  by (induction key r gs rule: add_to_group.induct) auto

lemma distinct_add_to_group:
  "distinct (concat (map snd gs)) \<Longrightarrow> r \<notin> set (concat (map snd gs)) \<Longrightarrow>
    distinct (concat (map snd (add_to_group key r gs)))"
proof (induction key r gs rule: add_to_group.induct)
  case (1 key r)
  then show ?case by simp
next
  case (2 key r key' rs gs)
  then show ?case
    using set_add_to_group [of key r gs] by auto
qed

lemma keys_add_to_group:
  "\<forall>(k, rs)\<in>set gs. \<forall>r\<in>set rs. key_of (ps ! r) = k \<Longrightarrow> key_of (ps ! r) = key \<Longrightarrow>
    \<forall>(k, rs)\<in>set (add_to_group key r gs). \<forall>r\<in>set rs. key_of (ps ! r) = k"
  by (induction key r gs rule: add_to_group.induct) auto

lemma groups_ok_group_rows:
  "groups_ok r (pre @ ps) gs \<Longrightarrow> r = length pre \<Longrightarrow>
    groups_ok (length (pre @ ps)) (pre @ ps) (group_rows r ps gs)"
proof (induction ps arbitrary: r pre gs)
  case Nil
  then show ?case by simp
next
  case (Cons p ps)
  have "groups_ok (Suc r) (pre @ p # ps) (add_to_group (key_of p) r gs)"
    using Cons.prems distinct_add_to_group [of gs r] keys_add_to_group [of gs "pre @ p # ps" r]
      set_add_to_group [of "key_of p" r gs]
    by (auto simp: groups_ok_def atLeast0_lessThan_Suc)
  then show ?case
    using Cons.IH [of "Suc r" "pre @ [p]" "add_to_group (key_of p) r gs"] Cons.prems by simp
qed

lemma groups_ok_all: "groups_ok (length ps) ps (group_rows 0 ps [])"
  using groups_ok_group_rows [of 0 "[]" ps "[]"] by (simp add: groups_ok_def)

text \<open>What a sampled row must satisfy, whatever the random draw.\<close>

definition sampled_ok :: "(pyfloat list \<Rightarrow> nat) \<Rightarrow> pyfloat \<Rightarrow> pyfloat list \<Rightarrow> int \<Rightarrow> bool" where
  "sampled_ok am temp xs tok \<longleftrightarrow>
     (\<exists>j<length xs. tok = int j \<and> (fle temp (Fin 0) \<longrightarrow> j = am xs))"

context float_lib begin

lemma filter_top_k_shape:
  assumes "shape F l = [b, v]" "0 < v"
  shows "shape F (filter_top_k F tk l) = [b, v]"
    and "i < b \<Longrightarrow> row F (filter_top_k F tk l) i =
      (if 0 < tk then map (\<lambda>x. if flt x (sortd (row F l i) ! (min (nat tk) v - 1)) then NegInf else x)
         (row F l i)
       else row F l i)"
proof -
  define k where "k = min (nat tk) v"
  define u where "u = last_column F (topk_values F l k)"
  define w where "w = masked_fill F l (lt_elem F l u) NegInf"
  have W: "shape F w = [b, v] \<and> (\<forall>i<b. \<forall>j<v. elem F w [i, j] =
      (if flt (elem F l [i, j]) (sortd (row F l i) ! (k - 1)) then NegInf else elem F l [i, j]))"
    if "0 < tk"
  proof -
    have k: "0 < k" "k \<le> v" using that assms by (auto simp: k_def)
    note top = topk_values [OF assms(1) k]
    note col = last_column [OF conjunct1 [OF top] k(1)]
    have u: "shape F u = [b, 1]" "\<forall>i<b. elem F u [i, 0] = sortd (row F l i) ! (k - 1)"
    proof -
      show "shape F u = [b, 1]" using col by (simp add: u_def)
      have "elem F (topk_values F l k) [i, k - 1] = row F (topk_values F l k) i ! (k - 1)"
        if "i < b" for i
        using top k by (simp add: nth_row)
      then show "\<forall>i<b. elem F u [i, 0] = sortd (row F l i) ! (k - 1)"
        using col top k by (simp add: u_def)
    qed
    note lt = lt_elem [OF assms(1) u(1)]
    show ?thesis
      using masked_fill [OF assms(1) conjunct1 [OF lt], of NegInf] lt u(2) by (simp add: w_def)
  qed
  have eq: "filter_top_k F tk l = (if 0 < tk then w else l)"
    using assms by (simp add: filter_top_k_def Let_def w_def u_def k_def)
  show "shape F (filter_top_k F tk l) = [b, v]"
    using W assms eq by auto
  show "row F (filter_top_k F tk l) i =
      (if 0 < tk then map (\<lambda>x. if flt x (sortd (row F l i) ! (min (nat tk) v - 1)) then NegInf else x)
         (row F l i)
       else row F l i)" if "i < b"
    using W assms eq that unfolding k_def [symmetric]
    by (auto intro!: nth_equalityI simp: nth_row)
qed


lemma length_sortd [simp]: "length (sortd xs) = length xs"
  using sortd_perm [of xs] by (metis size_mset)

lemma length_order [simp]: "length (order xs) = length xs"
  using order_perm [of xs] by (metis diff_zero length_upt size_mset)

lemma set_order: "set (order xs) = {0..<length xs}"
  using order_perm [of xs] by (metis atLeastLessThan_upt mset_eq_setD)

lemma nth_order: "j < length xs \<Longrightarrow> order xs ! j < length xs"
  using set_order [of xs] by (metis atLeastLessThan_iff length_order nth_mem)

lemma xs_order: "j < length xs \<Longrightarrow> xs ! (order xs ! j) = sortd xs ! j"
  using order_sortd [of xs] by (metis length_order nth_map)

text \<open>The probability mass before position \<open>j\<close> of a row sorted in descending order.\<close>

definition mass_before :: "pyfloat list \<Rightarrow> nat \<Rightarrow> pyfloat" where
  "mass_before xs j = fsub (csum (smax (sortd xs)) ! j) (smax (sortd xs) ! j)"

lemma filter_top_p_shape:
  assumes l: "shape F l = [b, v]"
  shows "shape F (filter_top_p F tp l) = [b, v]"
    and "i < b \<Longrightarrow> j < v \<Longrightarrow> flt tp (Fin 1) \<Longrightarrow>
      row F (filter_top_p F tp l) i ! (order (row F l i) ! j) =
        (if flt tp (mass_before (row F l i) j) then NegInf else sortd (row F l i) ! j)"
proof -
  obtain ordered ix where so: "sort_descending F l = (ordered, ix)" by fastforce
  note sd = sort_descending [OF l so]
  define sm where "sm = softmax F ordered"
  define df where "df = sub_elem F (fcumsum F sm) sm"
  define dr where "dr = gt_scalar F df tp"
  define kept where "kept = masked_fill F ordered dr NegInf"
  define res where "res = scatter F (empty_like F l) ix kept"
  have sm: "shape F sm = [b, v] \<and> (\<forall>i<b. row F sm i = smax (sortd (row F l i)))"
    using softmax [OF conjunct1 [OF sd]] sd by (simp add: sm_def)
  have cs: "shape F (fcumsum F sm) = [b, v] \<and>
      (\<forall>i<b. row F (fcumsum F sm) i = csum (smax (sortd (row F l i))))"
    using fcumsum [OF conjunct1 [OF sm]] sm by simp
  have el: "elem F t [i, j] = row F t i ! j" if "shape F t = [b, v]" "j < v" for t i j
    using that by (simp add: nth_row)
  have df: "shape F df = [b, v] \<and> (\<forall>i<b. \<forall>j<v. elem F df [i, j] = mass_before (row F l i) j)"
  proof -
    have "elem F (fcumsum F sm) [i, j] = csum (smax (sortd (row F l i))) ! j"
      "elem F sm [i, j] = smax (sortd (row F l i)) ! j" if "i < b" "j < v" for i j
      using cs sm that by (simp_all add: el)
    then show ?thesis
      using sub_elem [OF conjunct1 [OF cs] conjunct1 [OF sm]] by (simp add: df_def mass_before_def)
  qed
  have kept: "shape F kept = [b, v] \<and> (\<forall>i<b. \<forall>j<v. elem F kept [i, j] =
      (if flt tp (mass_before (row F l i) j) then NegInf else sortd (row F l i) ! j))"
  proof -
    have "elem F ordered [i, j] = sortd (row F l i) ! j" if "i < b" "j < v" for i j
      using sd that by (simp add: el)
    then show ?thesis
      using masked_fill [OF conjunct1 [OF sd] conjunct1 [OF gt_scalar [OF conjunct1 [OF df]]]]
        gt_scalar [OF conjunct1 [OF df]] df by (simp add: kept_def dr_def)
  qed
  have perm: "\<forall>i<b. mset (row I ix i) = mset (map int [0..<v])"
    using sd order_perm l by (simp add: mset_map)
  have res: "shape F res = [b, v] \<and> (\<forall>i<b. \<forall>j<v. elem F res [i, order (row F l i) ! j] =
      elem F kept [i, j])"
  proof -
    have "elem I ix [i, j] = int (order (row F l i) ! j)" if "i < b" "j < v" for i j
      using sd that l nth_row [of j I ix i] by simp
    then show ?thesis
      using scatter [of "empty_like F l" b v kept ix] empty_like [of l] l kept sd perm
      by (simp add: res_def)
  qed
  have eq: "filter_top_p F tp l = (if flt tp (Fin 1) then res else l)"
    by (simp add: filter_top_p_def Let_def so res_def kept_def dr_def df_def sm_def)
  show "shape F (filter_top_p F tp l) = [b, v]"
    using res l eq by simp
  show "row F (filter_top_p F tp l) i ! (order (row F l i) ! j) =
      (if flt tp (mass_before (row F l i) j) then NegInf else sortd (row F l i) ! j)"
    if "i < b" "j < v" "flt tp (Fin 1)"
    using res kept eq that nth_order [of j "row F l i"] l by (simp add: nth_row)
qed

lemma sample_row:
  assumes l: "shape F l = [b, v]" "0 < v" and s: "sample F l p rng = Inr (t, rng')"
  shows "shape I t = [b]"
    and "i < b \<Longrightarrow> sampled_ok amax (temperature p) (row F l i) (elem I t [i])"
proof -
  have "shape I t = [b] \<and> (\<forall>i<b. sampled_ok amax (temperature p) (row F l i) (elem I t [i]))"
  proof (cases "fle (temperature p) (Fin 0)")
    case True
    have "amax (row F l i) < v" for i
    proof -
      have "length (row F l i) = v" "row F l i \<noteq> []" using l by (auto simp: row_def)
      then show ?thesis using amax_less [of "row F l i"] by simp
    qed
    with True show ?thesis
      using argmax [OF l] s l by (auto simp: sample_def sampled_ok_def)
  next
    case False
    define m where "m = filter_top_p F (top_p p) (filter_top_k F (top_k p) (div_scalar F l (temperature p)))"
    have sh: "shape F m = [b, v]"
      unfolding m_def using div_scalar [OF l(1)] l(2)
      by (intro filter_top_p_shape(1) filter_top_k_shape(1)) auto
    from s False obtain u where u: "multinomial F (softmax F m) rng = Inr (u, rng')"
        "t = squeeze_last F u"
      by (auto simp: sample_def Let_def m_def try_bind_Inr_iff)
    note mn = multinomial [OF conjunct1 [OF softmax [OF sh]] u(1)]
    have "\<exists>j<v. elem I t [i] = int j" if "i < b" for i
      using mn squeeze_last [OF conjunct1 [OF mn]] u(2) that by auto
    then show ?thesis
      using squeeze_last [OF conjunct1 [OF mn]] u(2) False l by (auto simp: sampled_ok_def)
  qed
  then show "shape I t = [b]"
    and "i < b \<Longrightarrow> sampled_ok amax (temperature p) (row F l i) (elem I t [i])" by auto
qed

lemma temperature_group_params: "temperature (group_params (key_of p)) = temperature p"
  by (simp add: key_of_def)

lemma sample_groups_rows:
  assumes "shape F l = [n, v]" "0 < v"
  shows "sample_groups F I l gs out rng = Inr (t, rng') \<Longrightarrow> shape I out = [n] \<Longrightarrow>
    distinct (concat (map snd gs)) \<Longrightarrow> set (concat (map snd gs)) \<subseteq> {0..<n} \<Longrightarrow>
    shape I t = [n] \<and>
    (\<forall>(key, rs)\<in>set gs. \<forall>r\<in>set rs.
       sampled_ok amax (temperature (group_params key)) (row F l r) (elem I t [r])) \<and>
    (\<forall>r<n. r \<notin> set (concat (map snd gs)) \<longrightarrow> elem I t [r] = elem I out [r])"
proof (induction gs arbitrary: out rng)
  case Nil
  then show ?case by simp
next
  case (Cons g gs)
  obtain key rs where g: "g = (key, rs)" by fastforce
  have rs: "\<forall>r\<in>set rs. r < n" "distinct rs" using Cons.prems g by auto
  from Cons.prems(1) obtain u rng1 where
    u: "sample F (index_select F l 0 rs) (group_params key) rng = Inr (u, rng1)" and
    rest: "sample_groups F I l gs (index_put I out rs u) rng1 = Inr (t, rng')"
    by (auto simp: g try_bind_Inr_iff)
  have sel: "shape F (index_select F l 0 rs) = [length rs, v]"
    by (rule F.index_select_mat(1) [OF assms(1) rs(1)])
  note su = sample_row [OF sel assms(2) u]
  note put = I.shape_index_put [OF Cons.prems(2) rs(1) su(1)]
    I.elem_index_put [OF Cons.prems(2) rs su(1)]
    I.elem_index_put_other [OF Cons.prems(2) rs(1) su(1)]
  note IH = Cons.IH [OF rest put(1)]
  have t: "shape I t = [n]"
    "\<forall>(key, rs)\<in>set gs. \<forall>r\<in>set rs.
       sampled_ok amax (temperature (group_params key)) (row F l r) (elem I t [r])"
    "\<forall>r<n. r \<notin> set (concat (map snd gs)) \<longrightarrow> elem I t [r] = elem I (index_put I out rs u) [r]"
    using IH Cons.prems g by auto
  have "sampled_ok amax (temperature (group_params key)) (row F l r) (elem I t [r])"
    if r: "r \<in> set rs" for r
  proof -
    obtain k where k: "k < length rs" "r = rs ! k" using r by (auto simp: in_set_conv_nth)
    have "r \<notin> set (concat (map snd gs))" using Cons.prems(3) r g by auto
    then have "elem I t [r] = elem I u [k]"
      using t(3) rs r put(2) [OF k(1)] k(2) by auto
    then show ?thesis
      using su(2) [OF k(1)] F.index_select_mat(2) [OF assms(1) rs(1) k(1)] k(2) by simp
  qed
  with t put(3) show ?case by (auto simp: g)
qed

text \<open>Every row of a ragged batch is sampled from its own logits with its own parameters.\<close>

lemma sample_batch_rows:
  assumes "shape F l = [length ps, v]" "0 < v" "ps \<noteq> []"
    and "sample_batch F I l ps rng = Inr (t, rng')"
  shows "shape I t = [length ps]"
    and "r < length ps \<Longrightarrow> sampled_ok amax (temperature (ps ! r)) (row F l r) (elem I t [r])"
proof -
  let ?gs = "group_rows 0 ps []"
  have ok: "groups_ok (length ps) ps ?gs" by (rule groups_ok_all)
  have run: "sample_groups F I l ?gs (empty I [length ps]) rng = Inr (t, rng')"
    using assms by (simp add: sample_batch_def)
  have R: "shape I t = [length ps] \<and> (\<forall>(key, rs)\<in>set ?gs. \<forall>r\<in>set rs.
       sampled_ok amax (temperature (group_params key)) (row F l r) (elem I t [r]))"
    using sample_groups_rows [OF assms(1,2) run I.shape_empty] ok by (simp add: groups_ok_def)
  then show "shape I t = [length ps]" by simp
  show "sampled_ok amax (temperature (ps ! r)) (row F l r) (elem I t [r])" if "r < length ps"
  proof -
    have "r \<in> set (concat (map snd ?gs))" using ok that by (simp add: groups_ok_def)
    then obtain key rs where g: "(key, rs) \<in> set ?gs" "r \<in> set rs" by auto
    then have "key = key_of (ps ! r)" using ok by (auto simp: groups_ok_def)
    then have "temperature (group_params key) = temperature (ps ! r)"
      by (simp only: temperature_group_params)
    moreover have "sampled_ok amax (temperature (group_params key)) (row F l r) (elem I t [r])"
      using R g by blast
    ultimately show ?thesis by simp
  qed
qed

end

section \<open>What sampling can pick\<close>

text \<open>The row that is left after the top-k filter, the k-th largest entry being the threshold.\<close>

definition top_k_row :: "(pyfloat list \<Rightarrow> pyfloat list) \<Rightarrow> int \<Rightarrow> pyfloat list \<Rightarrow> pyfloat list" where
  "top_k_row srt tk xs =
     (if 0 < tk then map (\<lambda>x. if flt x (srt xs ! (min (nat tk) (length xs) - 1)) then NegInf else x) xs
      else xs)"

lemma length_top_k_row [simp]: "length (top_k_row srt tk xs) = length xs"
  by (simp add: top_k_row_def)

text \<open>A row of finite and masked entries, not all masked.\<close>

definition proper_row :: "pyfloat list \<Rightarrow> bool" where
  "proper_row xs \<longleftrightarrow> set xs \<inter> {NaN, PosInf} = {} \<and> (\<exists>x\<in>set xs. \<exists>q. x = Fin q)"

lemma proper_rowI:
  assumes "\<And>x. x \<in> set xs \<Longrightarrow> x = NegInf \<or> (\<exists>q. x = Fin q)" and "Fin q \<in> set xs"
  shows "proper_row xs"
  using assms by (fastforce simp: proper_row_def)

lemma proper_row_elem: "proper_row xs \<Longrightarrow> x \<in> set xs \<Longrightarrow> x = NegInf \<or> (\<exists>q. x = Fin q)"
  by (cases x) (auto simp: proper_row_def)

context float_lib begin

lemma set_sortd [simp]: "set (sortd xs) = set xs"
  using sortd_perm [of xs] by (metis set_mset_mset)

lemma top_k_row_proper:
  assumes fin: "\<forall>x\<in>set xs. \<exists>q. x = Fin q" and ne: "xs \<noteq> []"
  shows "proper_row (top_k_row sortd tk xs)"
proof -
  have "\<exists>q. Fin q \<in> set (top_k_row sortd tk xs)"
  proof (cases "0 < tk")
    case True
    let ?t = "sortd xs ! (min (nat tk) (length xs) - 1)"
    have len: "0 < length xs" using ne by simp
    then have "min (nat tk) (length xs) - 1 < length (sortd xs)"
      unfolding length_sortd by linarith
    then have "?t \<in> set (sortd xs)" by (rule nth_mem)
    then have t: "?t \<in> set xs" by simp
    then have "?t \<in> set (top_k_row sortd tk xs)"
      using True by (force simp: top_k_row_def)
    then show ?thesis using fin t by metis
  next
    case False
    obtain x where "x \<in> set xs" using ne by (cases xs) auto
    then show ?thesis using fin False by (auto simp: top_k_row_def)
  qed
  then obtain q where "Fin q \<in> set (top_k_row sortd tk xs)" ..
  then show ?thesis
    by (rule proper_rowI [rotated]) (use fin in \<open>auto simp: top_k_row_def split: if_splits\<close>)
qed

text \<open>The most likely token always passes the top-p filter.\<close>

lemma nucleus_nonempty:
  assumes ys: "proper_row ys" and p: "fle (Fin 0) tp"
  shows "\<not> flt tp (mass_before ys 0)" and "\<exists>q. sortd ys ! 0 = Fin q"
proof -
  have ne: "ys \<noteq> []" and nan: "NaN \<notin> set ys" using ys by (auto simp: proper_row_def)
  obtain q where "Fin q \<in> set (sortd ys)" using ys by (auto simp: proper_row_def)
  then obtain r where r: "r < length ys" "sortd ys ! r = Fin q" by (metis in_set_conv_nth length_sortd)
  have "fle (Fin q) (sortd ys ! 0)"
  proof (cases r)
    case 0
    then show ?thesis using r by (simp add: fle_refl)
  next
    case (Suc k)
    then show ?thesis using sorted_wrt_nth_less [OF sortd_sorted [OF nan], of 0 r] r by simp
  qed
  moreover have "sortd ys ! 0 \<in> set ys" using ne nth_mem [of 0 "sortd ys"] by simp
  ultimately show "\<exists>q. sortd ys ! 0 = Fin q"
    using proper_row_elem [OF ys, of "sortd ys ! 0"] by (auto simp: fle_def)
  have "proper_row (sortd ys)" using ys by (simp add: proper_row_def)
  then obtain w where w: "smax (sortd ys) ! 0 = Fin w"
    using smax_Fin [of 0 "sortd ys"] ne by (auto simp: proper_row_def)
  have "smax (sortd ys) \<noteq> []" using ne length_smax [of "sortd ys"] by force
  then obtain x xs where "smax (sortd ys) = x # xs" by (cases "smax (sortd ys)") auto
  then have "csum (smax (sortd ys)) ! 0 = Fin w" using csum_first [of x xs] w by simp
  then show "\<not> flt tp (mass_before ys 0)"
    using w p fsub_self [of w] by (cases tp) (auto simp: mass_before_def fle_def)
qed

lemma sample_survivor:
  assumes l: "shape F l = [b, v]" "0 < v" and s: "sample F l p g = Inr (t, g')"
    and warm: "\<not> fle (temperature p) (Fin 0)" and tp: "fle (Fin 0) (top_p p)" and i: "i < b"
    and xs: "xs = map (\<lambda>x. fdiv x (temperature p)) (row F l i)" "\<forall>x\<in>set xs. \<exists>q. x = Fin q"
    and ys: "ys = top_k_row sortd (top_k p) xs"
  shows "\<exists>j<v. elem I t [i] = int j \<and> ys ! j \<noteq> NegInf \<and>
    (flt (top_p p) (Fin 1) \<longrightarrow> (\<exists>r<v. order ys ! r = j \<and> \<not> flt (top_p p) (mass_before ys r)))"
proof -
  define d where "d = div_scalar F l (temperature p)"
  define k where "k = filter_top_k F (top_k p) d"
  define m where "m = filter_top_p F (top_p p) k"
  have d: "shape F d = [b, v]" "row F d i = xs"
    using div_scalar [OF l(1), of "temperature p"] i xs(1) by (simp_all add: d_def)
  have lxs: "length xs = v" using xs(1) l(1) by simp
  have k: "shape F k = [b, v]" "row F k i = ys"
    using filter_top_k_shape [OF d(1) l(2), where tk = "top_k p"] i d(2) lxs
    by (simp_all add: k_def ys top_k_row_def)
  have lys: "length ys = v" using lxs by (simp add: ys)
  have proper: "proper_row ys"
    unfolding ys using xs(2) lxs l(2) by (intro top_k_row_proper) auto
  note fp = filter_top_p_shape [OF k(1), where tp = "top_p p", folded m_def]
  obtain u where u: "multinomial F (softmax F m) g = Inr (u, g')" "t = squeeze_last F u"
    using s warm by (auto simp: sample_def Let_def m_def k_def d_def try_bind_Inr_iff)
  note sm = softmax [OF fp(1)]
  note mn = multinomial [OF conjunct1 [OF sm] u(1)]
  obtain j where j: "j < v" "elem I t [i] = int j" "elem F (softmax F m) [i, j] \<noteq> Fin 0"
    using mn squeeze_last [OF conjunct1 [OF mn]] u(2) i by auto
  have mi: "row F m i ! r = (if flt (top_p p) (Fin 1)
      then row F m i ! r else ys ! r)" if "r < v" for r
    using k(2) by (simp add: m_def filter_top_p_def)
  have lm: "length (row F m i) = v" using fp(1) by simp
  have nth: "row F m i ! (order ys ! r) =
      (if flt (top_p p) (mass_before ys r) then NegInf else sortd ys ! r)"
    if "r < v" "flt (top_p p) (Fin 1)" for r
    using fp(2) [OF i that] k(2) by simp
  have rank: "\<exists>r<v. order ys ! r = j'" if "j' < v" for j'
    using set_order [of ys] that lys by (metis atLeastLessThan_iff in_set_conv_nth le0 length_order)
  have pm: "proper_row (row F m i)"
  proof (cases "flt (top_p p) (Fin 1)")
    case True
    obtain q where q: "sortd ys ! 0 = Fin q" using nucleus_nonempty(2) [OF proper tp] by blast
    have "row F m i ! (order ys ! 0) = Fin q"
      using nth [OF l(2) True] nucleus_nonempty(1) [OF proper tp] q by simp
    then have "Fin q \<in> set (row F m i)"
      using nth_order [of 0 ys] lys lm l(2) by (metis nth_mem)
    then show ?thesis
    proof (rule proper_rowI [rotated])
      fix x assume "x \<in> set (row F m i)"
      then obtain j' where j': "j' < v" "x = row F m i ! j'" using lm by (auto simp: in_set_conv_nth)
      obtain r where r: "r < v" "order ys ! r = j'" using rank [OF j'(1)] by blast
      have "sortd ys ! r \<in> set ys" using r lys nth_mem [of r "sortd ys"] by simp
      then show "x = NegInf \<or> (\<exists>q. x = Fin q)"
        using nth [OF r(1) True] proper_row_elem [OF proper] j' r(2) by (auto split: if_splits)
    qed
  next
    case False
    have "row F m i = ys" using False k(2) by (simp add: m_def filter_top_p_def)
    then show ?thesis using proper by simp
  qed
  have alive: "row F m i ! j \<noteq> NegInf"
  proof
    assume "row F m i ! j = NegInf"
    then have "smax (row F m i) ! j = Fin 0"
      using smax_NegInf [of j "row F m i"] pm j(1) lm by (auto simp: proper_row_def)
    moreover have "elem F (softmax F m) [i, j] = smax (row F m i) ! j"
      using sm i j(1) nth_row [of j F "softmax F m" i] by simp
    ultimately show False using j(3) by simp
  qed
  show ?thesis
  proof (cases "flt (top_p p) (Fin 1)")
    case True
    obtain r where r: "r < v" "order ys ! r = j" using rank [OF j(1)] by blast
    have "\<not> flt (top_p p) (mass_before ys r)" "row F m i ! j = sortd ys ! r"
      using nth [OF r(1) True] r(2) alive by (auto split: if_splits)
    moreover have "ys ! j = sortd ys ! r" using xs_order [of r ys] r lys by simp
    ultimately show ?thesis using j r alive by auto
  next
    case False
    then show ?thesis using mi [OF j(1)] alive j by auto
  qed
qed

end

end
