(* ===== verification/Engine.thy ===== *)
theory Engine
  imports KVCache Sampling
begin

text \<open>
  \<open>worker/server/model.py\<close>: the inference engine, prefill and decode over a mutable batch.

  A \<open>Seq\<close> object is shared: the batch, the scheduler's tables and the caller all hold the same
  one, and the engine writes its fields. The model keeps the objects in a \<open>heap\<close> indexed by
  \<open>seq_id\<close> and passes references. The \<open>world\<close> is everything the engine's calls read and write
  besides the batch: the heap, the counter behind \<open>seq_id\<close>, the random generator, the clock.

  The tokenizer and the network are not part of the repository. They are fields of the record
  \<open>engine\<close> (the source's \<open>LLMEngine\<close> object): \<open>forward\<close> is a call of the model with
  \<open>use_cache=True\<close>, \<open>forward_plain\<close> a call with \<open>input_ids\<close> alone. Both may raise.
\<close>

section \<open>State\<close>

record seq =
  prompt_ids :: "int list"
  params :: sampling_params
  request_id :: string
  seq_id :: nat
  output_ids :: "int list"
  finish_reason :: "string option"
  arrived_at :: rat
  first_token_at :: "rat option"

definition finished :: "seq \<Rightarrow> bool" where
  "finished s = (finish_reason s \<noteq> None)"

definition total_length :: "seq \<Rightarrow> nat" where
  "total_length s = length (prompt_ids s) + length (output_ids s)"

record 'r world =
  heap :: "nat \<Rightarrow> seq"
  next_seq_id :: nat
  rng :: 'r
  clock :: "nat \<Rightarrow> rat"
  clock_reads :: nat

text \<open>\<open>time.monotonic()\<close>: the next reading of the clock.\<close>

definition monotonic :: "'r world \<Rightarrow> rat \<times> 'r world" where
  "monotonic w = (clock w (clock_reads w), w\<lparr>clock_reads := Suc (clock_reads w)\<rparr>)"

record ('f, 'i) batch_state =
  seqs :: "nat list"
  cache :: "'f legacy_cache"
  attn_mask :: "'i option"
  next_tokens :: "'i option"

definition empty_state :: "('f, 'i) batch_state" where
  "empty_state = \<lparr>seqs = [], cache = [], attn_mask = None, next_tokens = None\<rparr>"

record ('f, 'i, 'b, 'd, 'r) engine =
  flib :: "('f, 'i, 'b, 'r) float_ops"
  ilib :: "('i, 'b) long_ops"
  clib :: "('f, 'd) cache_lib"
  forward :: "'i \<Rightarrow> 'i \<Rightarrow> 'i \<Rightarrow> ('f, 'd) past \<Rightarrow> exn + ('f, 'd) past \<times> 'f"
  forward_plain :: "'i \<Rightarrow> exn + 'f"
  tok_encode :: "string \<Rightarrow> int list"
  tok_decode :: "int list \<Rightarrow> string"
  eos_token_id :: int
  pad_token_id :: int
  context_limit :: int
  config :: settings

section \<open>Construction\<close>

text \<open>
  The part of \<open>__init__\<close> that computes: the context limit is the configured one capped by the
  network's window (\<open>n_positions\<close>, or \<open>max_position_embeddings\<close>, each possibly absent), and a
  tokenizer without a pad token pads with its end-of-sequence token.
\<close>

definition init_context :: "settings \<Rightarrow> int option \<Rightarrow> int option \<Rightarrow> int option \<Rightarrow> int" where
  "init_context S arg n_positions max_positions =
     (let mc = (case arg of None \<Rightarrow> max_context S | Some m \<Rightarrow> if m = 0 then max_context S else m);
          from_max = (case max_positions of None \<Rightarrow> mc | Some m \<Rightarrow> m);
          window = (case n_positions of None \<Rightarrow> from_max | Some n \<Rightarrow> if n = 0 then from_max else n)
      in min mc window)"

definition init_pad :: "int option \<Rightarrow> int \<Rightarrow> int" where
  "init_pad pad eos = (case pad of None \<Rightarrow> eos | Some p \<Rightarrow> p)"

section \<open>Tokenisation\<close>

definition encode :: "('f, 'i, 'b, 'd, 'r) engine \<Rightarrow> string \<Rightarrow> int list" where
  "encode e prompt =
     (let ids = tok_encode e prompt;
          ids = (if ids = [] then [eos_token_id e] else ids)
      in py_from (- (context_limit e - 1)) ids)"

definition decode :: "('f, 'i, 'b, 'd, 'r) engine \<Rightarrow> int list \<Rightarrow> string" where
  "decode e token_ids = tok_decode e token_ids"

definition make_sequence :: "('f, 'i, 'b, 'd, 'r) engine \<Rightarrow> string \<Rightarrow> sampling_params option \<Rightarrow>
    string \<Rightarrow> 'r world \<Rightarrow> nat \<times> 'r world" where
  "make_sequence e prompt ps rid w =
     (let sid = next_seq_id w;
          (t, w) = monotonic (w\<lparr>next_seq_id := Suc sid\<rparr>);
          s = \<lparr>prompt_ids = encode e prompt,
               params = clamp (config e) (case ps of None \<Rightarrow> default_params | Some p \<Rightarrow> p),
               request_id = rid, seq_id = sid, output_ids = [], finish_reason = None,
               arrived_at = t, first_token_at = None\<rparr>
      in (sid, w\<lparr>heap := (heap w)(sid := s)\<rparr>))"

section \<open>Emitting tokens\<close>

text \<open>The loop body of \<open>_emit\<close> for one row.\<close>

definition emit_row :: "('f, 'i, 'b, 'd, 'r) engine \<Rightarrow> rat \<Rightarrow> int \<Rightarrow> seq \<Rightarrow> seq" where
  "emit_row e now token s =
     (if finished s then s
      else
        let s = s\<lparr>output_ids := output_ids s @ [token]\<rparr>;
            s = (if first_token_at s = None then s\<lparr>first_token_at := Some now\<rparr> else s)
        in if token = eos_token_id e then s\<lparr>finish_reason := Some ''stop''\<rparr>
           else if max_tokens (params s) \<le> int (length (output_ids s))
             then s\<lparr>finish_reason := Some ''length''\<rparr>
           else if context_limit e \<le> int (total_length s)
             then s\<lparr>finish_reason := Some ''length''\<rparr>
           else s)"

fun emit_rows :: "('f, 'i, 'b, 'd, 'r) engine \<Rightarrow> rat \<Rightarrow> 'i \<Rightarrow> nat \<Rightarrow> nat list \<Rightarrow>
    (nat \<Rightarrow> seq) \<Rightarrow> (nat \<Rightarrow> seq)" where
  "emit_rows e now tokens r [] h = h"
| "emit_rows e now tokens r (i # is) h =
     emit_rows e now tokens (Suc r) is
       (h(i := emit_row e now (elem (ilib e) tokens [r]) (h i)))"

definition emit :: "('f, 'i, 'b, 'd, 'r) engine \<Rightarrow> ('f, 'i) batch_state \<Rightarrow> 'f \<Rightarrow> 'r world \<Rightarrow>
    exn + ('f, 'i) batch_state \<times> 'r world" where
  "emit e state logits w =
     try_bind (sample_batch (flib e) (ilib e) logits
                 (map (\<lambda>i. params (heap w i)) (seqs state)) (rng w))
       (\<lambda>(tokens, r).
          let (now, w) = monotonic (w\<lparr>rng := r\<rparr>)
          in Inr (state\<lparr>next_tokens := Some (unsqueeze_last (ilib e) tokens)\<rparr>,
                  w\<lparr>heap := emit_rows e now tokens 0 (seqs state) (heap w)\<rparr>))"

section \<open>Prefill and decode\<close>

definition prefill :: "('f, 'i, 'b, 'd, 'r) engine \<Rightarrow> nat list \<Rightarrow> 'r world \<Rightarrow>
    exn + ('f, 'i) batch_state \<times> 'r world" where
  "prefill e ss w =
     (if ss = [] then Inr (empty_state, w)
      else
        try_bind (left_pad_sequences (ilib e) (map (\<lambda>i. prompt_ids (heap w i)) ss) (pad_token_id e))
          (\<lambda>(input_ids, attn).
        try_bind (forward e input_ids attn (positions_from_mask (ilib e) attn) NoPast)
          (\<lambda>(past, logits).
        emit e \<lparr>seqs = ss, cache = from_cache (clib e) past, attn_mask = Some attn,
                next_tokens = None\<rparr>
          (last_position (flib e) logits) w)))"

definition decode_step :: "('f, 'i, 'b, 'd, 'r) engine \<Rightarrow> ('f, 'i) batch_state \<Rightarrow> 'r world \<Rightarrow>
    exn + ('f, 'i) batch_state \<times> 'r world" where
  "decode_step e state w =
     (if seqs state = [] then Inr (state, w)
      else case (attn_mask state, next_tokens state) of
        (Some m, Some nx) \<Rightarrow>
          let attn = cat (ilib e) [m, full (ilib e) [length (seqs state), 1] 1] 1;
              position_ids = sub_scalar (ilib e) (sum_keepdim (ilib e) attn) 1
          in try_bind (forward e nx attn position_ids (to_cache (clib e) (cache state)))
               (\<lambda>(past, logits).
             emit e (state\<lparr>cache := from_cache (clib e) past, attn_mask := Some attn\<rparr>)
               (last_position (flib e) logits) w)
      | (None, _) \<Rightarrow> Inl (TypeError ''expected Tensor as element 0 in argument 0'')
      | (_, None) \<Rightarrow> Inl (ValueError ''You have to specify either input_ids or inputs_embeds''))"

section \<open>Batch mutation\<close>

definition compact :: "('f, 'i, 'b, 'd, 'r) engine \<Rightarrow> ('f, 'i) batch_state \<Rightarrow> ('f, 'i) batch_state" where
  "compact e state =
     (if seqs state = [] then state
      else case attn_mask state of
        None \<Rightarrow> state
      | Some m \<Rightarrow>
          let lead = count_true (ilib e) (all_rows (ilib e) (eq_scalar (ilib e) (cumsum (ilib e) m) 0))
          in if lead = 0 then state
             else state\<lparr>attn_mask := Some (slice_from (ilib e) m 1 (int lead)),
                        cache := map (\<lambda>(k, v). (slice_from (flib e) k 2 (int lead),
                                                slice_from (flib e) v 2 (int lead))) (cache state)\<rparr>)"

text \<open>
  \<open>evict_finished\<close> reads the finish reasons twice, once for \<open>keep\<close> and once for \<open>done\<close>. It runs
  in a worker thread while the event loop may mark a sequence abandoned, so the two scans are
  given the heap each of them sees. \<open>evict_finished\<close> is the call with no write in between.
\<close>

definition evict_scan :: "('f, 'i, 'b, 'd, 'r) engine \<Rightarrow> ('f, 'i) batch_state \<Rightarrow> (nat \<Rightarrow> seq) \<Rightarrow>
    (nat \<Rightarrow> seq) \<Rightarrow> exn + ('f, 'i) batch_state \<times> nat list" where
  "evict_scan e state hk hg =
     (if seqs state = [] then Inr (state, [])
      else
        let keep = filter (\<lambda>i. \<not> finished (hk (seqs state ! i))) [0..<length (seqs state)];
            gone = filter (\<lambda>s. finished (hg s)) (seqs state)
        in if gone = [] then Inr (state, [])
           else if keep = [] then Inr (empty_state, gone)
           else case (attn_mask state, next_tokens state) of
             (Some m, Some nx) \<Rightarrow>
               Inr (compact e \<lparr>seqs = map (\<lambda>i. seqs state ! i) keep,
                               cache = select_rows (flib e) (cache state) keep,
                               attn_mask = Some (index_select (ilib e) m 0 keep),
                               next_tokens = Some (index_select (ilib e) nx 0 keep)\<rparr>, gone)
           | _ \<Rightarrow> Inl (TypeError ''NoneType object has no attribute index_select''))"

definition evict_finished :: "('f, 'i, 'b, 'd, 'r) engine \<Rightarrow> ('f, 'i) batch_state \<Rightarrow> 'r world \<Rightarrow>
    exn + ('f, 'i) batch_state \<times> nat list" where
  "evict_finished e state w = evict_scan e state (heap w) (heap w)"

definition pad_mask_left :: "('i, 'b) long_ops \<Rightarrow> 'i \<Rightarrow> nat \<Rightarrow> 'i" where
  "pad_mask_left I m width =
     (let pad = int width - int (shape I m ! 1)
      in if pad \<le> 0 then m else cat I [zeros I [shape I m ! 0, nat pad], m] 1)"

definition admit :: "('f, 'i, 'b, 'd, 'r) engine \<Rightarrow> ('f, 'i) batch_state \<Rightarrow> nat list \<Rightarrow> 'r world \<Rightarrow>
    exn + ('f, 'i) batch_state \<times> 'r world" where
  "admit e state newcomers w =
     (if newcomers = [] then Inr (state, w)
      else
        try_bind (prefill e newcomers w)
          (\<lambda>(fresh, w').
             if seqs state = [] then Inr (fresh, w')
             else case (attn_mask state, attn_mask fresh, next_tokens state, next_tokens fresh) of
               (Some m, Some m', Some nx, Some nx') \<Rightarrow>
                 let width = max (shape (ilib e) m ! 1) (shape (ilib e) m' ! 1)
                 in Inr (\<lparr>seqs = seqs state @ seqs fresh,
                         cache = concat_batch (flib e) (cache state) (cache fresh),
                         attn_mask = Some (cat (ilib e) [pad_mask_left (ilib e) m width,
                                                         pad_mask_left (ilib e) m' width] 0),
                         next_tokens = Some (cat (ilib e) [nx, nx'] 0)\<rparr>, w')
             | _ \<Rightarrow> Inl (TypeError ''NoneType object has no attribute shape'')))"

section \<open>Entry points\<close>

partial_function (option) decode_until_finished :: "('f, 'i, 'b, 'd, 'r) engine \<Rightarrow> nat \<Rightarrow>
    ('f, 'i) batch_state \<Rightarrow> 'r world \<Rightarrow> (exn + 'r world) option" where
  "decode_until_finished e sid state w =
     (if finished (heap w sid) then Some (Inr w)
      else case decode_step e state w of
        Inl ex \<Rightarrow> Some (Inl ex)
      | Inr r \<Rightarrow> decode_until_finished e sid (fst r) (snd r))"

text \<open>
  The caller's \<open>params\<close> object is overwritten (\<open>params.max_tokens = max_new_tokens\<close>); its new
  value is part of the result.
\<close>

definition generate_with_kv_cache :: "('f, 'i, 'b, 'd, 'r) engine \<Rightarrow> string \<Rightarrow> int \<Rightarrow>
    sampling_params option \<Rightarrow> 'r world \<Rightarrow> (exn + string \<times> sampling_params \<times> 'r world) option" where
  "generate_with_kv_cache e prompt n ps w =
     (let ps' = (case ps of None \<Rightarrow> default_params | Some p \<Rightarrow> p)\<lparr>max_tokens := n\<rparr>;
          (sid, w) = make_sequence e prompt (Some ps') '''' w
      in case prefill e [sid] w of
           Inl ex \<Rightarrow> Some (Inl ex)
         | Inr (state, w) \<Rightarrow>
             map_option (\<lambda>r. try_bind r (\<lambda>w. Inr (decode e (output_ids (heap w sid)), ps', w)))
               (decode_until_finished e sid state w))"

fun make_sequences :: "('f, 'i, 'b, 'd, 'r) engine \<Rightarrow> sampling_params \<Rightarrow> string list \<Rightarrow> 'r world \<Rightarrow>
    nat list \<times> 'r world" where
  "make_sequences e p [] w = ([], w)"
| "make_sequences e p (x # xs) w =
     (let (sid, w) = make_sequence e x (Some p) '''' w;
          (sids, w) = make_sequences e p xs w
      in (sid # sids, w))"

partial_function (option) batch_loop :: "('f, 'i, 'b, 'd, 'r) engine \<Rightarrow> ('f, 'i) batch_state \<Rightarrow>
    'r world \<Rightarrow> (exn + 'r world) option" where
  "batch_loop e state w =
     (if seqs state = [] then Some (Inr w)
      else case evict_finished e state w of
        Inl ex \<Rightarrow> Some (Inl ex)
      | Inr r \<Rightarrow>
          if seqs (fst r) = [] then Some (Inr w)
          else case decode_step e (fst r) w of
            Inl ex \<Rightarrow> Some (Inl ex)
          | Inr r' \<Rightarrow> batch_loop e (fst r') (snd r'))"

definition generate_batch :: "('f, 'i, 'b, 'd, 'r) engine \<Rightarrow> string list \<Rightarrow> int \<Rightarrow>
    sampling_params option \<Rightarrow> 'r world \<Rightarrow> (exn + string list \<times> 'r world) option" where
  "generate_batch e prompts n ps w =
     (let base = (case ps of None \<Rightarrow> default_params | Some p \<Rightarrow> p);
          p = \<lparr>max_tokens = n, temperature = temperature base, top_k = top_k base,
               top_p = top_p base\<rparr>;
          (sids, w) = make_sequences e p prompts w
      in case prefill e sids w of
           Inl ex \<Rightarrow> Some (Inl ex)
         | Inr (state, w) \<Rightarrow>
             map_option (\<lambda>r. try_bind r (\<lambda>w. Inr (map (\<lambda>i. decode e (output_ids (heap w i))) sids, w)))
               (batch_loop e state w))"

text \<open>The uncached baseline; \<open>generated\<close> is the accumulator of its \<open>for\<close> loop.\<close>

fun nocache_loop :: "('f, 'i, 'b, 'd, 'r) engine \<Rightarrow> int list \<Rightarrow> int list \<Rightarrow> nat \<Rightarrow> exn + int list" where
  "nocache_loop e ids generated 0 = Inr generated"
| "nocache_loop e ids generated (Suc n) =
     (let window = py_from (- context_limit e) (ids @ generated)
      in try_bind (forward_plain e (of_rows (ilib e) [window]))
           (\<lambda>logits.
              let token = elem (ilib e) (argmax (flib e) (last_position (flib e) logits)) [0];
                  generated = generated @ [token]
              in if token = eos_token_id e then Inr generated
                 else nocache_loop e ids generated n))"

definition generate_without_cache :: "('f, 'i, 'b, 'd, 'r) engine \<Rightarrow> string \<Rightarrow> int \<Rightarrow> exn + string" where
  "generate_without_cache e prompt n =
     try_bind (nocache_loop e (encode e prompt) [] (nat n)) (\<lambda>out. Inr (decode e out))"

record cache_statistics =
  stat_batch_size :: nat
  stat_cache_len :: nat
  stat_cache_bytes :: nat

definition cache_stats :: "('f, 'i, 'b, 'd, 'r) engine \<Rightarrow> ('f, 'i) batch_state \<Rightarrow> cache_statistics" where
  "cache_stats e state =
     \<lparr>stat_batch_size = length (seqs state),
      stat_cache_len = cache_length (flib e) (cache state),
      stat_cache_bytes = cache_bytes (flib e) (cache state)\<rparr>"

end
