(* ===== verification/Network.thy ===== *)
theory Network
  imports Engine
begin

text \<open>
  What the engine relies on about the network, and the reference its output is compared with.

  \<open>lm seen new\<close> is a causal language model over one sequence: given the cache entries of the
  positions already seen and the new tokens with their positions, it returns the entries of the
  new positions and the logits after the last one. The locale \<open>network\<close> states the documented
  contract of a call with a padded batch: row by row, the call does what \<open>lm\<close> does on the
  positions the attention mask leaves visible (so padding and the other rows do not matter), and
  feeding a sequence in two pieces through the cache is the same as feeding it at once.

  \<open>solo\<close> is the specification of generation: no batch, no cache, no padding, only the greedy
  choice after the whole text so far, and the stopping rules.
\<close>

type_synonym 'a lang_model = "'a list \<Rightarrow> (int \<times> int) list \<Rightarrow> 'a list \<times> pyfloat list"

definition positioned :: "int list \<Rightarrow> (int \<times> int) list" where
  "positioned ids = zip ids (map int [0..<length ids])"

lemma length_positioned [simp]: "length (positioned ids) = length ids"
  by (simp add: positioned_def)

lemma positioned_snoc: "positioned (ids @ [t]) = positioned ids @ [(t, int (length ids))]"
  by (simp add: positioned_def)

locale network =
  float_lib "flib e" "ilib e" amax fdiv sortd order smax csum fsub
  for e :: "('f, 'i, 'b, 'd, 'r) engine"
    and amax fdiv sortd order smax csum fsub +
  fixes dims :: "(nat \<times> nat) list" and vocab :: nat and lm :: "pyfloat entry lang_model"
  assumes dims: "dims \<noteq> []" and vocab: "0 < vocab"
    and cache_objects: "has_dynamic_cache (clib e) \<Longrightarrow>
      to_legacy_cache (clib e) (from_legacy_cache (clib e) c) = c"
    and forward_shape: "forward e ids attn pos past = Inr (past', lg) \<Longrightarrow>
      shape (ilib e) ids = [b, n] \<Longrightarrow> shape (ilib e) attn = [b, l + n] \<Longrightarrow>
      shape (ilib e) pos = [b, n] \<Longrightarrow> 0 < b \<Longrightarrow> 0 < n \<Longrightarrow>
      l = 0 \<and> past = NoPast \<or> cache_shape (flib e) dims b l (from_cache (clib e) past) \<Longrightarrow>
      cache_shape (flib e) dims b (l + n) (from_cache (clib e) past') \<and>
      shape (flib e) lg = [b, n, vocab]"
    and forward_rows: "forward e ids attn pos past = Inr (past', lg) \<Longrightarrow>
      shape (ilib e) ids = [b, n] \<Longrightarrow> shape (ilib e) attn = [b, l + n] \<Longrightarrow>
      shape (ilib e) pos = [b, n] \<Longrightarrow> 0 < b \<Longrightarrow> 0 < n \<Longrightarrow>
      l = 0 \<and> past = NoPast \<or> cache_shape (flib e) dims b l (from_cache (clib e) past) \<Longrightarrow>
      i < b \<Longrightarrow> elem (ilib e) attn [i, l + n - 1] = 1 \<Longrightarrow>
      seen = sel (take l (row (ilib e) attn i)) (crow (flib e) (from_cache (clib e) past) i) \<Longrightarrow>
      new = sel (drop l (row (ilib e) attn i)) (zip (row (ilib e) ids i) (row (ilib e) pos i)) \<Longrightarrow>
      sel (row (ilib e) attn i) (crow (flib e) (from_cache (clib e) past') i)
        = seen @ fst (lm seen new) \<and>
      tabulate vocab (\<lambda>j. elem (flib e) lg [i, n - 1, j]) = snd (lm seen new)"
    and forward_plain: "forward_plain e ids = Inr lg \<Longrightarrow> shape (ilib e) ids = [1, n] \<Longrightarrow> 0 < n \<Longrightarrow>
      shape (flib e) lg = [1, n, vocab] \<and>
      tabulate vocab (\<lambda>j. elem (flib e) lg [0, n - 1, j])
        = snd (lm [] (positioned (row (ilib e) ids 0)))"
    and lm_entries: "fst (lm s (xs @ ys)) = fst (lm s xs) @ fst (lm (s @ fst (lm s xs)) ys)"
    and lm_logits: "ys \<noteq> [] \<Longrightarrow> snd (lm s (xs @ ys)) = snd (lm (s @ fst (lm s xs)) ys)"

section \<open>The reference\<close>

definition next_token :: "(pyfloat list \<Rightarrow> nat) \<Rightarrow> 'a lang_model \<Rightarrow> int list \<Rightarrow> int" where
  "next_token am lm ids = int (am (snd (lm [] (positioned ids))))"

text \<open>The stopping rules, on the whole output so far.\<close>

definition verdict :: "int \<Rightarrow> int \<Rightarrow> int \<Rightarrow> int list \<Rightarrow> int list \<Rightarrow> string option" where
  "verdict eos limit maxt prompt outs =
     (if outs = [] then None
      else if last outs = eos then Some ''stop''
      else if maxt \<le> int (length outs) then Some ''length''
      else if limit \<le> int (length prompt + length outs) then Some ''length''
      else None)"

fun solo_run :: "(int list \<Rightarrow> int) \<Rightarrow> (int list \<Rightarrow> string option) \<Rightarrow> int list \<Rightarrow> nat \<Rightarrow> int list \<Rightarrow>
    int list \<times> string" where
  "solo_run nxt stops prompt 0 outs = (outs, ''length'')"
| "solo_run nxt stops prompt (Suc n) outs =
     (let outs = outs @ [nxt (prompt @ outs)]
      in case stops outs of
           Some reason \<Rightarrow> (outs, reason)
         | None \<Rightarrow> solo_run nxt stops prompt n outs)"

definition solo :: "(pyfloat list \<Rightarrow> nat) \<Rightarrow> 'a lang_model \<Rightarrow> int \<Rightarrow> int \<Rightarrow> int \<Rightarrow> int list \<Rightarrow>
    int list \<times> string" where
  "solo am lm eos limit maxt prompt =
     solo_run (next_token am lm) (verdict eos limit maxt prompt) prompt (nat maxt) []"

text \<open>Any output that follows the greedy choice and stops where the rules first say so is the reference's.\<close>

lemma solo_run_unique:
  assumes greedy: "\<forall>k<length outs. outs ! k = nxt (prompt @ take k outs)"
    and running: "\<forall>k. 0 < k \<and> k < length outs \<longrightarrow> stops (take k outs) = None"
    and stop: "stops outs = Some r" "outs \<noteq> []" and fuel: "length outs \<le> n"
  shows "solo_run nxt stops prompt n [] = (outs, r)"
proof -
  have "solo_run nxt stops prompt m (take k outs) = (outs, r)"
    if "k < length outs" "length outs - k \<le> m" for k m
    using that
  proof (induction m arbitrary: k)
    case 0
    then show ?case by simp
  next
    case (Suc m)
    have step: "take k outs @ [nxt (prompt @ take k outs)] = take (Suc k) outs"
      using Suc.prems greedy by (simp add: take_Suc_conv_app_nth)
    show ?case
    proof (cases "Suc k = length outs")
      case True
      then show ?thesis using step stop by (simp add: Let_def)
    next
      case False
      then have "stops (take (Suc k) outs) = None"
        using Suc.prems running by simp
      then show ?thesis
        using step Suc.IH [of "Suc k"] Suc.prems False by (simp add: Let_def)
    qed
  qed
  from this [of 0 n] show ?thesis using stop(2) fuel by simp
qed

text \<open>The reference is never cut short by its counter: a stopping rule ends it.\<close>

lemma solo_run_stops:
  assumes "0 < n" and "\<forall>outs. length outs = length os + n \<longrightarrow> stops outs \<noteq> None"
  shows "\<exists>outs r. solo_run nxt stops prompt n os = (outs, r) \<and> stops outs = Some r \<and>
    length os < length outs \<and> length outs \<le> length os + n"
  using assms
proof (induction n arbitrary: os)
  case 0
  then show ?case by simp
next
  case (Suc n)
  let ?os = "os @ [nxt (prompt @ os)]"
  show ?case
  proof (cases "stops ?os")
    case (Some r)
    then show ?thesis by (simp add: Let_def)
  next
    case None
    then have "0 < n" using Suc.prems(2) [rule_format, of ?os] by (cases n) auto
    moreover have "\<forall>outs. length outs = length ?os + n \<longrightarrow> stops outs \<noteq> None"
      using Suc.prems(2) by simp
    ultimately obtain outs r where IH: "solo_run nxt stops prompt n ?os = (outs, r)"
      "stops outs = Some r" "length ?os < length outs" "length outs \<le> length ?os + n"
      using Suc.IH [of ?os] by blast
    then show ?thesis using None by (simp add: Let_def)
  qed
qed

lemma solo_stops:
  assumes "1 \<le> maxt"
  obtains outs r where "solo am lm eos limit maxt prompt = (outs, r)"
    "verdict eos limit maxt prompt outs = Some r" "1 \<le> length outs" "int (length outs) \<le> maxt"
proof -
  have "\<exists>outs r. solo am lm eos limit maxt prompt = (outs, r) \<and>
      verdict eos limit maxt prompt outs = Some r \<and>
      length ([]::int list) < length outs \<and> length outs \<le> length ([]::int list) + nat maxt"
    unfolding solo_def
    by (rule solo_run_stops) (use assms in \<open>auto simp: verdict_def\<close>)
  then show ?thesis using that assms by force
qed

section \<open>Sequences on track\<close>

definition greedy :: "seq \<Rightarrow> bool" where
  "greedy s = fle (temperature (params s)) (Fin 0)"

definition seq_verdict :: "('f, 'i, 'b, 'd, 'r) engine \<Rightarrow> seq \<Rightarrow> int list \<Rightarrow> string option" where
  "seq_verdict e s outs =
     verdict (eos_token_id e) (context_limit e) (max_tokens (params s)) (prompt_ids s) outs"

text \<open>A sequence as \<open>make_sequence\<close> builds it: a prompt with room for a token, a positive budget.\<close>

definition seq_ok :: "('f, 'i, 'b, 'd, 'r) engine \<Rightarrow> seq \<Rightarrow> bool" where
  "seq_ok e s \<longleftrightarrow> prompt_ids s \<noteq> [] \<and> 1 \<le> max_tokens (params s) \<and>
     int (length (prompt_ids s)) < context_limit e"

text \<open>
  The output so far is what the reference produces, no stopping rule was passed over, and a
  finish reason is the rules' verdict unless the caller abandoned the sequence.
\<close>

definition tracks :: "('f, 'i, 'b, 'd, 'r) engine \<Rightarrow> (pyfloat list \<Rightarrow> nat) \<Rightarrow> 'a lang_model \<Rightarrow>
    seq \<Rightarrow> bool" where
  "tracks e am lm s \<longleftrightarrow>
     (greedy s \<longrightarrow> (\<forall>k<length (output_ids s).
        output_ids s ! k = next_token am lm (prompt_ids s @ take k (output_ids s)))) \<and>
     (\<forall>k. 0 < k \<and> k < length (output_ids s) \<longrightarrow>
        seq_verdict e s (take k (output_ids s)) = None) \<and>
     (finish_reason s = None \<longrightarrow> seq_verdict e s (output_ids s) = None) \<and>
     (\<forall>r. finish_reason s = Some r \<longrightarrow>
        r = ''abandoned'' \<or> seq_verdict e s (output_ids s) = Some r)"

lemma seq_verdict_not_abandoned: "seq_verdict e s outs \<noteq> Some ''abandoned''"
  by (simp add: seq_verdict_def verdict_def)

lemma emit_row_fixed [simp]:
  "prompt_ids (emit_row e now t s) = prompt_ids s"
  "params (emit_row e now t s) = params s"
  "seq_id (emit_row e now t s) = seq_id s"
  "request_id (emit_row e now t s) = request_id s"
  "arrived_at (emit_row e now t s) = arrived_at s"
  "greedy (emit_row e now t s) = greedy s"
  "seq_verdict e (emit_row e now t s) = seq_verdict e s"
  by (auto simp: emit_row_def Let_def greedy_def seq_verdict_def)

lemma emit_row_finished: "finished s \<Longrightarrow> emit_row e now t s = s"
  by (simp add: emit_row_def)

lemma emit_row_output: "\<not> finished s \<Longrightarrow> output_ids (emit_row e now t s) = output_ids s @ [t]"
  by (auto simp: emit_row_def Let_def)

lemma emit_row_reason:
  "\<not> finished s \<Longrightarrow> finish_reason (emit_row e now t s) = seq_verdict e s (output_ids s @ [t])"
  by (auto simp: emit_row_def Let_def finished_def seq_verdict_def verdict_def total_length_def)

lemma emit_row_seq_ok [simp]: "seq_ok e (emit_row e now t s) = seq_ok e s"
  by (simp add: seq_ok_def)

lemma emit_row_tracks:
  assumes tr: "tracks e am lm s"
    and t: "\<not> finished s \<Longrightarrow> greedy s \<Longrightarrow> t = next_token am lm (prompt_ids s @ output_ids s)"
  shows "tracks e am lm (emit_row e now t s)"
proof (cases "finished s")
  case True
  then show ?thesis using tr by (simp add: emit_row_finished)
next
  case False
  note out = emit_row_output [OF False, of e now t]
  have none: "seq_verdict e s (output_ids s) = None"
    using tr False by (simp add: tracks_def finished_def)
  show ?thesis
    using tr t [OF False] False none
    unfolding tracks_def out emit_row_fixed emit_row_reason [OF False]
    by (auto simp: nth_append less_Suc_eq)
qed

text \<open>Abandoning a sequence keeps it on track.\<close>

lemma abandon_tracks: "tracks e am lm s \<Longrightarrow> tracks e am lm (s\<lparr>finish_reason := Some ''abandoned''\<rparr>)"
  by (simp add: tracks_def greedy_def seq_verdict_def)

text \<open>A finished greedy sequence that was not abandoned holds the reference's output.\<close>

lemma tracks_length:
  assumes tr: "tracks e am lm s" and ok: "seq_ok e s"
  shows "int (length (output_ids s)) \<le> max_tokens (params s)"
proof (cases "length (output_ids s) \<le> 1")
  case True
  then show ?thesis using ok by (simp add: seq_ok_def)
next
  case False
  let ?k = "length (output_ids s) - 1"
  have "seq_verdict e s (take ?k (output_ids s)) = None"
    using tr False by (simp add: tracks_def)
  moreover have "length (take ?k (output_ids s)) = ?k" by simp
  ultimately show ?thesis
    using False by (auto simp: seq_verdict_def verdict_def split: if_splits)
qed

lemma tracks_solo:
  assumes tr: "tracks e am lm s" and g: "greedy s" and ok: "seq_ok e s"
    and f: "finish_reason s = Some r" "r \<noteq> ''abandoned''"
  shows "solo am lm (eos_token_id e) (context_limit e) (max_tokens (params s)) (prompt_ids s)
    = (output_ids s, r)"
proof -
  have stop: "seq_verdict e s (output_ids s) = Some r" using tr f by (simp add: tracks_def)
  then have ne: "output_ids s \<noteq> []" by (auto simp: seq_verdict_def verdict_def)
  have "solo_run (next_token am lm) (seq_verdict e s) (prompt_ids s)
      (nat (max_tokens (params s))) [] = (output_ids s, r)"
    by (rule solo_run_unique)
      (use tr g stop ne tracks_length [OF tr ok] in \<open>auto simp: tracks_def\<close>)
  then show ?thesis by (simp add: solo_def seq_verdict_def [abs_def])
qed

end
