(* ===== verification/EngineInv.thy ===== *)
theory EngineInv
  imports Network
begin

text \<open>
  The batch invariant and its preservation by every engine operation.

  \<open>batch_inv\<close> is the invariant \<open>BatchState\<close> documents (sequences, mask, cache and next tokens agree
  row by row), strengthened until it is inductive: every mask row is a run of padding followed by
  the columns the row has consumed, and for a sequence that is still running those columns hold
  exactly the cache entries the network computes for the text before its last token, which is the
  token waiting in \<open>next_tokens\<close>. It also says that the batch is tight: some row has no padding.
\<close>

section \<open>The invariant\<close>

definition row_inv :: "('f, 'i, 'b, 'd, 'r) engine \<Rightarrow> pyfloat entry lang_model \<Rightarrow> (nat \<Rightarrow> seq) \<Rightarrow>
    ('f, 'i) batch_state \<Rightarrow> 'i \<Rightarrow> 'i \<Rightarrow> nat \<Rightarrow> nat \<Rightarrow> nat \<Rightarrow> bool" where
  "row_inv e lm h state m nx w q i \<longleftrightarrow>
     1 \<le> q \<and> q \<le> w \<and> row (ilib e) m i = pad_mask w q \<and>
     (let s = h (seqs state ! i); toks = prompt_ids s @ output_ids s
      in \<not> finished s \<longrightarrow> output_ids s \<noteq> [] \<and> Suc q = length toks \<and>
           drop (w - q) (crow (flib e) (cache state) i) = fst (lm [] (positioned (butlast toks))) \<and>
           elem (ilib e) nx [i, 0] = last toks)"

definition batch_inv :: "('f, 'i, 'b, 'd, 'r) engine \<Rightarrow> (nat \<times> nat) list \<Rightarrow> pyfloat entry lang_model \<Rightarrow>
    (nat \<Rightarrow> seq) \<Rightarrow> ('f, 'i) batch_state \<Rightarrow> bool" where
  "batch_inv e dims lm h state \<longleftrightarrow>
     (if seqs state = [] then state = empty_state
      else distinct (seqs state) \<and>
        (\<exists>m nx w qs. attn_mask state = Some m \<and> next_tokens state = Some nx \<and>
           shape (ilib e) m = [length (seqs state), w] \<and>
           shape (ilib e) nx = [length (seqs state), 1] \<and>
           cache_shape (flib e) dims (length (seqs state)) w (cache state) \<and>
           length qs = length (seqs state) \<and>
           (\<forall>i<length (seqs state). row_inv e lm h state m nx w (qs ! i) i) \<and>
           w \<in> set qs))"

lemma seqs_empty_state [simp]: "seqs empty_state = []"
  by (simp add: empty_state_def)

lemma batch_inv_empty [simp]: "batch_inv e dims lm h empty_state"
  by (simp add: batch_inv_def empty_state_def)

lemma batch_invI:
  assumes "seqs state \<noteq> []" "distinct (seqs state)" "attn_mask state = Some m"
    "next_tokens state = Some nx" "shape (ilib e) m = [length (seqs state), w]"
    "shape (ilib e) nx = [length (seqs state), 1]"
    "cache_shape (flib e) dims (length (seqs state)) w (cache state)"
    "length qs = length (seqs state)"
    "\<And>i. i < length (seqs state) \<Longrightarrow> row_inv e lm h state m nx w (qs ! i) i" "w \<in> set qs"
  shows "batch_inv e dims lm h state"
  using assms unfolding batch_inv_def by auto

lemma batch_invE:
  assumes "batch_inv e dims lm h state" "seqs state \<noteq> []"
  obtains m nx w qs where "distinct (seqs state)" "attn_mask state = Some m"
    "next_tokens state = Some nx" "shape (ilib e) m = [length (seqs state), w]"
    "shape (ilib e) nx = [length (seqs state), 1]"
    "cache_shape (flib e) dims (length (seqs state)) w (cache state)"
    "length qs = length (seqs state)"
    "\<forall>i<length (seqs state). row_inv e lm h state m nx w (qs ! i) i" "w \<in> set qs"
  using assms unfolding batch_inv_def by auto

text \<open>The invariant reads the heap only at the batch's own sequences.\<close>

lemma row_inv_heap:
  "h' (seqs state ! i) = h (seqs state ! i) \<Longrightarrow>
    row_inv e lm h' state m nx w q i = row_inv e lm h state m nx w q i"
  by (simp add: row_inv_def)

text \<open>A sequence that becomes finished only loses obligations.\<close>

lemma row_inv_finish:
  "row_inv e lm h state m nx w q i \<Longrightarrow> finished (h' (seqs state ! i)) \<or>
    h' (seqs state ! i) = h (seqs state ! i) \<Longrightarrow> row_inv e lm h' state m nx w q i"
  by (auto simp: row_inv_def Let_def)

lemma batch_inv_finish:
  assumes "batch_inv e dims lm h state"
    and "\<And>s. s \<in> set (seqs state) \<Longrightarrow> finished (h' s) \<or> h' s = h s"
  shows "batch_inv e dims lm h' state"
proof (cases "seqs state = []")
  case True
  then show ?thesis using assms by (simp add: batch_inv_def)
next
  case False
  from assms(1) False show ?thesis
  proof (rule batch_invE)
    fix m nx w qs
    assume "distinct (seqs state)" "attn_mask state = Some m"
      "next_tokens state = Some nx" "shape (ilib e) m = [length (seqs state), w]"
      "shape (ilib e) nx = [length (seqs state), 1]"
      "cache_shape (flib e) dims (length (seqs state)) w (cache state)"
      "length qs = length (seqs state)"
      "\<forall>i<length (seqs state). row_inv e lm h state m nx w (qs ! i) i" "w \<in> set qs"
    then show ?thesis
      using False by (intro batch_invI [of state m nx e w dims qs]) (auto intro: row_inv_finish [OF _ assms(2)])
  qed
qed

section \<open>Emission\<close>

lemma emit_rows_other: "j \<notin> set is \<Longrightarrow> emit_rows e now tokens r is h j = h j"
  by (induction "is" arbitrary: r h) auto

lemma emit_rows_at:
  "distinct is \<Longrightarrow> k < length is \<Longrightarrow>
    emit_rows e now tokens r is h (is ! k) = emit_row e now (elem (ilib e) tokens [r + k]) (h (is ! k))"
proof (induction "is" arbitrary: r h k)
  case Nil
  then show ?case by simp
next
  case (Cons a xs)
  show ?case
  proof (cases k)
    case 0
    then show ?thesis using Cons.prems by (simp add: emit_rows_other)
  next
    case (Suc k')
    then have "xs ! k' \<noteq> a" using Cons.prems by auto
    then show ?thesis using Suc Cons by simp
  qed
qed

text \<open>
  A forward pass has filled the cache: row \<open>i\<close> has seen the whole text \<open>toks\<close> of its sequence, and
  the logits are the network's after it.
\<close>

definition row_ready :: "('f, 'i, 'b, 'd, 'r) engine \<Rightarrow> pyfloat entry lang_model \<Rightarrow> (nat \<Rightarrow> seq) \<Rightarrow>
    ('f, 'i) batch_state \<Rightarrow> 'i \<Rightarrow> 'f \<Rightarrow> nat \<Rightarrow> nat \<Rightarrow> nat \<Rightarrow> bool" where
  "row_ready e lm h state m logits w q i \<longleftrightarrow>
     1 \<le> q \<and> q \<le> w \<and> row (ilib e) m i = pad_mask w q \<and>
     (let s = h (seqs state ! i); toks = prompt_ids s @ output_ids s
      in \<not> finished s \<longrightarrow> q = length toks \<and>
           drop (w - q) (crow (flib e) (cache state) i) = fst (lm [] (positioned toks)) \<and>
           row (flib e) logits i = snd (lm [] (positioned toks)))"

text \<open>One emission: the sequences of \<open>S\<close> take one step each, the others are untouched.\<close>

definition advanced :: "('f, 'i, 'b, 'd, 'r) engine \<Rightarrow> (pyfloat list \<Rightarrow> nat) \<Rightarrow> 'a lang_model \<Rightarrow>
    nat set \<Rightarrow> (nat \<Rightarrow> seq) \<Rightarrow> (nat \<Rightarrow> seq) \<Rightarrow> bool" where
  "advanced e am lm S h h' \<longleftrightarrow>
     (\<forall>j. j \<notin> S \<longrightarrow> h' j = h j) \<and>
     (\<forall>j\<in>S. \<exists>now t. h' j = emit_row e now t (h j) \<and>
        (\<not> finished (h j) \<longrightarrow> greedy (h j) \<longrightarrow>
           t = next_token am lm (prompt_ids (h j) @ output_ids (h j))))"

lemma advanced_tracks:
  "advanced e am lm S h h' \<Longrightarrow> tracks e am lm (h j) \<Longrightarrow> tracks e am lm (h' j)"
  unfolding advanced_def by (metis emit_row_tracks)

lemma advanced_fixed:
  assumes "advanced e am lm S h h'"
  shows "prompt_ids (h' j) = prompt_ids (h j)" "params (h' j) = params (h j)"
    "seq_id (h' j) = seq_id (h j)" "request_id (h' j) = request_id (h j)"
    "arrived_at (h' j) = arrived_at (h j)" "seq_ok e (h' j) = seq_ok e (h j)"
  using assms unfolding advanced_def by (metis emit_row_fixed emit_row_seq_ok)+

lemma advanced_finished: "advanced e am lm S h h' \<Longrightarrow> finished (h j) \<Longrightarrow> h' j = h j"
  unfolding advanced_def by (metis emit_row_finished)

lemma advanced_output:
  "advanced e am lm S h h' \<Longrightarrow> j \<in> S \<Longrightarrow> \<not> finished (h j) \<Longrightarrow>
    \<exists>t. output_ids (h' j) = output_ids (h j) @ [t]"
  unfolding advanced_def by (metis emit_row_output)

context network begin

lemma emit_inv:
  assumes emit: "emit e state logits w = Inr (state', w')"
    and ne: "seqs state \<noteq> []" and dist: "distinct (seqs state)"
    and m: "attn_mask state = Some m" "shape (ilib e) m = [length (seqs state), width]"
    and c: "cache_shape (flib e) dims (length (seqs state)) width (cache state)"
    and lg: "shape (flib e) logits = [length (seqs state), vocab]"
    and qs: "length qs = length (seqs state)" "width \<in> set qs"
    and ready: "\<And>i. i < length (seqs state) \<Longrightarrow>
      row_ready e lm (heap w) state m logits width (qs ! i) i"
  shows "batch_inv e dims lm (heap w') state'" and "seqs state' = seqs state"
    and "advanced e amax lm (set (seqs state)) (heap w) (heap w')"
    and "next_seq_id w' = next_seq_id w" and "clock w' = clock w"
proof -
  let ?ps = "map (\<lambda>i. params (heap w i)) (seqs state)" and ?n = "length (seqs state)"
  obtain tokens r where sb: "sample_batch (flib e) (ilib e) logits ?ps (rng w) = Inr (tokens, r)"
    using emit by (auto simp: emit_def try_bind_Inr_iff)
  define now where "now = clock w (clock_reads w)"
  define nx where "nx = unsqueeze_last (ilib e) tokens"
  have st': "state' = state\<lparr>next_tokens := Some nx\<rparr>"
    and w': "heap w' = emit_rows e now tokens 0 (seqs state) (heap w)"
      "next_seq_id w' = next_seq_id w" "clock w' = clock w"
    using emit sb by (auto simp: emit_def monotonic_def now_def nx_def)
  have tok: "shape (ilib e) tokens = [?n]"
    "sampled_ok amax (temperature (params (heap w (seqs state ! i)))) (row (flib e) logits i)
       (elem (ilib e) tokens [i])" if "i < ?n" for i
    using sample_batch_rows [of logits ?ps vocab "rng w" tokens r] sb lg ne vocab that by auto
  have tsh: "shape (ilib e) tokens = [?n]" using tok(1) [of 0] ne by simp
  have nxsh: "shape (ilib e) nx = [?n, 1]" "\<And>i. i < ?n \<Longrightarrow> elem (ilib e) nx [i, 0] = elem (ilib e) tokens [i]"
    unfolding nx_def using I.shape_unsqueeze_last [OF tsh] I.elem_unsqueeze_last [OF tsh] by auto
  have row': "heap w' (seqs state ! i) = emit_row e now (elem (ilib e) tokens [i]) (heap w (seqs state ! i))"
    if "i < ?n" for i
    unfolding w'(1) using emit_rows_at [OF dist that, of e now tokens 0] by simp
  have choice: "elem (ilib e) tokens [i] =
      next_token amax lm (prompt_ids s @ output_ids s)"
    if "i < ?n" "s = heap w (seqs state ! i)" "\<not> finished s" "greedy s" for i s
    using tok(2) [OF that(1)] ready [OF that(1)] that(2-)
    by (auto simp: sampled_ok_def greedy_def next_token_def row_ready_def Let_def)
  show "batch_inv e dims lm (heap w') state'"
  proof (rule batch_invI)
    fix i assume "i < length (seqs state')"
    then have i: "i < ?n" by (simp add: st')
    let ?s = "heap w (seqs state ! i)"
    show "row_inv e lm (heap w') state' m nx width (qs ! i) i"
    proof (cases "finished ?s")
      case True
      then show ?thesis
        using ready [OF i] row' [OF i] by (simp add: row_inv_def row_ready_def st' emit_row_finished)
    next
      case False
      then show ?thesis
        using ready [OF i] row' [OF i] nxsh(2) [OF i]
        by (auto simp: row_inv_def row_ready_def st' emit_row_output [OF False] butlast_append Let_def)
    qed
  qed (use ne dist m c nxsh qs in \<open>simp_all add: st'\<close>)
  show "seqs state' = seqs state" by (simp add: st')
  have "\<exists>now t. heap w' j = emit_row e now t (heap w j) \<and>
      (\<not> finished (heap w j) \<longrightarrow> greedy (heap w j) \<longrightarrow>
         t = next_token amax lm (prompt_ids (heap w j) @ output_ids (heap w j)))"
    if j: "j \<in> set (seqs state)" for j
  proof -
    obtain i where i: "i < ?n" "j = seqs state ! i" using j by (auto simp: in_set_conv_nth)
    show ?thesis
      using row' [OF i(1)] choice [OF i(1)] i(2) by blast
  qed
  then show "advanced e amax lm (set (seqs state)) (heap w) (heap w')"
    by (simp add: advanced_def w'(1) emit_rows_other)
  show "next_seq_id w' = next_seq_id w" "clock w' = clock w" by (rule w')+
qed

end

section \<open>Prefill\<close>

lemma zip_padded: "length xs = length ys \<Longrightarrow>
    drop (w - length xs) (zip (padded a w xs) (padded b w ys)) = zip xs ys"
  by (simp add: padded_def drop_zip)

lemma length_padded: "length xs \<le> w \<Longrightarrow> length (padded a w xs) = w"
  by (simp add: padded_def)

context network begin

lemma last_position_row:
  assumes "shape (flib e) lg = [b, n, vocab]" "0 < n"
  shows "shape (flib e) (last_position (flib e) lg) = [b, vocab]"
    and "i < b \<Longrightarrow> row (flib e) (last_position (flib e) lg) i
      = tabulate vocab (\<lambda>j. elem (flib e) lg [i, n - 1, j])"
  using last_position [OF assms] by (simp_all add: row_def)

lemma prefill_inv:
  assumes pre: "prefill e ss w = Inr (state', w')"
    and ss: "ss \<noteq> []" "distinct ss"
    and fresh: "\<And>j. j \<in> set ss \<Longrightarrow> prompt_ids (heap w j) \<noteq> [] \<and> output_ids (heap w j) = []"
  shows "batch_inv e dims lm (heap w') state'" and "seqs state' = ss"
    and "advanced e amax lm (set ss) (heap w) (heap w')"
    and "next_seq_id w' = next_seq_id w" and "clock w' = clock w"
proof -
  let ?F = "flib e" and ?I = "ilib e"
  let ?prompts = "map (\<lambda>i. prompt_ids (heap w i)) ss" and ?n = "length ss"
  define width where "width = Max (set (map length ?prompts))"
  obtain ids attn where lp: "left_pad_sequences ?I ?prompts (pad_token_id e) = Inr (ids, attn)"
    and sh: "shape ?I ids = [?n, width]" "shape ?I attn = [?n, width]"
    and ids: "\<forall>i<?n. row ?I ids i = padded (pad_token_id e) width (?prompts ! i)"
    and attn: "\<forall>i<?n. row ?I attn i = pad_mask width (length (?prompts ! i))"
    using I.left_pad_sequences_rows [of ?prompts width "pad_token_id e"] ss(1)
    by (auto simp: width_def)
  have len: "length (?prompts ! i) \<le> width \<and> 1 \<le> length (?prompts ! i)" if "i < ?n" for i
  proof -
    have "?prompts ! i \<in> set ?prompts" using that by (intro nth_mem) simp
    moreover have "?prompts ! i \<noteq> []" using fresh [of "ss ! i"] that by simp
    ultimately show ?thesis by (auto simp: width_def Suc_le_eq)
  qed
  have width: "0 < width" using len [of 0] ss(1) by auto
  define pos where "pos = positions_from_mask ?I attn"
  have possh: "shape ?I pos = [?n, width]"
    unfolding pos_def by (rule I.positions_from_mask_rows(1) [OF sh(2)])
  have posrow: "row ?I pos i = padded 0 width (map int [0..<length (?prompts ! i)])" if "i < ?n" for i
    unfolding pos_def
    using I.positions_from_mask_rows(2) [OF sh(2) that, of "length (?prompts ! i)"] attn len that by simp
  obtain past lg where fw: "forward e ids attn pos NoPast = Inr (past, lg)"
    and em: "emit e \<lparr>seqs = ss, cache = from_cache (clib e) past, attn_mask = Some attn,
        next_tokens = None\<rparr> (last_position ?F lg) w = Inr (state', w')"
    using pre ss(1) lp by (auto simp: prefill_def try_bind_Inr_iff pos_def)
  have attnsh: "shape ?I attn = [?n, 0 + width]" using sh(2) by simp
  have n: "0 < ?n" using ss(1) by simp
  note fs = forward_shape [OF fw sh(1) attnsh possh n width disjI1 [OF conjI [OF refl refl]]]
  have c: "cache_shape ?F dims ?n width (from_cache (clib e) past)"
    and lgsh: "shape ?F lg = [?n, width, vocab]" using fs by auto
  have ready: "row_ready e lm (heap w) \<lparr>seqs = ss, cache = from_cache (clib e) past,
      attn_mask = Some attn, next_tokens = None\<rparr> attn (last_position ?F lg) width
      (map length ?prompts ! i) i" if i: "i < ?n" for i
  proof -
    let ?p = "?prompts ! i"
    have q: "1 \<le> length ?p" "length ?p \<le> width" using len [OF i] by auto
    have am: "row ?I attn i = pad_mask width (length ?p)" using attn i by simp
    have "elem ?I attn [i, 0 + width - 1] = row ?I attn i ! (width - 1)"
      using sh(2) width by (simp add: nth_row)
    also have "\<dots> = 1" unfolding am using q by (subst nth_pad_mask) auto
    finally have one: "elem ?I attn [i, 0 + width - 1] = 1" .
    have new: "sel (drop 0 (row ?I attn i)) (zip (row ?I ids i) (row ?I pos i)) = positioned ?p"
      using am ids i q posrow [OF i] length_padded [of ?p width] zip_padded [of ?p "map int [0..<length ?p]" width]
      by (simp add: sel_pad_mask length_padded positioned_def)
    have seen: "sel (take 0 (row ?I attn i)) (crow ?F (from_cache (clib e) NoPast) i) = []" by simp
    note fr = forward_rows [OF fw sh(1) attnsh possh n width disjI1 [OF conjI [OF refl refl]] i one
        refl refl, unfolded new seen]
    have "sel (row ?I attn i) (crow ?F (from_cache (clib e) past) i)
        = drop (width - length ?p) (crow ?F (from_cache (clib e) past) i)"
      unfolding am using q c dims by (intro sel_pad_mask) auto
    then show ?thesis
      using fr q am i fresh [of "ss ! i"] last_position_row(2) [OF lgsh width i]
      by (simp add: row_ready_def Let_def)
  qed
  have wq: "width \<in> set (map length ?prompts)"
    unfolding width_def using ss(1) by (intro Max_in) auto
  note R = emit_inv [OF em _ _ _ _ _ _ _ _ ready, simplified]
  show "batch_inv e dims lm (heap w') state'" and "seqs state' = ss"
    and "advanced e amax lm (set ss) (heap w) (heap w')"
    and "next_seq_id w' = next_seq_id w" and "clock w' = clock w"
    using R ss sh(2) c last_position_row(1) [OF lgsh width] wq by auto
qed

end

section \<open>Decode\<close>

context network begin

lemma from_to_cache: "from_cache (clib e) (to_cache (clib e) c) = c"
  using cache_objects by (auto simp: from_cache_def to_cache_def)

text \<open>The network's answer for a text that grew by one token, from the cache of the rest.\<close>

lemma lm_snoc:
  assumes "toks \<noteq> []"
  shows "fst (lm [] (positioned toks)) = fst (lm [] (positioned (butlast toks)))
      @ fst (lm (fst (lm [] (positioned (butlast toks)))) [(last toks, int (length toks - 1))])"
    and "snd (lm [] (positioned toks))
      = snd (lm (fst (lm [] (positioned (butlast toks)))) [(last toks, int (length toks - 1))])"
proof -
  have eq: "positioned toks = positioned (butlast toks) @ [(last toks, int (length toks - 1))]"
    using positioned_snoc [of "butlast toks" "last toks"] assms by simp
  show "fst (lm [] (positioned toks)) = fst (lm [] (positioned (butlast toks)))
      @ fst (lm (fst (lm [] (positioned (butlast toks)))) [(last toks, int (length toks - 1))])"
    unfolding eq by (subst lm_entries) simp
  show "snd (lm [] (positioned toks))
      = snd (lm (fst (lm [] (positioned (butlast toks)))) [(last toks, int (length toks - 1))])"
    unfolding eq by (subst lm_logits) simp_all
qed

lemma decode_ready:
  assumes inv: "row_inv e lm h state m nx width q i" and i: "i < length (seqs state)"
    and sh: "shape (ilib e) m = [length (seqs state), width]"
      "shape (ilib e) nx = [length (seqs state), 1]"
    and c: "cache_shape (flib e) dims (length (seqs state)) width (cache state)"
    and attn: "attn = cat (ilib e) [m, full (ilib e) [length (seqs state), 1] 1] 1"
    and fw: "forward e nx attn (sub_scalar (ilib e) (sum_keepdim (ilib e) attn) 1)
      (to_cache (clib e) (cache state)) = Inr (past, lg)"
  shows "row_ready e lm h (state\<lparr>cache := from_cache (clib e) past, attn_mask := Some attn\<rparr>) attn
      (last_position (flib e) lg) (Suc width) (Suc q) i"
    and "shape (ilib e) attn = [length (seqs state), Suc width]"
    and "cache_shape (flib e) dims (length (seqs state)) (Suc width) (from_cache (clib e) past)"
    and "shape (flib e) lg = [length (seqs state), 1, vocab]"
proof -
  let ?F = "flib e" and ?I = "ilib e" and ?n = "length (seqs state)"
  define pos where "pos = sub_scalar ?I (sum_keepdim ?I attn) 1"
  have q: "1 \<le> q" "q \<le> width" and mrow: "row ?I m i = pad_mask width q"
    using inv by (auto simp: row_inv_def)
  have ones: "shape ?I (full ?I [?n, 1] 1) = [?n, 1]" "row ?I (full ?I [?n, 1] 1) i = [1]"
    using i by (simp_all add: I.shape_full row_def I.elem_full)
  have attnsh: "shape ?I attn = [?n, width + 1]"
    unfolding attn by (rule I.cat1_mat(1) [OF sh(1) ones(1)])
  have arow: "row ?I attn i = pad_mask width q @ [1]"
    unfolding attn using I.cat1_mat(2) [OF sh(1) ones(1) i] mrow ones(2) by simp
  have possh: "shape ?I pos = [?n, 1]"
    unfolding pos_def using I.sum_keepdim_mat(1) [OF attnsh] by (simp add: I.shape_sub_scalar)
  have pose: "elem ?I pos [i, 0] = int q"
    unfolding pos_def using I.sum_keepdim_mat [OF attnsh] arow i q
    by (simp add: I.elem_sub_scalar sum_list_pad_mask)
  have n: "0 < ?n" using i by auto
  have c': "width = 0 \<and> to_cache (clib e) (cache state) = NoPast \<or>
      cache_shape ?F dims ?n width (from_cache (clib e) (to_cache (clib e) (cache state)))"
    using c by (simp add: from_to_cache)
  note fs = forward_shape [OF fw [folded pos_def] sh(2) attnsh possh n zero_less_one c']
  show sh': "shape ?I attn = [?n, Suc width]" using attnsh by simp
  show csh: "cache_shape ?F dims ?n (Suc width) (from_cache (clib e) past)" using fs by simp
  show lgsh: "shape ?F lg = [?n, 1, vocab]" using fs by simp
  have one: "elem ?I attn [i, width + 1 - 1] = 1"
    using nth_row [of width ?I attn i] attnsh arow q by (simp add: nth_append)
  have crowl: "length (crow ?F (cache state) i) = width" using c dims by simp
  have seen: "sel (take width (row ?I attn i))
      (crow ?F (from_cache (clib e) (to_cache (clib e) (cache state))) i)
      = drop (width - q) (crow ?F (cache state) i)"
    using arow q crowl by (simp add: from_to_cache sel_pad_mask)
  have "row ?I nx i = [elem ?I nx [i, 0]]" "row ?I pos i = [int q]"
    using sh(2) possh pose by (simp_all add: row_def)
  then have new: "sel (drop width (row ?I attn i)) (zip (row ?I nx i) (row ?I pos i))
      = [(elem ?I nx [i, 0], int q)]"
    using arow q by (simp add: sel_def)
  note fr = forward_rows [OF fw [folded pos_def] sh(2) attnsh possh n zero_less_one c' i one
      refl refl, unfolded new seen]
  have after: "sel (row ?I attn i) (crow ?F (from_cache (clib e) past) i)
      = drop (Suc width - Suc q) (crow ?F (from_cache (clib e) past) i)"
    unfolding arow pad_mask_snoc [OF q(2)] using q csh dims by (intro sel_pad_mask) auto
  let ?s = "h (seqs state ! i)"
  let ?toks = "prompt_ids ?s @ output_ids ?s"
  show "row_ready e lm h (state\<lparr>cache := from_cache (clib e) past, attn_mask := Some attn\<rparr>) attn
      (last_position ?F lg) (Suc width) (Suc q) i"
  proof (cases "finished ?s")
    case True
    then show ?thesis using q arow by (simp add: row_ready_def pad_mask_snoc)
  next
    case False
    have r: "output_ids ?s \<noteq> []" "Suc q = length ?toks"
      "drop (width - q) (crow ?F (cache state) i) = fst (lm [] (positioned (butlast ?toks)))"
      "elem ?I nx [i, 0] = last ?toks"
      using inv False by (auto simp: row_inv_def Let_def)
    have toks: "?toks \<noteq> []" "int (length ?toks - 1) = int q" using r by auto
    have "row ?F (last_position ?F lg) i = tabulate vocab (\<lambda>j. elem ?F lg [i, 1 - 1, j])"
      by (rule last_position_row(2) [OF lgsh zero_less_one i])
    then show ?thesis
      using fr after q arow r lm_snoc [OF toks(1), unfolded toks(2)]
      unfolding row_ready_def Let_def by (simp add: pad_mask_snoc)
  qed
qed

lemma decode_inv:
  assumes dec: "decode_step e state w = Inr (state', w')"
    and inv: "batch_inv e dims lm (heap w) state" and ne: "seqs state \<noteq> []"
  shows "batch_inv e dims lm (heap w') state'" and "seqs state' = seqs state"
    and "advanced e amax lm (set (seqs state)) (heap w) (heap w')"
    and "next_seq_id w' = next_seq_id w" and "clock w' = clock w"
proof -
  let ?n = "length (seqs state)"
  from inv ne obtain m nx width qs where st: "distinct (seqs state)" "attn_mask state = Some m"
    "next_tokens state = Some nx" "shape (ilib e) m = [?n, width]" "shape (ilib e) nx = [?n, 1]"
    "cache_shape (flib e) dims ?n width (cache state)" "length qs = ?n"
    and rows: "\<forall>i<?n. row_inv e lm (heap w) state m nx width (qs ! i) i"
    and wq: "width \<in> set qs" by (rule batch_invE)
  define attn where "attn = cat (ilib e) [m, full (ilib e) [?n, 1] 1] 1"
  obtain past lg where fw: "forward e nx attn (sub_scalar (ilib e) (sum_keepdim (ilib e) attn) 1)
      (to_cache (clib e) (cache state)) = Inr (past, lg)"
    and em: "emit e (state\<lparr>cache := from_cache (clib e) past, attn_mask := Some attn\<rparr>)
      (last_position (flib e) lg) w = Inr (state', w')"
    using dec ne st(2,3) by (auto simp: decode_step_def try_bind_Inr_iff Let_def attn_def)
  note dr = decode_ready [OF rows [rule_format] _ st(4-6) attn_def fw]
  have n: "0 < ?n" using ne by simp
  have ready: "row_ready e lm (heap w)
      (state\<lparr>cache := from_cache (clib e) past, attn_mask := Some attn\<rparr>) attn
      (last_position (flib e) lg) (Suc width) (map Suc qs ! i) i" if "i < ?n" for i
    using dr(1) [OF that that] st(7) that by simp
  note R = emit_inv [OF em _ _ _ _ _ _ _ _ ready, simplified]
  show "batch_inv e dims lm (heap w') state'" and "seqs state' = seqs state"
    and "advanced e amax lm (set (seqs state)) (heap w) (heap w')"
    and "next_seq_id w' = next_seq_id w" and "clock w' = clock w"
    using R ne st dr(2-4) [OF n n] last_position_row(1) [OF dr(4) [OF n n] zero_less_one] wq by auto
qed

end

section \<open>Eviction\<close>

lemma length_filter_less: "length (filter (\<lambda>j. j < k) [0..<w]) = min k w"
proof -
  have "filter (\<lambda>j. j < k) [0..<w] = [0..<min k w]"
    by (induction w) (auto simp: min_def le_Suc_eq)
  then show ?thesis by simp
qed

context network begin

text \<open>\<open>lead\<close> counts the columns that are padding in every row.\<close>

lemma lead_count:
  assumes m: "shape (ilib e) m = [n, w]" and n: "0 < n" and qs: "length qs = n"
    and rows: "\<forall>i<n. qs ! i \<le> w \<and> row (ilib e) m i = pad_mask w (qs ! i)"
  shows "count_true (ilib e) (all_rows (ilib e) (eq_scalar (ilib e) (cumsum (ilib e) m) 0))
    = w - Max (set qs)"
proof -
  let ?I = "ilib e"
  define c where "c = eq_scalar ?I (cumsum ?I m) 0"
  have csh: "bshape ?I c = [n, w]"
    using I.cumsum_mat(1) [OF m] by (simp add: c_def I.bshape_eq_scalar)
  have ce: "belem ?I c [i, j] \<longleftrightarrow> j < w - qs ! i" if "i < n" "j < w" for i j
    using I.cumsum_mat [OF m] that rows sum_take_pad_mask [of "qs ! i" w "Suc j"]
    by (auto simp: c_def I.belem_eq_scalar)
  have "(\<forall>i<n. belem ?I c [i, j]) \<longleftrightarrow> j < w - Max (set qs)" if "j < w" for j
  proof
    assume all: "\<forall>i<n. belem ?I c [i, j]"
    have "Max (set qs) \<in> set qs" using n qs by (intro Max_in) auto
    then obtain i where "i < n" "Max (set qs) = qs ! i" using qs by (auto simp: in_set_conv_nth)
    then show "j < w - Max (set qs)" using all ce [of i j] that by auto
  next
    assume j: "j < w - Max (set qs)"
    show "\<forall>i<n. belem ?I c [i, j]"
    proof (intro allI impI)
      fix i assume i: "i < n"
      then have "qs ! i \<le> Max (set qs)" using qs by (intro Max_ge) auto
      then show "belem ?I c [i, j]" using ce [OF i that] j by simp
    qed
  qed
  then have "filter (\<lambda>j. belem ?I (all_rows ?I c) [j]) [0..<w] = filter (\<lambda>j. j < w - Max (set qs)) [0..<w]"
    using I.belem_all_rows [OF csh] by (intro filter_cong) auto
  then show ?thesis
    using I.count_true [OF I.bshape_all_rows [OF csh]] by (simp add: c_def length_filter_less)
qed

lemma compact_inv:
  assumes ne: "seqs state \<noteq> []" and dist: "distinct (seqs state)"
    and m: "attn_mask state = Some m" "shape (ilib e) m = [length (seqs state), w]"
    and nx: "next_tokens state = Some nx" "shape (ilib e) nx = [length (seqs state), 1]"
    and c: "cache_shape (flib e) dims (length (seqs state)) w (cache state)"
    and qs: "length qs = length (seqs state)"
    and rows: "\<forall>i<length (seqs state). row_inv e lm h state m nx w (qs ! i) i"
  shows "batch_inv e dims lm h (compact e state)" and "seqs (compact e state) = seqs state"
proof -
  let ?n = "length (seqs state)" and ?M = "Max (set qs)"
  define lead where "lead = w - ?M"
  have n: "0 < ?n" using ne by simp
  have pm: "\<forall>i<?n. qs ! i \<le> w \<and> row (ilib e) m i = pad_mask w (qs ! i)"
    using rows by (auto simp: row_inv_def)
  have Mq: "?M \<in> set qs" using n qs by (intro Max_in) auto
  then have Mw: "?M \<le> w" using pm qs by (auto simp: in_set_conv_nth)
  have le: "qs ! i \<le> ?M" if "i < ?n" for i using qs that by (intro Max_ge) auto
  define state' where "state' = state\<lparr>attn_mask := Some (slice_from (ilib e) m 1 (int lead)),
    cache := map (\<lambda>(k, v). (slice_from (flib e) k 2 (int lead),
                            slice_from (flib e) v 2 (int lead))) (cache state)\<rparr>"
  have eq: "compact e state = (if lead = 0 then state else state')"
    using ne m(1) lead_count [OF m(2) n qs pm]
    by (simp add: compact_def lead_def state'_def Let_def)
  show "seqs (compact e state) = seqs state" by (simp add: eq state'_def)
  show "batch_inv e dims lm h (compact e state)"
  proof (cases "lead = 0")
    case True
    then have "w = ?M" using Mw by (simp add: lead_def)
    then have "w \<in> set qs" using Mq by simp
    then have "batch_inv e dims lm h state"
      using ne dist m nx c qs rows by (intro batch_invI [of state m nx e w dims qs]) simp_all
    then show ?thesis using True eq by simp
  next
    case False
    have lw: "lead \<le> w" by (simp add: lead_def)
    note sl = I.slice1_mat [OF m(2) lw]
    note sc = F.slice_cache [OF c dims, where a = "int lead"]
    have wl: "w - lead = ?M" using Mw by (simp add: lead_def)
    have "row_inv e lm h state' (slice_from (ilib e) m 1 (int lead)) nx ?M (qs ! i) i"
      if i: "i < ?n" for i
    proof -
      have inv: "row_inv e lm h state m nx w (qs ! i) i" using rows i by simp
      have "drop (?M - qs ! i) (drop lead (crow (flib e) (cache state) i))
          = drop (w - qs ! i) (crow (flib e) (cache state) i)"
        using le [OF i] Mw by (simp add: lead_def)
      moreover have "drop lead (pad_mask w (qs ! i)) = pad_mask ?M (qs ! i)"
        using le [OF i] Mw pm i wl by (simp add: pad_mask_drop lead_def)
      ultimately show ?thesis
        using inv le [OF i] sl(2) [OF i] sc(2) [OF i]
        by (auto simp: row_inv_def state'_def py_from_pos)
    qed
    then have "batch_inv e dims lm h state'"
      using ne dist nx sl(1) sc(1) qs Mq lw wl
      by (intro batch_invI [of state' "slice_from (ilib e) m 1 (int lead)" nx e ?M dims qs])
        (auto simp: state'_def)
    then show ?thesis using eq False by simp
  qed
qed

lemma select_inv:
  assumes inv: "row_inv e lm h state m nx w (qs ! (keep ! i)) (keep ! i)"
    and i: "i < length keep" and keep: "\<forall>r\<in>set keep. r < length (seqs state)"
    and m: "shape (ilib e) m = [length (seqs state), w]"
    and nx: "shape (ilib e) nx = [length (seqs state), 1]"
    and c: "cache_shape (flib e) dims (length (seqs state)) w (cache state)"
  shows "row_inv e lm h \<lparr>seqs = map (\<lambda>i. seqs state ! i) keep,
      cache = select_rows (flib e) (cache state) keep,
      attn_mask = Some (index_select (ilib e) m 0 keep),
      next_tokens = Some (index_select (ilib e) nx 0 keep)\<rparr>
    (index_select (ilib e) m 0 keep) (index_select (ilib e) nx 0 keep) w (map ((!) qs) keep ! i) i"
proof -
  have "keep \<noteq> []" using i by auto
  moreover have "elem (ilib e) (index_select (ilib e) nx 0 keep) [i, 0] = elem (ilib e) nx [keep ! i, 0]"
    using I.index_select_mat [OF nx keep] i nth_row [of 0 "ilib e" nx "keep ! i"] nx
      nth_row [of 0 "ilib e" "index_select (ilib e) nx 0 keep" i] by simp
  ultimately show ?thesis
    using inv i I.index_select_mat(2) [OF m keep i] F.select_rows_cache(2) [OF c dims keep _ i]
    by (simp add: row_inv_def)
qed

text \<open>Eviction under the invariant always returns, and keeps it, whatever the two scans saw.\<close>

lemma evict_scan_inv:
  assumes inv: "batch_inv e dims lm h state"
  obtains state' where
    "evict_scan e state hk hg = Inr (state', filter (\<lambda>s. finished (hg s)) (seqs state))"
    "batch_inv e dims lm h state'"
    "seqs state' = (if filter (\<lambda>s. finished (hg s)) (seqs state) = [] then seqs state
                    else filter (\<lambda>s. \<not> finished (hk s)) (seqs state))"
proof (cases "seqs state = []")
  case True
  then show ?thesis using that [of state] inv by (simp add: evict_scan_def)
next
  case False
  let ?gone = "filter (\<lambda>s. finished (hg s)) (seqs state)" and ?n = "length (seqs state)"
  define keep where "keep = filter (\<lambda>i. \<not> finished (hk (seqs state ! i))) [0..<?n]"
  have mapk: "map (\<lambda>i. seqs state ! i) keep = filter (\<lambda>s. \<not> finished (hk s)) (seqs state)"
    using filter_map [of "\<lambda>s. \<not> finished (hk s)" "\<lambda>i. seqs state ! i" "[0..<?n]"]
    by (simp add: keep_def map_nth o_def)
  show ?thesis
  proof (cases "?gone = [] \<or> keep = []")
    case True
    show ?thesis
    proof (cases "?gone = []")
      case none: True
      show ?thesis by (rule that [of state]) (use none inv False in \<open>simp_all add: evict_scan_def\<close>)
    next
      case some: False
      then have k: "keep = []" using True by simp
      then have kf: "filter (\<lambda>s. \<not> finished (hk s)) (seqs state) = []" using mapk by simp
      show ?thesis
        by (rule that [of empty_state])
          (use some False k kf in \<open>simp_all add: evict_scan_def keep_def [symmetric]
            Let_def\<close>)
    qed
  next
    case go: False
    from inv False obtain m nx w qs where st: "distinct (seqs state)" "attn_mask state = Some m"
      "next_tokens state = Some nx" "shape (ilib e) m = [?n, w]" "shape (ilib e) nx = [?n, 1]"
      "cache_shape (flib e) dims ?n w (cache state)" "length qs = ?n"
      and rows: "\<forall>i<?n. row_inv e lm h state m nx w (qs ! i) i" by (rule batch_invE)
    define picked where "picked = \<lparr>seqs = map (\<lambda>i. seqs state ! i) keep,
      cache = select_rows (flib e) (cache state) keep,
      attn_mask = Some (index_select (ilib e) m 0 keep),
      next_tokens = Some (index_select (ilib e) nx 0 keep)\<rparr>"
    have keep: "\<forall>r\<in>set keep. r < ?n" "distinct keep" "keep \<noteq> []"
      using go by (auto simp: keep_def)
    have lk: "length (seqs picked) = length keep" by (simp add: picked_def)
    have run: "evict_scan e state hk hg = Inr (compact e picked, ?gone)"
      using False go st(2,3) by (auto simp: evict_scan_def keep_def [symmetric] Let_def picked_def)
    have dist: "distinct (seqs picked)" unfolding picked_def using st(1) mapk by simp
    have "batch_inv e dims lm h (compact e picked)" "seqs (compact e picked) = seqs picked"
    proof -
      have "\<forall>i<length (seqs picked). row_inv e lm h picked (index_select (ilib e) m 0 keep)
          (index_select (ilib e) nx 0 keep) w (map ((!) qs) keep ! i) i"
        using select_inv [OF _ _ keep(1) st(4-6)] rows keep(1) by (auto simp: picked_def)
      note ci = compact_inv [OF _ dist _ _ _ _ _ _ this]
      show "batch_inv e dims lm h (compact e picked)" "seqs (compact e picked) = seqs picked"
        using ci I.index_select_mat(1) [OF st(4) keep(1)] I.index_select_mat(1) [OF st(5) keep(1)]
          F.select_rows_cache(1) [OF st(6) dims keep(1,3)] keep(3)
        by (simp_all add: picked_def)
    qed
    then show ?thesis
      using that [OF run] go mapk by (simp add: picked_def)
  qed
qed

end

section \<open>Admission\<close>

text \<open>Row \<open>i\<close> of \<open>state'\<close> is row \<open>k\<close> of \<open>state\<close> behind more padding.\<close>

lemma row_inv_widen:
  assumes inv: "row_inv e lm h state m nx w q k"
    and s: "seqs state' ! i = seqs state ! k" and w: "w \<le> w'"
    and m: "row (ilib e) m' i = replicate (w' - w) 0 @ row (ilib e) m k"
    and c: "crow (flib e) (cache state') i = replicate (w' - w) z @ crow (flib e) (cache state) k"
    and nx: "elem (ilib e) nx' [i, 0] = elem (ilib e) nx [k, 0]"
  shows "row_inv e lm h state' m' nx' w' q i"
proof -
  have q: "1 \<le> q" "q \<le> w" "row (ilib e) m k = pad_mask w q" using inv by (auto simp: row_inv_def)
  have "drop (w' - q) (crow (flib e) (cache state') i) = drop (w - q) (crow (flib e) (cache state) k)"
    using q w by (simp add: c)
  then show ?thesis
    using inv q w pad_mask_more [of q w "w' - w"] unfolding row_inv_def s nx m
    by (simp add: Let_def)
qed

context network begin

lemma pad_mask_left_mat:
  assumes "shape (ilib e) m = [n, l]" "l \<le> w"
  shows "shape (ilib e) (pad_mask_left (ilib e) m w) = [n, w]"
    and "i < n \<Longrightarrow> row (ilib e) (pad_mask_left (ilib e) m w) i = replicate (w - l) 0 @ row (ilib e) m i"
proof -
  let ?I = "ilib e"
  have z: "shape ?I (zeros ?I [n, w - l]) = [n, w - l]"
    "i < n \<Longrightarrow> row ?I (zeros ?I [n, w - l]) i = replicate (w - l) 0" for i
    by (auto simp: row_def I.shape_zeros I.elem_zeros intro!: nth_equalityI)
  have eq: "pad_mask_left ?I m w = (if w \<le> l then m else cat ?I [zeros ?I [n, w - l], m] 1)"
    using assms by (simp add: pad_mask_left_def Let_def nat_diff_distrib)
  note mat = I.cat1_mat [OF z(1) assms(1)]
  show "shape ?I (pad_mask_left ?I m w) = [n, w]"
    using assms mat(1) by (simp add: eq)
  show "row ?I (pad_mask_left ?I m w) i = replicate (w - l) 0 @ row ?I m i" if "i < n"
    using assms mat(2) [OF that] z(2) [OF that] by (simp add: eq)
qed

text \<open>Two batches stack into one when they share no sequence.\<close>

lemma stack_inv:
  assumes a: "batch_inv e dims lm h a" "seqs a \<noteq> []" and b: "batch_inv e dims lm h b" "seqs b \<noteq> []"
    and disj: "set (seqs a) \<inter> set (seqs b) = {}"
    and parts: "attn_mask a = Some ma" "attn_mask b = Some mb"
      "next_tokens a = Some na" "next_tokens b = Some nb"
    and width: "width = max (shape (ilib e) ma ! 1) (shape (ilib e) mb ! 1)"
  shows "batch_inv e dims lm h \<lparr>seqs = seqs a @ seqs b,
    cache = concat_batch (flib e) (cache a) (cache b),
    attn_mask = Some (cat (ilib e) [pad_mask_left (ilib e) ma width,
                                    pad_mask_left (ilib e) mb width] 0),
    next_tokens = Some (cat (ilib e) [na, nb] 0)\<rparr>" (is "batch_inv e dims lm h ?s")
proof -
  let ?I = "ilib e" and ?n = "length (seqs a)" and ?k = "length (seqs b)"
  obtain wa qa where A: "distinct (seqs a)" "shape ?I ma = [?n, wa]" "shape ?I na = [?n, 1]"
    "cache_shape (flib e) dims ?n wa (cache a)" "length qa = ?n"
    "\<forall>i<?n. row_inv e lm h a ma na wa (qa ! i) i" "wa \<in> set qa"
    using a parts by (auto elim!: batch_invE)
  obtain wb qb where B: "distinct (seqs b)" "shape ?I mb = [?k, wb]" "shape ?I nb = [?k, 1]"
    "cache_shape (flib e) dims ?k wb (cache b)" "length qb = ?k"
    "\<forall>i<?k. row_inv e lm h b mb nb wb (qb ! i) i" "wb \<in> set qb"
    using b parts by (auto elim!: batch_invE)
  have w: "width = max wa wb" using width A(2) B(2) by simp
  define m where "m = cat ?I [pad_mask_left ?I ma width, pad_mask_left ?I mb width] 0"
  define nx where "nx = cat ?I [na, nb] 0"
  note pa = pad_mask_left_mat [OF A(2), of width] and pb = pad_mask_left_mat [OF B(2), of width]
  note mm = I.cat0_mat [OF pa(1) pb(1), folded m_def] and nn = I.cat0_mat [OF A(3) B(3), folded nx_def]
  note cc = F.concat_batch_cache [OF A(4) B(4) dims]
  have nxe: "elem ?I nx [i, 0] = (if i < ?n then elem ?I na [i, 0] else elem ?I nb [i - ?n, 0])"
    if "i < ?n + ?k" for i
    using nn that A(3) B(3) nth_row [of 0 ?I nx i] nth_row [of 0 ?I na i] nth_row [of 0 ?I nb "i - ?n"]
    by auto
  have rows: "row_inv e lm h ?s m nx width ((qa @ qb) ! i) i" if i: "i < ?n + ?k" for i
  proof (cases "i < ?n")
    case True
    have "row_inv e lm h ?s m nx width (qa ! i) i"
      by (rule row_inv_widen [OF A(6) [rule_format, OF True]])
        (use True w A(5) mm(2) pa(2) nxe cc(2) i in \<open>auto simp: nth_append max_def\<close>)
    then show ?thesis using True A(5) by (simp add: nth_append)
  next
    case False
    then have j: "i - ?n < ?k" using i by simp
    have "row_inv e lm h ?s m nx width (qb ! (i - ?n)) i"
      by (rule row_inv_widen [OF B(6) [rule_format, OF j]])
        (use False j w B(5) mm(2) pb(2) nxe cc(3) i in \<open>auto simp: nth_append max_def\<close>)
    then show ?thesis using False A(5) by (simp add: nth_append)
  qed
  show ?thesis
    by (rule batch_invI [of ?s m nx e width dims "qa @ qb"])
      (use A B a(2) disj w mm(1) nn(1) cc(1) rows in \<open>auto simp: m_def nx_def max_def\<close>)
qed

lemma admit_inv:
  assumes adm: "admit e state new w = Inr (state', w')"
    and inv: "batch_inv e dims lm (heap w) state"
    and new: "distinct new" "set new \<inter> set (seqs state) = {}"
    and fresh: "\<And>j. j \<in> set new \<Longrightarrow> prompt_ids (heap w j) \<noteq> [] \<and> output_ids (heap w j) = []"
  shows "batch_inv e dims lm (heap w') state'" and "seqs state' = seqs state @ new"
    and "advanced e amax lm (set new) (heap w) (heap w')"
    and "next_seq_id w' = next_seq_id w" and "clock w' = clock w"
proof -
  have "batch_inv e dims lm (heap w') state' \<and> seqs state' = seqs state @ new \<and>
    advanced e amax lm (set new) (heap w) (heap w') \<and>
    next_seq_id w' = next_seq_id w \<and> clock w' = clock w"
  proof (cases "new = []")
    case True
    then show ?thesis using adm inv by (simp add: admit_def advanced_def)
  next
    case False
    then obtain fr where pre: "prefill e new w = Inr (fr, w')"
      using adm by (auto simp: admit_def try_bind_Inr_iff Let_def split: if_splits option.splits)
    note P = prefill_inv [OF pre False new(1) fresh]
    show ?thesis
    proof (cases "seqs state = []")
      case True
      then show ?thesis using adm False pre P by (simp add: admit_def)
    next
      case ne: False
      have same: "heap w' s = heap w s" if "s \<in> set (seqs state)" for s
        using P(3) new(2) that by (auto simp: advanced_def)
      have inv': "batch_inv e dims lm (heap w') state"
        by (rule batch_inv_finish [OF inv]) (simp add: same)
      have frne: "seqs fr \<noteq> []" using P(2) False by simp
      obtain ma na where a: "attn_mask state = Some ma" "next_tokens state = Some na"
        using inv' ne by (auto elim: batch_invE)
      obtain mb nb where b: "attn_mask fr = Some mb" "next_tokens fr = Some nb"
        using P(1) frne by (auto elim: batch_invE)
      have disj: "set (seqs state) \<inter> set (seqs fr) = {}" using P(2) new(2) by auto
      note st = stack_inv [OF inv' ne P(1) frne disj a(1) b(1) a(2) b(2) refl]
      show ?thesis
        using adm False pre ne a b st P by (auto simp: admit_def Let_def)
    qed
  qed
  then show "batch_inv e dims lm (heap w') state'" and "seqs state' = seqs state @ new"
    and "advanced e amax lm (set new) (heap w) (heap w')"
    and "next_seq_id w' = next_seq_id w" and "clock w' = clock w" by auto
qed

end

end
