(* ===== verification/EngineRun.thy ===== *)
theory EngineRun
  imports EngineInv
begin

text \<open>
  Every way the engine's operations can be called: the step relation \<open>engine_reach\<close>, the invariant
  of its reachable states, and what follows for the text of a sequence.

  The scheduler decides when to admit, decode and evict, callers decide when to submit and when to
  give up. \<open>engine_reach\<close> allows every order of these, so its invariant holds for every schedule.
\<close>

section \<open>Sequences as they are made\<close>

definition abandon :: "nat set \<Rightarrow> (nat \<Rightarrow> seq) \<Rightarrow> (nat \<Rightarrow> seq)" where
  "abandon A h = (\<lambda>j. if j \<in> A then (h j)\<lparr>finish_reason := Some ''abandoned''\<rparr> else h j)"

definition new_seq :: "('f, 'i, 'b, 'd, 'r) engine \<Rightarrow> string \<Rightarrow> sampling_params option \<Rightarrow> string \<Rightarrow>
    nat \<Rightarrow> rat \<Rightarrow> seq" where
  "new_seq e prompt ps rid sid t =
     \<lparr>prompt_ids = encode e prompt,
      params = clamp (config e) (case ps of None \<Rightarrow> default_params | Some p \<Rightarrow> p),
      request_id = rid, seq_id = sid, output_ids = [], finish_reason = None,
      arrived_at = t, first_token_at = None\<rparr>"

lemma new_seq_fields [simp]:
  "prompt_ids (new_seq e prompt ps rid sid t) = encode e prompt"
  "params (new_seq e prompt ps rid sid t) =
    clamp (config e) (case ps of None \<Rightarrow> default_params | Some p \<Rightarrow> p)"
  "output_ids (new_seq e prompt ps rid sid t) = []"
  "finish_reason (new_seq e prompt ps rid sid t) = None"
  "seq_id (new_seq e prompt ps rid sid t) = sid"
  "request_id (new_seq e prompt ps rid sid t) = rid"
  by (simp_all add: new_seq_def)

lemma make_sequence_eq:
  "make_sequence e prompt ps rid w =
    (next_seq_id w,
     w\<lparr>next_seq_id := Suc (next_seq_id w), clock_reads := Suc (clock_reads w),
       heap := (heap w)(next_seq_id w :=
         new_seq e prompt ps rid (next_seq_id w) (clock w (clock_reads w)))\<rparr>)"
  by (simp add: make_sequence_def monotonic_def new_seq_def Let_def)

lemma encode_nonempty:
  assumes "2 \<le> context_limit e"
  shows "encode e prompt \<noteq> []" and "int (length (encode e prompt)) < context_limit e"
proof -
  define ids where "ids = (if tok_encode e prompt = [] then [eos_token_id e] else tok_encode e prompt)"
  have ids: "ids \<noteq> []" by (simp add: ids_def)
  define k where "k = nat (context_limit e - 1)"
  have k: "context_limit e - 1 = int k" "0 < k" using assms by (simp_all add: k_def)
  have eq: "encode e prompt = drop (length ids - k) ids"
    using py_from_neg [OF k(2), of ids] k(1) unfolding encode_def ids_def [symmetric] Let_def by simp
  have "0 < length ids" using ids by simp
  then have "length ids - k < length ids" using k(2) by linarith
  then show "encode e prompt \<noteq> []" by (simp add: eq)
  show "int (length (encode e prompt)) < context_limit e" using k by (simp add: eq)
qed

lemma new_seq_ok:
  assumes "2 \<le> context_limit e"
  shows "seq_ok e (new_seq e prompt ps rid sid t)" and "tracks e am lm (new_seq e prompt ps rid sid t)"
  using encode_nonempty [OF assms] clamp_max_tokens(1)
  by (simp_all add: seq_ok_def tracks_def seq_verdict_def verdict_def)

section \<open>Schedules\<close>

text \<open>
  A configuration is the world and the running batch. \<open>submit\<close> makes a sequence, \<open>admit\<close> takes
  sequences that have no output yet into the batch, \<open>decode\<close> advances it, \<open>evict\<close> scans it while
  the callers of \<open>A\<close> give up, \<open>abandon\<close> is a caller that gives up, \<open>reset\<close> is the scheduler
  dropping the batch after a failed step, \<open>elapse\<close> stands for the other readings of the clock and
  draws of random numbers.
\<close>

definition issued :: "'r world \<Rightarrow> nat set" where
  "issued w = {1..<next_seq_id w}"

inductive engine_reach :: "('f, 'i, 'b, 'd, 'r) engine \<Rightarrow> 'r world \<Rightarrow> ('f, 'i) batch_state \<Rightarrow> bool"
  for e :: "('f, 'i, 'b, 'd, 'r) engine" where
  start: "next_seq_id w = 1 \<Longrightarrow> engine_reach e w empty_state"
| submit: "engine_reach e w st \<Longrightarrow> make_sequence e prompt ps rid w = (sid, w') \<Longrightarrow> engine_reach e w' st"
| admit: "engine_reach e w st \<Longrightarrow> distinct new \<Longrightarrow> set new \<subseteq> issued w - set (seqs st) \<Longrightarrow>
    \<forall>j\<in>set new. output_ids (heap w j) = [] \<Longrightarrow> admit e st new w = Inr (st', w') \<Longrightarrow>
    engine_reach e w' st'"
| decode: "engine_reach e w st \<Longrightarrow> decode_step e st w = Inr (st', w') \<Longrightarrow> engine_reach e w' st'"
| evict: "engine_reach e w st \<Longrightarrow> h' = abandon A (heap w) \<Longrightarrow>
    evict_scan e st (heap w) h' = Inr (st', gone) \<Longrightarrow> engine_reach e (w\<lparr>heap := h'\<rparr>) st'"
| abandon: "engine_reach e w st \<Longrightarrow> engine_reach e (w\<lparr>heap := abandon A (heap w)\<rparr>) st"
| reset: "engine_reach e w st \<Longrightarrow> engine_reach e w empty_state"
| elapse: "engine_reach e w st \<Longrightarrow> engine_reach e (w\<lparr>clock_reads := c, rng := r\<rparr>) st"

definition engine_inv :: "('f, 'i, 'b, 'd, 'r) engine \<Rightarrow> (nat \<times> nat) list \<Rightarrow> (pyfloat list \<Rightarrow> nat) \<Rightarrow>
    pyfloat entry lang_model \<Rightarrow> 'r world \<Rightarrow> ('f, 'i) batch_state \<Rightarrow> bool" where
  "engine_inv e dims am lm w st \<longleftrightarrow>
     1 \<le> next_seq_id w \<and> batch_inv e dims lm (heap w) st \<and> set (seqs st) \<subseteq> issued w \<and>
     (\<forall>j\<in>issued w. seq_id (heap w j) = j \<and> seq_ok e (heap w j) \<and> tracks e am lm (heap w j))"

lemma engine_invD:
  assumes "engine_inv e dims am lm w st"
  shows "batch_inv e dims lm (heap w) st" "set (seqs st) \<subseteq> issued w"
    "j \<in> issued w \<Longrightarrow> seq_ok e (heap w j)" "j \<in> issued w \<Longrightarrow> tracks e am lm (heap w j)"
    "j \<in> issued w \<Longrightarrow> seq_id (heap w j) = j"
  using assms by (auto simp: engine_inv_def)

lemma engine_inv_start: "next_seq_id w = 1 \<Longrightarrow> engine_inv e dims am lm w empty_state"
  by (simp add: engine_inv_def issued_def)

lemma engine_inv_elapse:
  "engine_inv e dims am lm w st \<Longrightarrow> engine_inv e dims am lm (w\<lparr>clock_reads := c, rng := r\<rparr>) st"
  by (simp add: engine_inv_def issued_def)

lemma engine_inv_reset: "engine_inv e dims am lm w st \<Longrightarrow> engine_inv e dims am lm w empty_state"
  by (simp add: engine_inv_def)

lemma abandon_finished: "finished (abandon A h j) \<longleftrightarrow> j \<in> A \<or> finished (h j)"
  by (simp add: abandon_def finished_def)

lemma abandon_fields [simp]:
  "prompt_ids (abandon A h j) = prompt_ids (h j)" "output_ids (abandon A h j) = output_ids (h j)"
  "params (abandon A h j) = params (h j)" "seq_id (abandon A h j) = seq_id (h j)"
  by (simp_all add: abandon_def)

lemma engine_inv_abandon:
  assumes "engine_inv e dims am lm w st"
  shows "engine_inv e dims am lm (w\<lparr>heap := abandon A (heap w)\<rparr>) st"
proof -
  have "batch_inv e dims lm (abandon A (heap w)) st"
    by (rule batch_inv_finish [OF engine_invD(1) [OF assms]])
      (auto simp: abandon_def finished_def)
  moreover have "seq_ok e (abandon A (heap w) j) = seq_ok e (heap w j)" for j
    by (simp add: seq_ok_def)
  moreover have "tracks e am lm (heap w j) \<Longrightarrow> tracks e am lm (abandon A (heap w) j)" for j
    by (simp add: abandon_def abandon_tracks)
  ultimately show ?thesis using assms by (auto simp: engine_inv_def issued_def)
qed

lemma engine_inv_submit:
  assumes inv: "engine_inv e dims am lm w st" and ctx: "2 \<le> context_limit e"
    and new: "make_sequence e prompt ps rid w = (sid, w')"
  shows "engine_inv e dims am lm w' st" and "sid \<notin> set (seqs st)"
proof -
  have iss: "issued w' = insert sid (issued w)" "sid \<notin> issued w" "1 \<le> next_seq_id w'"
    using inv new by (auto simp: make_sequence_eq issued_def engine_inv_def)
  show notin: "sid \<notin> set (seqs st)" using engine_invD(2) [OF inv] iss(2) by auto
  obtain t where h: "heap w' = (heap w)(sid := new_seq e prompt ps rid sid t)"
    using new by (auto simp: make_sequence_eq)
  have "batch_inv e dims lm (heap w') st"
    by (rule batch_inv_finish [OF engine_invD(1) [OF inv]]) (use h notin in auto)
  then show "engine_inv e dims am lm w' st"
    using inv iss h new_seq_ok [OF ctx] by (auto simp: engine_inv_def)
qed

context network begin

lemma engine_inv_advanced:
  assumes "engine_inv e dims amax lm w st0" "advanced e amax lm S (heap w) (heap w')"
    "next_seq_id w' = next_seq_id w" "batch_inv e dims lm (heap w') st" "set (seqs st) \<subseteq> issued w"
  shows "engine_inv e dims amax lm w' st"
  using assms advanced_tracks [OF assms(2)] advanced_fixed [OF assms(2)]
  by (auto simp: engine_inv_def issued_def)

lemma engine_inv_admit:
  assumes inv: "engine_inv e dims amax lm w st" and new: "distinct new"
    "set new \<subseteq> issued w - set (seqs st)" "\<forall>j\<in>set new. output_ids (heap w j) = []"
    and adm: "admit e st new w = Inr (st', w')"
  shows "engine_inv e dims amax lm w' st'" and "seqs st' = seqs st @ new"
    and "advanced e amax lm (set new) (heap w) (heap w')" and "next_seq_id w' = next_seq_id w"
proof -
  have fresh: "prompt_ids (heap w j) \<noteq> [] \<and> output_ids (heap w j) = []" if "j \<in> set new" for j
    using engine_invD(3) [OF inv] new that by (auto simp: seq_ok_def)
  have disj: "set new \<inter> set (seqs st) = {}" using new(2) by auto
  note A = admit_inv [OF adm engine_invD(1) [OF inv] new(1) disj fresh]
  show "seqs st' = seqs st @ new" "advanced e amax lm (set new) (heap w) (heap w')"
    "next_seq_id w' = next_seq_id w"
    using A new(2) by auto
  show "engine_inv e dims amax lm w' st'"
    by (rule engine_inv_advanced [OF inv]) (use A new(2) engine_invD(2) [OF inv] in auto)
qed

lemma engine_inv_decode:
  assumes inv: "engine_inv e dims amax lm w st" and dec: "decode_step e st w = Inr (st', w')"
  shows "engine_inv e dims amax lm w' st'" and "seqs st' = seqs st"
    and "advanced e amax lm (set (seqs st)) (heap w) (heap w')" and "next_seq_id w' = next_seq_id w"
proof -
  have "engine_inv e dims amax lm w' st' \<and> seqs st' = seqs st \<and>
    advanced e amax lm (set (seqs st)) (heap w) (heap w') \<and> next_seq_id w' = next_seq_id w"
  proof (cases "seqs st = []")
    case True
    then show ?thesis using dec inv by (simp add: decode_step_def advanced_def)
  next
    case False
    note D = decode_inv [OF dec engine_invD(1) [OF inv] False]
    then show ?thesis
      using engine_inv_advanced [OF inv D(3,4,1)] engine_invD(2) [OF inv] by auto
  qed
  then show "engine_inv e dims amax lm w' st'" and "seqs st' = seqs st"
    and "advanced e amax lm (set (seqs st)) (heap w) (heap w')" and "next_seq_id w' = next_seq_id w"
    by auto
qed

lemma engine_inv_evict:
  assumes inv: "engine_inv e dims amax lm w st"
    and ev: "evict_scan e st hk hg = Inr (st', gone)"
  shows "engine_inv e dims amax lm w st'" and "gone = filter (\<lambda>s. finished (hg s)) (seqs st)"
    and "seqs st' = (if gone = [] then seqs st else filter (\<lambda>s. \<not> finished (hk s)) (seqs st))"
proof -
  obtain st1 where "evict_scan e st hk hg = Inr (st1, filter (\<lambda>s. finished (hg s)) (seqs st))"
    "batch_inv e dims lm (heap w) st1"
    "seqs st1 = (if filter (\<lambda>s. finished (hg s)) (seqs st) = [] then seqs st
                 else filter (\<lambda>s. \<not> finished (hk s)) (seqs st))"
    by (rule evict_scan_inv [OF engine_invD(1) [OF inv], of hk hg])
  then show "gone = filter (\<lambda>s. finished (hg s)) (seqs st)"
    and "seqs st' = (if gone = [] then seqs st else filter (\<lambda>s. \<not> finished (hk s)) (seqs st))"
    and "engine_inv e dims amax lm w st'"
    using ev inv by (auto simp: engine_inv_def split: if_splits)
qed

lemma engine_reach_inv:
  assumes "engine_reach e w st" and ctx: "2 \<le> context_limit e"
  shows "engine_inv e dims amax lm w st"
  using assms(1)
proof (induction rule: engine_reach.induct)
  case (start w)
  then show ?case by (rule engine_inv_start)
next
  case (submit w st prompt ps rid sid w')
  then show ?case using engine_inv_submit(1) ctx by blast
next
  case (admit w st new st' w')
  then show ?case using engine_inv_admit(1) by blast
next
  case (decode w st st' w')
  then show ?case using engine_inv_decode(1) by blast
next
  case (evict w st h' A st' gone)
  then show ?case using engine_inv_abandon engine_inv_evict(1) by blast
next
  case (abandon w st A)
  then show ?case by (intro engine_inv_abandon)
next
  case (reset w st)
  then show ?case by (intro engine_inv_reset)
next
  case (elapse w st c r)
  then show ?case by (intro engine_inv_elapse)
qed

end

end
