(* ===== verification/Generation.thy ===== *)
theory Generation
  imports EngineRun
begin

text \<open>
  The engine's own entry points, \<open>generate_with_kv_cache\<close>, \<open>generate_batch\<close> and
  \<open>generate_without_cache\<close>: their loops end, and for greedy parameters all three return the text of
  the reference \<open>solo\<close>.

  The locale \<open>serving\<close> adds to the network's contract that a call inside its window does not
  raise. Without it the loops still end (a call that raises ends them), which is proved first.
\<close>

section \<open>Calls that do not raise\<close>

lemma add_to_group_keys: "fst ` set (add_to_group k r gs) = insert k (fst ` set gs)"
  by (induction k r gs rule: add_to_group.induct) auto

lemma group_rows_keys: "fst ` set (group_rows r ps gs) \<subseteq> fst ` set gs \<union> key_of ` set ps"
proof (induction ps arbitrary: r gs)
  case Nil
  then show ?case by simp
next
  case (Cons p ps)
  show ?case using Cons [of "Suc r" "add_to_group (key_of p) r gs"] by (auto simp: add_to_group_keys)
qed

lemma sample_groups_greedy:
  "\<forall>(key, rs)\<in>set gs. fle (temperature (group_params key)) (Fin 0) \<Longrightarrow>
    \<exists>t. sample_groups F I l gs out g = Inr (t, g)"
  by (induction gs arbitrary: out) (auto simp: sample_def)

text \<open>Greedy sampling neither raises nor draws.\<close>

lemma sample_batch_greedy:
  assumes "\<forall>p\<in>set ps. fle (temperature p) (Fin 0)"
  shows "\<exists>t. sample_batch F I l ps g = Inr (t, g)"
proof -
  have "fle (temperature (group_params key)) (Fin 0)" if "(key, rs) \<in> set (group_rows 0 ps [])" for key rs
  proof -
    have "key \<in> fst ` set (group_rows 0 ps [])" using that by force
    then obtain p where "p \<in> set ps" "key = key_of p" using group_rows_keys [of 0 ps "[]"] by auto
    then show ?thesis using assms by (simp add: key_of_def)
  qed
  then have "\<forall>(key, rs)\<in>set (group_rows 0 ps []). fle (temperature (group_params key)) (Fin 0)" by auto
  from sample_groups_greedy [OF this, of F I l] show ?thesis by (auto simp: sample_batch_def)
qed

lemma emit_greedy:
  assumes "\<forall>j\<in>set (seqs state). greedy (heap w j)"
  shows "\<exists>r. emit e state logits w = Inr r"
  using sample_batch_greedy [of "map (\<lambda>i. params (heap w i)) (seqs state)" "flib e" "ilib e" logits "rng w"] assms
  by (auto simp: emit_def greedy_def split: prod.splits)

locale serving = network +
  assumes forward_total: "shape (ilib e) ids = [b, n] \<Longrightarrow> shape (ilib e) attn = [b, l + n] \<Longrightarrow>
      shape (ilib e) pos = [b, n] \<Longrightarrow> 0 < b \<Longrightarrow> 0 < n \<Longrightarrow>
      l = 0 \<and> past = NoPast \<or> cache_shape (flib e) dims b l (from_cache (clib e) past) \<Longrightarrow>
      (\<forall>i<b. \<forall>j<n. 0 \<le> elem (ilib e) pos [i, j] \<and> elem (ilib e) pos [i, j] < context_limit e) \<Longrightarrow>
      \<exists>r. forward e ids attn pos past = Inr r"
    and forward_plain_total: "shape (ilib e) ids = [1, n] \<Longrightarrow> 0 < n \<Longrightarrow> int n \<le> context_limit e \<Longrightarrow>
      \<exists>lg. forward_plain e ids = Inr lg"

section \<open>Position ids\<close>

lemma unfinished_room:
  assumes "tracks e am lm s" "seq_ok e s" "\<not> finished s"
  shows "int (total_length s) < context_limit e"
    and "int (length (output_ids s)) < max_tokens (params s)"
  using assms
  by (auto simp: tracks_def finished_def seq_verdict_def verdict_def seq_ok_def total_length_def
      split: if_splits)

context network begin

text \<open>The position a row is fed at is the number of its tokens that precede the one fed.\<close>

lemma decode_positions:
  assumes inv: "batch_inv e dims lm (heap w) st"
    and m: "attn_mask st = Some m" and i: "i < length (seqs st)"
    and live: "\<not> finished (heap w (seqs st ! i))"
    and attn: "attn = cat (ilib e) [m, full (ilib e) [length (seqs st), 1] 1] 1"
  shows "elem (ilib e) (sub_scalar (ilib e) (sum_keepdim (ilib e) attn) 1) [i, 0]
      = int (total_length (heap w (seqs st ! i))) - 1"
    and "shape (ilib e) (sub_scalar (ilib e) (sum_keepdim (ilib e) attn) 1) = [length (seqs st), 1]"
proof -
  let ?I = "ilib e" and ?n = "length (seqs st)"
  obtain width nx qs where st: "shape ?I m = [?n, width]"
    "\<forall>i<?n. row_inv e lm (heap w) st m nx width (qs ! i) i"
    using inv i m by (auto elim!: batch_invE)
  have q: "1 \<le> qs ! i" "qs ! i \<le> width" "row ?I m i = pad_mask width (qs ! i)"
    "Suc (qs ! i) = total_length (heap w (seqs st ! i))"
    using st(2) i live by (auto simp: row_inv_def Let_def total_length_def)
  have ones: "shape ?I (full ?I [?n, 1] 1) = [?n, 1]" "row ?I (full ?I [?n, 1] 1) i = [1]"
    using i by (auto simp: row_def I.shape_full I.elem_full intro!: nth_equalityI)
  have attnsh: "shape ?I attn = [?n, width + 1]"
    unfolding attn by (rule I.cat1_mat(1) [OF st(1) ones(1)])
  have arow: "row ?I attn i = pad_mask width (qs ! i) @ [1]"
    unfolding attn using I.cat1_mat(2) [OF st(1) ones(1) i] q(3) ones(2) by simp
  show "shape ?I (sub_scalar ?I (sum_keepdim ?I attn) 1) = [?n, 1]"
    using I.sum_keepdim_mat(1) [OF attnsh] by (simp add: I.shape_sub_scalar)
  show "elem ?I (sub_scalar ?I (sum_keepdim ?I attn) 1) [i, 0]
      = int (total_length (heap w (seqs st ! i))) - 1"
    using I.sum_keepdim_mat [OF attnsh] arow i q
    by (simp add: I.elem_sub_scalar sum_list_pad_mask)
qed

end

section \<open>The operations return\<close>

context serving begin

lemma prefill_total:
  assumes ss: "ss \<noteq> []" and ok: "\<forall>j\<in>set ss. seq_ok e (heap w j) \<and> greedy (heap w j)"
  shows "\<exists>r. prefill e ss w = Inr r"
proof -
  let ?I = "ilib e" and ?n = "length ss"
  let ?prompts = "map (\<lambda>i. prompt_ids (heap w i)) ss"
  define width where "width = Max (set (map length ?prompts))"
  obtain ids attn where lp: "left_pad_sequences ?I ?prompts (pad_token_id e) = Inr (ids, attn)"
    and sh: "shape ?I ids = [?n, width]" "shape ?I attn = [?n, width]"
    and "\<forall>i<?n. row ?I ids i = padded (pad_token_id e) width (?prompts ! i)"
    and attn: "\<forall>i<?n. row ?I attn i = pad_mask width (length (?prompts ! i))"
    using I.left_pad_sequences_rows [of ?prompts width "pad_token_id e"] ss
    by (auto simp: width_def)
  have len: "length (?prompts ! i) \<le> width" "1 \<le> length (?prompts ! i)"
    "int (length (?prompts ! i)) < context_limit e" if "i < ?n" for i
  proof -
    have "?prompts ! i \<in> set ?prompts" using that by (intro nth_mem) simp
    then show "length (?prompts ! i) \<le> width" by (auto simp: width_def)
    have "seq_ok e (heap w (ss ! i))" using ok that by simp
    then show "1 \<le> length (?prompts ! i)" "int (length (?prompts ! i)) < context_limit e"
      using that by (auto simp: seq_ok_def Suc_le_eq)
  qed
  have n: "0 < ?n" and width: "0 < width" using ss len [of 0] by auto
  define pos where "pos = positions_from_mask ?I attn"
  have possh: "shape ?I pos = [?n, width]"
    unfolding pos_def by (rule I.positions_from_mask_rows(1) [OF sh(2)])
  have "0 \<le> elem ?I pos [i, j] \<and> elem ?I pos [i, j] < context_limit e" if i: "i < ?n" and j: "j < width" for i j
  proof -
    have "row ?I pos i = padded 0 width (map int [0..<length (?prompts ! i)])"
      unfolding pos_def
      using I.positions_from_mask_rows(2) [OF sh(2) i, of "length (?prompts ! i)"] attn len i by simp
    moreover have "elem ?I pos [i, j] = row ?I pos i ! j" using possh j by (simp add: nth_row)
    ultimately show ?thesis using len [OF i] j by (auto simp: padded_def nth_append)
  qed
  then obtain past lg where "forward e ids attn pos NoPast = Inr (past, lg)"
    using forward_total [OF sh(1), of attn 0 pos NoPast] sh(2) possh n width by force
  then show ?thesis
    using ss lp emit_greedy [of "\<lparr>seqs = ss, cache = from_cache (clib e) past,
        attn_mask = Some attn, next_tokens = None\<rparr>" w e] ok
    by (simp add: prefill_def pos_def)
qed

lemma decode_total:
  assumes inv: "engine_inv e dims amax lm w st"
    and live: "\<forall>j\<in>set (seqs st). \<not> finished (heap w j) \<and> greedy (heap w j)"
  shows "\<exists>r. decode_step e st w = Inr r"
proof (cases "seqs st = []")
  case True
  then show ?thesis by (simp add: decode_step_def)
next
  case False
  let ?I = "ilib e" and ?n = "length (seqs st)"
  note bi = engine_invD(1) [OF inv]
  from bi False obtain m nx width where st: "attn_mask st = Some m" "next_tokens st = Some nx"
    "shape ?I m = [?n, width]" "shape ?I nx = [?n, 1]"
    "cache_shape (flib e) dims ?n width (cache st)" by (auto elim!: batch_invE)
  define attn where "attn = cat ?I [m, full ?I [?n, 1] 1] 1"
  define pos where "pos = sub_scalar ?I (sum_keepdim ?I attn) 1"
  have n: "0 < ?n" using False by simp
  have lv: "\<not> finished (heap w (seqs st ! i))" if "i < ?n" for i using live that by simp
  note dp = decode_positions [OF bi st(1) _ lv attn_def, folded pos_def]
  have attnsh: "shape ?I attn = [?n, width + 1]"
    unfolding attn_def by (rule I.cat1_mat(1) [OF st(3) I.shape_full])
  have "0 \<le> elem ?I pos [i, 0] \<and> elem ?I pos [i, 0] < context_limit e" if i: "i < ?n" for i
  proof -
    have j: "seqs st ! i \<in> issued w" using engine_invD(2) [OF inv] i by (meson nth_mem subsetD)
    have "prompt_ids (heap w (seqs st ! i)) \<noteq> []"
      using engine_invD(3) [OF inv j] by (simp add: seq_ok_def)
    then show ?thesis
      using dp(1) [OF i i] unfinished_room(1) [OF engine_invD(4) [OF inv j] engine_invD(3) [OF inv j] lv [OF i]]
      by (cases "prompt_ids (heap w (seqs st ! i))") (auto simp: total_length_def)
  qed
  then obtain past lg where "forward e nx attn pos (to_cache (clib e) (cache st)) = Inr (past, lg)"
    using forward_total [OF st(4) attnsh dp(2) [OF n n] n] st(5) by (force simp: from_to_cache)
  then show ?thesis
    using False st(1,2) emit_greedy [of "st\<lparr>cache := from_cache (clib e) past,
        attn_mask := Some attn\<rparr>" w e] live
    by (simp add: decode_step_def Let_def attn_def pos_def)
qed

end

section \<open>The loops end\<close>

text \<open>How a sequence may change while the engine works on it.\<close>

definition grown :: "seq \<Rightarrow> seq \<Rightarrow> bool" where
  "grown s s' \<longleftrightarrow> prompt_ids s' = prompt_ids s \<and> params s' = params s \<and>
     (finished s \<longrightarrow> s' = s) \<and>
     (finish_reason s \<noteq> Some ''abandoned'' \<longrightarrow> finish_reason s' \<noteq> Some ''abandoned'')"

lemma grown_refl [simp]: "grown s s"
  by (simp add: grown_def)

lemma grown_trans: "grown s s' \<Longrightarrow> grown s' s'' \<Longrightarrow> grown s s''"
  by (auto simp: grown_def)

lemma grown_greedy: "grown s s' \<Longrightarrow> greedy s' = greedy s"
  by (simp add: grown_def greedy_def)

lemma grown_emit_row: "grown s (emit_row e now t s)"
proof (cases "finished s")
  case True
  then show ?thesis by (simp add: emit_row_finished)
next
  case False
  then show ?thesis
    using emit_row_reason [OF False, of e now t] seq_verdict_not_abandoned [of e s "output_ids s @ [t]"]
    by (simp add: grown_def)
qed

lemma advanced_grown: "advanced e am lm S h h' \<Longrightarrow> grown (h j) (h' j)"
  unfolding advanced_def by (metis grown_emit_row grown_refl)

definition remaining :: "seq \<Rightarrow> nat" where
  "remaining s = nat (max_tokens (params s)) - length (output_ids s)"

lemma remaining_advanced:
  assumes adv: "advanced e am lm S h h'" and j: "j \<in> S" and live: "\<not> finished (h j)"
    and tr: "tracks e am lm (h j)" and ok: "seq_ok e (h j)"
  shows "remaining (h' j) < remaining (h j)"
proof -
  obtain t where t: "output_ids (h' j) = output_ids (h j) @ [t]"
    using advanced_output [OF adv j live] by blast
  have "length (output_ids (h j)) < nat (max_tokens (params (h j)))"
    using unfinished_room(2) [OF tr ok live] by linarith
  then show ?thesis
    using t advanced_fixed(2) [OF adv] by (simp add: remaining_def)
qed

context network begin

text \<open>
  \<open>decode_until_finished\<close> returns: either the sequence is finished, or some decode step of an
  unfinished sequence raised.
\<close>

lemma decode_until_finished_returns:
  assumes "engine_inv e dims amax lm w st" "seqs st = [sid]" "remaining (heap w sid) \<le> n"
  shows "(\<exists>w' st'. decode_until_finished e sid st w = Some (Inr w') \<and> engine_inv e dims amax lm w' st' \<and>
      issued w' = issued w \<and> finished (heap w' sid) \<and> grown (heap w sid) (heap w' sid)) \<or>
    (\<exists>ex st' w'. decode_until_finished e sid st w = Some (Inl ex) \<and> engine_inv e dims amax lm w' st' \<and>
      seqs st' = [sid] \<and> \<not> finished (heap w' sid) \<and> grown (heap w sid) (heap w' sid) \<and>
      decode_step e st' w' = Inl ex)"
  using assms
proof (induction n arbitrary: w st)
  case 0
  have sid: "sid \<in> issued w" using engine_invD(2) [OF 0(1)] 0(2) by simp
  have "finished (heap w sid)"
  proof (rule ccontr)
    assume "\<not> finished (heap w sid)"
    from unfinished_room(2) [OF engine_invD(4) [OF 0(1) sid] engine_invD(3) [OF 0(1) sid] this]
    show False using 0(3) by (simp add: remaining_def)
  qed
  then show ?case using 0 by (auto simp: decode_until_finished.simps intro!: exI [of _ st])
next
  case (Suc n)
  have sid: "sid \<in> issued w" using engine_invD(2) [OF Suc.prems(1)] Suc.prems(2) by simp
  show ?case
  proof (cases "finished (heap w sid)")
    case True
    then show ?thesis using Suc.prems by (auto simp: decode_until_finished.simps intro!: exI [of _ st])
  next
    case live: False
    show ?thesis
    proof (cases "decode_step e st w")
      case (Inl ex)
      then have "decode_until_finished e sid st w = Some (Inl ex)"
        using live by (simp add: decode_until_finished.simps)
      then show ?thesis using live Inl Suc.prems by (auto intro!: exI [of _ st])
    next
      case (Inr r)
      obtain st1 w1 where dec: "decode_step e st w = Inr (st1, w1)" using Inr by (cases r) simp
      note D = engine_inv_decode [OF Suc.prems(1) dec]
      have "remaining (heap w1 sid) < remaining (heap w sid)"
        by (rule remaining_advanced [OF D(3) _ live engine_invD(4) [OF Suc.prems(1) sid]
              engine_invD(3) [OF Suc.prems(1) sid]]) (simp add: Suc.prems(2))
      then have "remaining (heap w1 sid) \<le> n" using Suc.prems(3) by simp
      note IH = Suc.IH [OF D(1) D(2) [unfolded Suc.prems(2)] this]
      have step: "decode_until_finished e sid st w = decode_until_finished e sid st1 w1"
        using live dec by (subst decode_until_finished.simps) simp
      have g: "grown (heap w sid) s" if "grown (heap w1 sid) s" for s
        by (rule grown_trans [OF advanced_grown [OF D(3)] that])
      have iss: "issued w1 = issued w" using D(4) by (simp add: issued_def)
      from IH show ?thesis unfolding step iss
        using g by blast
    qed
  qed
qed

text \<open>The work left in a batch shrinks with every round of \<open>generate_batch\<close>.\<close>

definition work :: "(nat \<Rightarrow> seq) \<Rightarrow> nat list \<Rightarrow> nat" where
  "work h js = sum_list (map (\<lambda>j. remaining (h j)) js)"

lemma work_filter: "work h (filter P js) \<le> work h js"
  by (induction js) (auto simp: work_def)

lemma work_less:
  "js \<noteq> [] \<Longrightarrow> \<forall>j\<in>set js. remaining (h' j) < remaining (h j) \<Longrightarrow> work h' js < work h js"
proof (induction js)
  case Nil
  then show ?case by simp
next
  case (Cons j js)
  then show ?case by (cases js) (force simp: work_def)+
qed

lemma evict_finished_live:
  assumes inv: "engine_inv e dims amax lm w st" and ev: "evict_finished e st w = Inr (st', gone)"
  shows "engine_inv e dims amax lm w st'"
    and "seqs st' = filter (\<lambda>j. \<not> finished (heap w j)) (seqs st)"
    and "gone = filter (\<lambda>j. finished (heap w j)) (seqs st)"
proof -
  note E = engine_inv_evict [OF inv ev [unfolded evict_finished_def]]
  show "engine_inv e dims amax lm w st'" "gone = filter (\<lambda>j. finished (heap w j)) (seqs st)"
    by (rule E)+
  show "seqs st' = filter (\<lambda>j. \<not> finished (heap w j)) (seqs st)"
  proof (cases "gone = []")
    case True
    then have "filter (\<lambda>j. \<not> finished (heap w j)) (seqs st) = seqs st"
      using E(2) by (simp add: filter_empty_conv filter_id_conv)
    then show ?thesis using E(3) True by simp
  next
    case False
    then show ?thesis using E(3) by simp
  qed
qed

lemma evict_finished_total:
  assumes "engine_inv e dims amax lm w st"
  obtains st' gone where "evict_finished e st w = Inr (st', gone)"
  using evict_scan_inv [OF engine_invD(1) [OF assms]] unfolding evict_finished_def by metis

end

context network begin

lemma batch_loop_returns:
  assumes "engine_inv e dims amax lm w st" "work (heap w) (seqs st) \<le> n"
  shows "(\<exists>w' st'. batch_loop e st w = Some (Inr w') \<and> engine_inv e dims amax lm w' st' \<and>
      issued w' = issued w \<and> (\<forall>j\<in>set (seqs st). finished (heap w' j)) \<and>
      (\<forall>j. grown (heap w j) (heap w' j))) \<or>
    (\<exists>ex st' w'. batch_loop e st w = Some (Inl ex) \<and> engine_inv e dims amax lm w' st' \<and>
      set (seqs st') \<subseteq> set (seqs st) \<and> (\<forall>j\<in>set (seqs st'). \<not> finished (heap w' j)) \<and>
      (\<forall>j. grown (heap w j) (heap w' j)) \<and> decode_step e st' w' = Inl ex)"
  using assms
proof (induction n arbitrary: w st rule: less_induct)
  case (less n)
  note inv = less.prems(1)
  obtain st1 gone where ev: "evict_finished e st w = Inr (st1, gone)"
    by (rule evict_finished_total [OF inv])
  note E = evict_finished_live [OF inv ev]
  show ?case
  proof (cases "seqs st1 = []")
    case True
    have "batch_loop e st w = Some (Inr w)"
      using ev True by (subst batch_loop.simps) simp
    moreover have "\<forall>j\<in>set (seqs st). finished (heap w j)"
      using True unfolding E(2) by (simp add: filter_empty_conv)
    ultimately show ?thesis using inv by (intro disjI1 exI [of _ w] exI [of _ st]) simp
  next
    case ne: False
    then have ne0: "seqs st \<noteq> []" using E(2) by auto
    have live: "\<forall>j\<in>set (seqs st1). \<not> finished (heap w j)" by (simp add: E(2))
    show ?thesis
    proof (cases "decode_step e st1 w")
      case (Inl ex)
      then have "batch_loop e st w = Some (Inl ex)"
        using ev ne ne0 by (subst batch_loop.simps) simp
      then show ?thesis
        using Inl E(1) live by (intro disjI2 exI [of _ ex] exI [of _ st1] exI [of _ w]) (simp add: E(2))
    next
      case (Inr r)
      obtain st2 w2 where dec: "decode_step e st1 w = Inr (st2, w2)" using Inr by (cases r) simp
      note D = engine_inv_decode [OF E(1) dec]
      have step: "batch_loop e st w = batch_loop e st2 w2"
        using ev ne ne0 dec by (subst batch_loop.simps) simp
      have shrink: "remaining (heap w2 j) < remaining (heap w j)" if "j \<in> set (seqs st1)" for j
      proof -
        have j: "j \<in> issued w" using engine_invD(2) [OF E(1)] that by auto
        show ?thesis
          by (rule remaining_advanced [OF D(3) that _ engine_invD(4) [OF inv j] engine_invD(3) [OF inv j]])
            (use live that in simp)
      qed
      then have "work (heap w2) (seqs st2) < work (heap w) (seqs st1)"
        unfolding D(2) using ne by (intro work_less) auto
      also have "\<dots> \<le> work (heap w) (seqs st)" unfolding E(2) by (rule work_filter)
      finally have "work (heap w2) (seqs st2) < n" using less.prems(2) by simp
      note IH = less.IH [OF this D(1) order_refl]
      have gw: "grown (heap w j) (heap w2 j)" for j by (rule advanced_grown [OF D(3)])
      have g: "\<forall>j. grown (heap w j) (h j)" if "\<forall>j. grown (heap w2 j) (h j)" for h
        using that gw grown_trans by blast
      have iss: "issued w2 = issued w" using D(4) by (simp add: issued_def)
      have sub: "set (seqs st2) \<subseteq> set (seqs st)" using D(2) E(2) by auto
      have fin: "\<forall>j\<in>set (seqs st). finished (h j)"
        if "\<forall>j. grown (heap w2 j) (h j)" "\<forall>j\<in>set (seqs st2). finished (h j)" for h
      proof
        fix j assume j: "j \<in> set (seqs st)"
        show "finished (h j)"
        proof (cases "finished (heap w j)")
          case True
          then have "h j = heap w j" using g [OF that(1)] by (simp add: grown_def)
          then show ?thesis using True by simp
        next
          case False
          then have "j \<in> set (seqs st2)" using j D(2) E(2) by simp
          then show ?thesis using that(2) by simp
        qed
      qed
      show ?thesis
        using IH
      proof
        assume "\<exists>w' st'. batch_loop e st2 w2 = Some (Inr w') \<and> engine_inv e dims amax lm w' st' \<and>
          issued w' = issued w2 \<and> (\<forall>j\<in>set (seqs st2). finished (heap w' j)) \<and>
          (\<forall>j. grown (heap w2 j) (heap w' j))"
        then obtain w' st' where "batch_loop e st2 w2 = Some (Inr w')" "engine_inv e dims amax lm w' st'"
          "issued w' = issued w2" "\<forall>j\<in>set (seqs st2). finished (heap w' j)"
          "\<forall>j. grown (heap w2 j) (heap w' j)" by blast
        then show ?thesis
          unfolding step using g fin iss by (intro disjI1 exI [of _ w'] exI [of _ st']) simp
      next
        assume "\<exists>ex st' w'. batch_loop e st2 w2 = Some (Inl ex) \<and> engine_inv e dims amax lm w' st' \<and>
          set (seqs st') \<subseteq> set (seqs st2) \<and> (\<forall>j\<in>set (seqs st'). \<not> finished (heap w' j)) \<and>
          (\<forall>j. grown (heap w2 j) (heap w' j)) \<and> decode_step e st' w' = Inl ex"
        then obtain ex st' w' where "batch_loop e st2 w2 = Some (Inl ex)"
          "engine_inv e dims amax lm w' st'" "set (seqs st') \<subseteq> set (seqs st2)"
          "\<forall>j\<in>set (seqs st'). \<not> finished (heap w' j)" "\<forall>j. grown (heap w2 j) (heap w' j)"
          "decode_step e st' w' = Inl ex" by blast
        then show ?thesis
          unfolding step using g sub
          by (intro disjI2 exI [of _ ex] exI [of _ st'] exI [of _ w']) auto
      qed
    qed
  qed
qed

end

section \<open>The sequences of one call\<close>

text \<open>\<open>sids\<close> are new sequences for \<open>prompts\<close>, all with the parameters \<open>p\<close>.\<close>

definition made :: "('f, 'i, 'b, 'd, 'r) engine \<Rightarrow> sampling_params \<Rightarrow> string list \<Rightarrow> nat list \<Rightarrow>
    'r world \<Rightarrow> bool" where
  "made e p prompts sids w \<longleftrightarrow> distinct sids \<and> set sids \<subseteq> issued w \<and>
     list_all2 (\<lambda>x j. prompt_ids (heap w j) = encode e x \<and> params (heap w j) = clamp (config e) p \<and>
       output_ids (heap w j) = [] \<and> finish_reason (heap w j) = None) prompts sids"

lemma make_sequences_made:
  assumes "make_sequences e p prompts w = (sids, w')" and "1 \<le> next_seq_id w"
  shows "made e p prompts sids w' \<and> issued w \<subseteq> issued w' \<and> set sids \<inter> issued w = {} \<and>
    (\<forall>j\<in>issued w. heap w' j = heap w j) \<and> 1 \<le> next_seq_id w'"
  using assms
proof (induction prompts arbitrary: w sids)
  case Nil
  then show ?case by (simp add: made_def)
next
  case (Cons x xs)
  obtain sid w1 where one: "make_sequence e x (Some p) '''' w = (sid, w1)" by fastforce
  obtain sids1 where rest: "make_sequences e p xs w1 = (sids1, w')" and sids: "sids = sid # sids1"
    using Cons.prems(1) one by (auto split: prod.splits)
  have w1: "sid = next_seq_id w" "issued w1 = insert sid (issued w)" "1 \<le> next_seq_id w1" "sid \<notin> issued w"
    "\<forall>j\<in>issued w. heap w1 j = heap w j" "prompt_ids (heap w1 sid) = encode e x"
    "params (heap w1 sid) = clamp (config e) p" "output_ids (heap w1 sid) = []"
    "finish_reason (heap w1 sid) = None"
    using one Cons.prems(2) by (auto simp: make_sequence_eq issued_def)
  note IH = Cons.IH [OF rest w1(3)]
  then have "heap w' sid = heap w1 sid" using w1(2) by auto
  then show ?case using IH w1 unfolding sids made_def by auto
qed

lemma make_sequences_inv:
  "engine_inv e dims am lm w st \<Longrightarrow> 2 \<le> context_limit e \<Longrightarrow>
    make_sequences e p prompts w = (sids, w') \<Longrightarrow> engine_inv e dims am lm w' st"
proof (induction prompts arbitrary: w sids)
  case Nil
  then show ?case by simp
next
  case (Cons x xs)
  then show ?case by (fastforce dest: engine_inv_submit(1) split: prod.splits)
qed

section \<open>What the entry points return\<close>

definition budget :: "('f, 'i, 'b, 'd, 'r) engine \<Rightarrow> int \<Rightarrow> int" where
  "budget e n = max 1 (min n (max_new_tokens (config e)))"

lemma clamp_budget: "max_tokens (clamp (config e) p) = budget e (max_tokens p)"
  by (simp add: clamp_def budget_def)

text \<open>The output of a finished sequence, in terms of its prompt and parameters.\<close>

lemma finished_output:
  assumes tr: "tracks e am lm s" and ok: "seq_ok e s"
    and fin: "finished s" "finish_reason s \<noteq> Some ''abandoned''"
  obtains r where
    "verdict (eos_token_id e) (context_limit e) (max_tokens (params s)) (prompt_ids s) (output_ids s) = Some r"
    "greedy s \<Longrightarrow> solo am lm (eos_token_id e) (context_limit e) (max_tokens (params s)) (prompt_ids s)
      = (output_ids s, r)"
proof -
  obtain r where r: "finish_reason s = Some r" "r \<noteq> ''abandoned''"
    using fin by (auto simp: finished_def)
  then have "seq_verdict e s (output_ids s) = Some r" using tr by (simp add: tracks_def)
  then show ?thesis
    using that [of r] tracks_solo [OF tr _ ok r] by (simp add: seq_verdict_def)
qed

context network begin

lemma prefill_engine_inv:
  assumes inv: "engine_inv e dims amax lm w st" and ss: "distinct ss" "set ss \<subseteq> issued w"
    "\<forall>j\<in>set ss. output_ids (heap w j) = []" and pre: "prefill e ss w = Inr (st', w')"
  shows "engine_inv e dims amax lm w' st'" and "seqs st' = ss"
    and "advanced e amax lm (set ss) (heap w) (heap w')" and "next_seq_id w' = next_seq_id w"
proof -
  have "admit e empty_state ss w = Inr (st', w')"
    using pre by (auto simp: admit_def prefill_def)
  note A = engine_inv_admit [OF engine_inv_reset [OF inv] ss(1) _ ss(3) this, simplified, OF ss(2)]
  then show "engine_inv e dims amax lm w' st'" and "seqs st' = ss"
    and "advanced e amax lm (set ss) (heap w) (heap w')" and "next_seq_id w' = next_seq_id w"
    by auto
qed

text \<open>The state after the prefill of one call's sequences, as the loops need it.\<close>

lemma made_prefilled:
  assumes inv: "engine_inv e dims amax lm w st" and mk: "made e p prompts sids w"
    and pre: "prefill e sids w = Inr (st', w')"
  shows "engine_inv e dims amax lm w' st'" and "seqs st' = sids" and "issued w' = issued w"
    and "\<forall>j. grown (heap w j) (heap w' j)"
proof -
  have out: "\<forall>j\<in>set sids. output_ids (heap w j) = []"
    using mk by (auto simp: made_def list_all2_conv_all_nth in_set_conv_nth)
  note P = prefill_engine_inv [OF inv _ _ out pre]
  show "engine_inv e dims amax lm w' st'" "seqs st' = sids" "issued w' = issued w"
    using P mk by (auto simp: made_def issued_def)
  show "\<forall>j. grown (heap w j) (heap w' j)"
    using P(3) mk advanced_grown by (auto simp: made_def)
qed

text \<open>What a made sequence has become once it is finished.\<close>

lemma made_finished:
  assumes inv: "engine_inv e dims amax lm w' st'" and mk: "made e p prompts sids w"
    and iss: "issued w' = issued w" and g: "grown (heap w (sids ! k)) (heap w' (sids ! k))"
    and fin: "finished (heap w' (sids ! k))" and k: "k < length sids"
  obtains r where
    "verdict (eos_token_id e) (context_limit e) (budget e (max_tokens p)) (encode e (prompts ! k))
      (output_ids (heap w' (sids ! k))) = Some r"
    "\<not> flt (Fin 0) (temperature p) \<Longrightarrow>
      solo amax lm (eos_token_id e) (context_limit e) (budget e (max_tokens p)) (encode e (prompts ! k))
      = (output_ids (heap w' (sids ! k)), r)"
proof -
  let ?s = "heap w' (sids ! k)"
  have j: "sids ! k \<in> issued w'" using mk iss k by (auto simp: made_def)
  have m: "prompt_ids ?s = encode e (prompts ! k)" "params ?s = clamp (config e) p"
    "finish_reason ?s \<noteq> Some ''abandoned''"
    using mk k g by (auto simp: made_def list_all2_conv_all_nth grown_def)
  show ?thesis
  proof (rule finished_output [OF engine_invD(4) [OF inv j] engine_invD(3) [OF inv j] fin m(3)])
    fix r
    assume r: "verdict (eos_token_id e) (context_limit e) (max_tokens (params ?s)) (prompt_ids ?s)
        (output_ids ?s) = Some r"
      "greedy ?s \<Longrightarrow> solo amax lm (eos_token_id e) (context_limit e) (max_tokens (params ?s))
        (prompt_ids ?s) = (output_ids ?s, r)"
    show ?thesis
      by (rule that [of r]) (use r m in \<open>simp_all add: clamp_budget greedy_def\<close>)
  qed
qed

lemma generate_with_kv_cache_returns:
  assumes inv: "engine_inv e dims amax lm w st" and ctx: "2 \<le> context_limit e"
  obtains (returned) outs r w' where
    "generate_with_kv_cache e prompt n ps w = Some (Inr (decode e outs,
       (case ps of None \<Rightarrow> default_params | Some p \<Rightarrow> p)\<lparr>max_tokens := n\<rparr>, w'))"
    "verdict (eos_token_id e) (context_limit e) (budget e n) (encode e prompt) outs = Some r"
    "\<not> flt (Fin 0) (temperature (case ps of None \<Rightarrow> default_params | Some p \<Rightarrow> p)) \<Longrightarrow>
      solo amax lm (eos_token_id e) (context_limit e) (budget e n) (encode e prompt) = (outs, r)"
  | (raised_prefill) ex sid w1 where
    "generate_with_kv_cache e prompt n ps w = Some (Inl ex)" "prefill e [sid] w1 = Inl ex"
    "engine_inv e dims amax lm w1 st" "sid \<in> issued w1"
    "params (heap w1 sid) = clamp (config e) ((case ps of None \<Rightarrow> default_params | Some p \<Rightarrow> p)\<lparr>max_tokens := n\<rparr>)"
  | (raised_decode) ex sid st1 w1 where
    "generate_with_kv_cache e prompt n ps w = Some (Inl ex)" "decode_step e st1 w1 = Inl ex"
    "engine_inv e dims amax lm w1 st1" "seqs st1 = [sid]" "\<not> finished (heap w1 sid)"
    "params (heap w1 sid) = clamp (config e) ((case ps of None \<Rightarrow> default_params | Some p \<Rightarrow> p)\<lparr>max_tokens := n\<rparr>)"
proof -
  define p where "p = (case ps of None \<Rightarrow> default_params | Some p \<Rightarrow> p)\<lparr>max_tokens := n\<rparr>"
  have p: "max_tokens p = n"
    "temperature p = temperature (case ps of None \<Rightarrow> default_params | Some p \<Rightarrow> p)" by (simp_all add: p_def)
  obtain sid w0 where mk1: "make_sequence e prompt (Some p) '''' w = (sid, w0)" by fastforce
  have mks: "make_sequences e p [prompt] w = ([sid], w0)" using mk1 by simp
  have inv0: "engine_inv e dims amax lm w0 st" by (rule make_sequences_inv [OF inv ctx mks])
  have made: "made e p [prompt] [sid] w0"
    using make_sequences_made [OF mks] inv by (simp add: engine_inv_def)
  have par: "params (heap w0 sid) = clamp (config e) p" "sid \<in> issued w0" using made by (auto simp: made_def)
  show ?thesis
  proof (cases "prefill e [sid] w0")
    case (Inl ex)
    then have "generate_with_kv_cache e prompt n ps w = Some (Inl ex)"
      using mk1 by (simp add: generate_with_kv_cache_def p_def [symmetric] Let_def)
    then show ?thesis using raised_prefill Inl inv0 par unfolding p_def [symmetric] by blast
  next
    case (Inr r)
    obtain st1 w1 where pre: "prefill e [sid] w0 = Inr (st1, w1)" using Inr by (cases r) simp
    note P = made_prefilled [OF inv0 made pre]
    have gen: "generate_with_kv_cache e prompt n ps w = map_option
        (\<lambda>r. try_bind r (\<lambda>w. Inr (decode e (output_ids (heap w sid)), p, w)))
        (decode_until_finished e sid st1 w1)"
      using mk1 pre by (simp add: generate_with_kv_cache_def p_def [symmetric] Let_def)
    have g1: "grown (heap w0 sid) (heap w1 sid)" using P(4) by blast
    from decode_until_finished_returns [OF P(1,2) order_refl] show ?thesis
    proof (elim disjE exE conjE)
      fix w' st'
      assume run: "decode_until_finished e sid st1 w1 = Some (Inr w')" "engine_inv e dims amax lm w' st'"
        "issued w' = issued w1" "finished (heap w' sid)" "grown (heap w1 sid) (heap w' sid)"
      have "\<exists>r. verdict (eos_token_id e) (context_limit e) (budget e n) (encode e prompt)
            (output_ids (heap w' sid)) = Some r \<and>
          (\<not> flt (Fin 0) (temperature p) \<longrightarrow>
            solo amax lm (eos_token_id e) (context_limit e) (budget e n) (encode e prompt)
              = (output_ids (heap w' sid), r))"
        using made_finished [OF run(2) made, of 0] run P(3) grown_trans [OF g1 run(5)] p(1)
        by (metis length_Cons nth_Cons_0 zero_less_Suc)
      then show ?thesis
        using returned [of "output_ids (heap w' sid)" w'] gen run(1) p(2) unfolding p_def [symmetric] by auto
    next
      fix ex st' w'
      assume run: "decode_until_finished e sid st1 w1 = Some (Inl ex)" "engine_inv e dims amax lm w' st'"
        "seqs st' = [sid]" "\<not> finished (heap w' sid)" "grown (heap w1 sid) (heap w' sid)"
        "decode_step e st' w' = Inl ex"
      have "params (heap w' sid) = clamp (config e) p"
        using grown_trans [OF g1 run(5)] par(1) by (simp add: grown_def)
      then show ?thesis
        using raised_decode [of ex st' w' sid] gen run unfolding p_def [symmetric] by simp
    qed
  qed
qed

end

text \<open>\<open>generate_batch\<close>: the same, for every prompt of the call.\<close>

context network begin

lemma generate_batch_returns:
  assumes inv: "engine_inv e dims amax lm w st" and ctx: "2 \<le> context_limit e"
    and p: "p = (case ps of None \<Rightarrow> default_params | Some p \<Rightarrow> p)\<lparr>max_tokens := n\<rparr>"
  obtains (returned) outs w' where
    "generate_batch e prompts n ps w = Some (Inr (map (decode e) outs, w'))"
    "length outs = length prompts"
    "\<forall>k<length prompts. \<exists>r.
      verdict (eos_token_id e) (context_limit e) (budget e n) (encode e (prompts ! k)) (outs ! k) = Some r \<and>
      (\<not> flt (Fin 0) (temperature p) \<longrightarrow>
        solo amax lm (eos_token_id e) (context_limit e) (budget e n) (encode e (prompts ! k)) = (outs ! k, r))"
  | (raised_prefill) ex sids w1 where
    "generate_batch e prompts n ps w = Some (Inl ex)" "prefill e sids w1 = Inl ex"
    "engine_inv e dims amax lm w1 st" "set sids \<subseteq> issued w1"
    "\<forall>j\<in>set sids. params (heap w1 j) = clamp (config e) p"
  | (raised_decode) ex st1 w1 where
    "generate_batch e prompts n ps w = Some (Inl ex)" "decode_step e st1 w1 = Inl ex"
    "engine_inv e dims amax lm w1 st1"
    "\<forall>j\<in>set (seqs st1). \<not> finished (heap w1 j) \<and> params (heap w1 j) = clamp (config e) p"
proof -
  define base where "base = (case ps of None \<Rightarrow> default_params | Some p \<Rightarrow> p)"
  have pb: "\<lparr>max_tokens = n, temperature = temperature base, top_k = top_k base, top_p = top_p base\<rparr> = p"
    unfolding p base_def [symmetric] by (cases base) simp
  have pn: "max_tokens p = n" by (simp add: p)
  obtain sids w0 where mks: "make_sequences e p prompts w = (sids, w0)" by fastforce
  have inv0: "engine_inv e dims amax lm w0 st" by (rule make_sequences_inv [OF inv ctx mks])
  have made: "made e p prompts sids w0"
    using make_sequences_made [OF mks] inv by (simp add: engine_inv_def)
  have len: "length sids = length prompts" using made by (auto simp: made_def list_all2_lengthD)
  have par: "\<forall>j\<in>set sids. params (heap w0 j) = clamp (config e) p" "set sids \<subseteq> issued w0"
    using made by (auto simp: made_def list_all2_conv_all_nth in_set_conv_nth)
  show ?thesis
  proof (cases "prefill e sids w0")
    case (Inl ex)
    then have "generate_batch e prompts n ps w = Some (Inl ex)"
      using mks by (simp add: generate_batch_def base_def [symmetric] pb Let_def)
    then show ?thesis using raised_prefill Inl inv0 par by blast
  next
    case (Inr r)
    obtain st1 w1 where pre: "prefill e sids w0 = Inr (st1, w1)" using Inr by (cases r) simp
    note P = made_prefilled [OF inv0 made pre]
    have gen: "generate_batch e prompts n ps w = map_option
        (\<lambda>r. try_bind r (\<lambda>w. Inr (map (\<lambda>i. decode e (output_ids (heap w i))) sids, w)))
        (batch_loop e st1 w1)"
      using mks pre by (simp add: generate_batch_def base_def [symmetric] pb Let_def)
    from batch_loop_returns [OF P(1) order_refl] show ?thesis
    proof (elim disjE exE conjE)
      fix w' st'
      assume run: "batch_loop e st1 w1 = Some (Inr w')" "engine_inv e dims amax lm w' st'"
        "issued w' = issued w1" "\<forall>j\<in>set (seqs st1). finished (heap w' j)"
        "\<forall>j. grown (heap w1 j) (heap w' j)"
      let ?outs = "map (\<lambda>i. output_ids (heap w' i)) sids"
      have each: "\<exists>r. verdict (eos_token_id e) (context_limit e) (budget e n) (encode e (prompts ! k))
            (?outs ! k) = Some r \<and>
          (\<not> flt (Fin 0) (temperature p) \<longrightarrow>
            solo amax lm (eos_token_id e) (context_limit e) (budget e n) (encode e (prompts ! k))
              = (?outs ! k, r))" if k: "k < length prompts" for k
      proof -
        have "grown (heap w0 (sids ! k)) (heap w' (sids ! k))"
          using P(4) run(5) grown_trans by blast
        moreover have "finished (heap w' (sids ! k))" using run(4) P(2) k len by simp
        ultimately obtain r where
          "verdict (eos_token_id e) (context_limit e) (budget e (max_tokens p)) (encode e (prompts ! k))
            (output_ids (heap w' (sids ! k))) = Some r"
          "\<not> flt (Fin 0) (temperature p) \<Longrightarrow>
            solo amax lm (eos_token_id e) (context_limit e) (budget e (max_tokens p)) (encode e (prompts ! k))
            = (output_ids (heap w' (sids ! k)), r)"
          using made_finished [OF run(2) made, of k] run(3) P(3) k len by auto
        then show ?thesis using k len pn by (intro exI [of _ r]) simp
      qed
      have "generate_batch e prompts n ps w = Some (Inr (map (decode e) ?outs, w'))"
        using gen run(1) by (simp add: o_def)
      then show ?thesis by (rule returned) (use each len in auto)
    next
      fix ex st' w'
      assume run: "batch_loop e st1 w1 = Some (Inl ex)" "engine_inv e dims amax lm w' st'"
        "set (seqs st') \<subseteq> set (seqs st1)" "\<forall>j\<in>set (seqs st'). \<not> finished (heap w' j)"
        "\<forall>j. grown (heap w1 j) (heap w' j)" "decode_step e st' w' = Inl ex"
      have "params (heap w' j) = clamp (config e) p" if "j \<in> set (seqs st')" for j
      proof -
        have "j \<in> set sids" using that run(3) P(2) by auto
        moreover have "grown (heap w0 j) (heap w' j)" using P(4) run(5) grown_trans by blast
        ultimately show ?thesis using par(1) by (simp add: grown_def)
      qed
      then show ?thesis
        using raised_decode [of ex st' w'] gen run by simp
    qed
  qed
qed

end

section \<open>Greedy generation inside the window\<close>

context serving begin

lemma generate_with_kv_cache_solo:
  assumes inv: "engine_inv e dims amax lm w st" and ctx: "2 \<le> context_limit e"
    and p: "p = (case ps of None \<Rightarrow> default_params | Some p \<Rightarrow> p)"
    and g: "\<not> flt (Fin 0) (temperature p)"
  shows "\<exists>w'. generate_with_kv_cache e prompt n ps w = Some (Inr (decode e
      (fst (solo amax lm (eos_token_id e) (context_limit e) (budget e n) (encode e prompt))),
      p\<lparr>max_tokens := n\<rparr>, w'))"
proof (rule generate_with_kv_cache_returns [OF inv ctx, of prompt n ps])
  fix outs r w'
  assume "generate_with_kv_cache e prompt n ps w = Some (Inr (decode e outs,
      (case ps of None \<Rightarrow> default_params | Some p \<Rightarrow> p)\<lparr>max_tokens := n\<rparr>, w'))"
    "\<not> flt (Fin 0) (temperature (case ps of None \<Rightarrow> default_params | Some p \<Rightarrow> p)) \<Longrightarrow>
      solo amax lm (eos_token_id e) (context_limit e) (budget e n) (encode e prompt) = (outs, r)"
  then show ?thesis using g unfolding p by auto
next
  fix ex sid w1
  assume "prefill e [sid] w1 = Inl ex" "engine_inv e dims amax lm w1 st" "sid \<in> issued w1"
    "params (heap w1 sid) = clamp (config e) ((case ps of None \<Rightarrow> default_params | Some p \<Rightarrow> p)\<lparr>max_tokens := n\<rparr>)"
  then show ?thesis
    using prefill_total [of "[sid]" w1] engine_invD(3) g unfolding p [symmetric] greedy_def by fastforce
next
  fix ex sid st1 w1
  assume "decode_step e st1 w1 = Inl ex"
    "engine_inv e dims amax lm w1 st1" "seqs st1 = [sid]" "\<not> finished (heap w1 sid)"
    "params (heap w1 sid) = clamp (config e) ((case ps of None \<Rightarrow> default_params | Some p \<Rightarrow> p)\<lparr>max_tokens := n\<rparr>)"
  then show ?thesis
    using decode_total [of w1 st1] g unfolding p [symmetric] greedy_def by fastforce
qed

lemma generate_batch_solo:
  assumes inv: "engine_inv e dims amax lm w st" and ctx: "2 \<le> context_limit e"
    and g: "\<not> flt (Fin 0) (temperature (case ps of None \<Rightarrow> default_params | Some p \<Rightarrow> p))"
  shows "\<exists>w'. generate_batch e prompts n ps w = Some (Inr (map (\<lambda>prompt. decode e
      (fst (solo amax lm (eos_token_id e) (context_limit e) (budget e n) (encode e prompt)))) prompts, w'))"
proof -
  define p where "p = (case ps of None \<Rightarrow> default_params | Some p \<Rightarrow> p)\<lparr>max_tokens := n\<rparr>"
  have gp: "\<not> flt (Fin 0) (temperature p)" "greedy s" if "params s = clamp (config e) p" for s
    using g that by (simp_all add: p_def greedy_def)
  have gq: "\<not> flt (Fin 0) (temperature p)" using g by (simp add: p_def)
  show ?thesis
  proof (rule generate_batch_returns [OF inv ctx p_def, of prompts])
    fix outs w'
    assume R: "generate_batch e prompts n ps w = Some (Inr (map (decode e) outs, w'))"
      "length outs = length prompts"
      "\<forall>k<length prompts. \<exists>r.
        verdict (eos_token_id e) (context_limit e) (budget e n) (encode e (prompts ! k)) (outs ! k) = Some r \<and>
        (\<not> flt (Fin 0) (temperature p) \<longrightarrow>
          solo amax lm (eos_token_id e) (context_limit e) (budget e n) (encode e (prompts ! k)) = (outs ! k, r))"
    have "map (decode e) outs = map (\<lambda>prompt. decode e
      (fst (solo amax lm (eos_token_id e) (context_limit e) (budget e n) (encode e prompt)))) prompts"
    proof (rule nth_equalityI)
      fix k assume "k < length (map (decode e) outs)"
      then have k: "k < length prompts" using R(2) by simp
      then obtain r where "solo amax lm (eos_token_id e) (context_limit e) (budget e n)
        (encode e (prompts ! k)) = (outs ! k, r)" using R(3) gq by blast
      then show "map (decode e) outs ! k = map (\<lambda>prompt. decode e
        (fst (solo amax lm (eos_token_id e) (context_limit e) (budget e n) (encode e prompt)))) prompts ! k"
        using k R(2) by simp
    qed (simp add: R(2))
    then show ?thesis using R(1) by simp
  next
    fix ex sids w1
    assume R: "prefill e sids w1 = Inl ex" "engine_inv e dims amax lm w1 st" "set sids \<subseteq> issued w1"
      "\<forall>j\<in>set sids. params (heap w1 j) = clamp (config e) p"
    have "sids \<noteq> []" using R(1) by (auto simp: prefill_def)
    then have "\<exists>r. prefill e sids w1 = Inr r"
      by (rule prefill_total) (use R engine_invD(3) [OF R(2)] gp(2) in blast)
    then show ?thesis using R(1) by simp
  next
    fix ex st1 w1
    assume R: "decode_step e st1 w1 = Inl ex" "engine_inv e dims amax lm w1 st1"
      "\<forall>j\<in>set (seqs st1). \<not> finished (heap w1 j) \<and> params (heap w1 j) = clamp (config e) p"
    have "\<exists>r. decode_step e st1 w1 = Inr r"
      by (rule decode_total [OF R(2)]) (use R(3) gp(2) in blast)
    then show ?thesis using R(1) by simp
  qed
qed

end

context serving begin

text \<open>One round of the uncached loop, for a text inside the window.\<close>

lemma nocache_round:
  assumes "ids @ generated \<noteq> []" and "int (length (ids @ generated)) \<le> context_limit e"
  shows "\<exists>lg. forward_plain e (of_rows (ilib e) [py_from (- context_limit e) (ids @ generated)]) = Inr lg \<and>
    elem (ilib e) (argmax (flib e) (last_position (flib e) lg)) [0] = next_token amax lm (ids @ generated)"
proof -
  let ?xs = "ids @ generated"
  define k where "k = nat (context_limit e)"
  have k: "context_limit e = int k" "0 < k"
  proof -
    have "0 < length ?xs" using assms(1) by blast
    then show "context_limit e = int k" "0 < k" using assms(2) unfolding k_def by linarith+
  qed
  have win: "py_from (- context_limit e) ?xs = ?xs"
    unfolding k(1) py_from_neg [OF k(2)] using assms(2) k(1) by simp
  define t where "t = of_rows (ilib e) [?xs]"
  have t: "shape (ilib e) t = [1, length ?xs]" "row (ilib e) t 0 = ?xs"
    unfolding t_def using I.of_rows [of "[?xs]" "length ?xs"]
    by (auto simp: row_def intro!: nth_equalityI)
  have n: "0 < length ?xs" using assms(1) by blast
  obtain lg where lg: "forward_plain e t = Inr lg"
    using forward_plain_total [OF t(1) n assms(2)] by blast
  note fp = forward_plain [OF lg t(1) n]
  note lp = last_position_row [OF conjunct1 [OF fp] n]
  have "elem (ilib e) (argmax (flib e) (last_position (flib e) lg)) [0]
      = int (amax (row (flib e) (last_position (flib e) lg) 0))"
    using argmax [OF lp(1) vocab] by simp
  also have "\<dots> = next_token amax lm ?xs"
    using lp(2) [of 0] fp t(2) by (simp add: next_token_def)
  finally show ?thesis using lg win unfolding t_def by auto
qed

lemma nocache_loop_solo:
  assumes "ids \<noteq> []" and "int (length ids) + n \<le> context_limit e"
    and "int (length generated) + int m = n"
  shows "nocache_loop e ids generated m = Inr (fst (solo_run (next_token amax lm)
    (verdict (eos_token_id e) (context_limit e) n ids) ids m generated))"
  using assms(3)
proof (induction m arbitrary: generated)
  case 0
  then show ?case by simp
next
  case (Suc m)
  have fits: "int (length (ids @ generated)) \<le> context_limit e" using Suc.prems assms(2) by simp
  obtain lg where lg:
    "forward_plain e (of_rows (ilib e) [py_from (- context_limit e) (ids @ generated)]) = Inr lg"
    "elem (ilib e) (argmax (flib e) (last_position (flib e) lg)) [0] = next_token amax lm (ids @ generated)"
    using nocache_round [OF _ fits] assms(1) by blast
  let ?t = "next_token amax lm (ids @ generated)"
  let ?v = "verdict (eos_token_id e) (context_limit e) n ids (generated @ [?t])"
  have step: "nocache_loop e ids generated (Suc m) =
      (if ?t = eos_token_id e then Inr (generated @ [?t])
       else nocache_loop e ids (generated @ [?t]) m)"
    using lg by (simp add: Let_def)
  have IH: "nocache_loop e ids (generated @ [?t]) m = Inr (fst (solo_run (next_token amax lm)
      (verdict (eos_token_id e) (context_limit e) n ids) ids m (generated @ [?t])))"
    by (rule Suc.IH) (use Suc.prems in simp)
  show ?case
  proof (cases "?t = eos_token_id e \<or> m = 0")
    case True
    then show ?thesis
      using step Suc.prems by (auto simp: verdict_def Let_def)
  next
    case False
    then have "?v = None" using Suc.prems assms(2) by (auto simp: verdict_def)
    then show ?thesis using step IH False by (simp add: Let_def)
  qed
qed

lemma generate_without_cache_solo:
  assumes "2 \<le> context_limit e" and "1 \<le> n"
    and "int (length (encode e prompt)) + n \<le> context_limit e"
  shows "generate_without_cache e prompt n = Inr (decode e (fst (solo amax lm
    (eos_token_id e) (context_limit e) n (encode e prompt))))"
  using nocache_loop_solo [OF encode_nonempty(1) [OF assms(1)] assms(3), of "[]" "nat n"] assms(2)
  by (simp add: generate_without_cache_def solo_def)

end

end
