(* ===== verification/Reference.thy ===== *)
theory Reference
  imports Generation
begin

text \<open>
  Reference instances of the interfaces: float tensors as index functions, and a family of causal
  networks over them. They show that the laws the development relies on hold together, and they
  compute, so the witnesses run the worker's code on them.

  A network of the family has one layer with one head of size one. It is given by the key and
  value \<open>ent\<close> computes from a token and its position, and the logits \<open>lgt\<close> computes from all visible
  entries. Padded columns are skipped, as the attention mask asks.
\<close>

section \<open>Float tensors\<close>

fun fadd :: "pyfloat \<Rightarrow> pyfloat \<Rightarrow> pyfloat" where
  "fadd (Fin x) (Fin y) = Fin (x + y)"
| "fadd NaN _ = NaN"
| "fadd _ NaN = NaN"
| "fadd PosInf NegInf = NaN"
| "fadd NegInf PosInf = NaN"
| "fadd PosInf _ = PosInf"
| "fadd NegInf _ = NegInf"
| "fadd _ y = y"

fun fneg :: "pyfloat \<Rightarrow> pyfloat" where
  "fneg NaN = NaN"
| "fneg NegInf = PosInf"
| "fneg PosInf = NegInf"
| "fneg (Fin x) = Fin (- x)"

definition ref_sub :: "pyfloat \<Rightarrow> pyfloat \<Rightarrow> pyfloat" where
  "ref_sub x y = fadd x (fneg y)"

fun ref_div :: "pyfloat \<Rightarrow> pyfloat \<Rightarrow> pyfloat" where
  "ref_div (Fin x) (Fin y) = (if y = 0 then (if 0 < x then PosInf else if x < 0 then NegInf else NaN) else Fin (x / y))"
| "ref_div (Fin x) NaN = NaN"
| "ref_div (Fin x) _ = Fin 0"
| "ref_div NaN _ = NaN"
| "ref_div x (Fin y) = (if y < 0 then fneg x else x)"
| "ref_div _ _ = NaN"

definition ref_max :: "pyfloat list \<Rightarrow> nat" where
  "ref_max xs = length (takeWhile (\<lambda>x. x \<noteq> Max (set xs)) xs)"

definition ref_order :: "pyfloat list \<Rightarrow> nat list" where
  "ref_order xs = rev (sort_key (\<lambda>j. xs ! j) [0..<length xs])"

definition ref_sorted :: "pyfloat list \<Rightarrow> pyfloat list" where
  "ref_sorted xs = map ((!) xs) (ref_order xs)"

text \<open>A stand-in for the softmax: the finite entries share the mass evenly.\<close>

definition is_finite :: "pyfloat \<Rightarrow> bool" where
  "is_finite x = (case x of Fin _ \<Rightarrow> True | _ \<Rightarrow> False)"

definition ref_smax :: "pyfloat list \<Rightarrow> pyfloat list" where
  "ref_smax xs = map (\<lambda>x. if is_finite x then Fin (1 / of_nat (length (filter is_finite xs))) else Fin 0) xs"

fun ref_csum_from :: "pyfloat \<Rightarrow> pyfloat list \<Rightarrow> pyfloat list" where
  "ref_csum_from acc [] = []"
| "ref_csum_from acc (x # xs) = fadd acc x # ref_csum_from (fadd acc x) xs"

definition ref_csum :: "pyfloat list \<Rightarrow> pyfloat list" where
  "ref_csum xs = (case xs of [] \<Rightarrow> [] | x # xs \<Rightarrow> x # ref_csum_from x xs)"

definition ften_row :: "'e ften \<Rightarrow> nat \<Rightarrow> 'e list" where
  "ften_row t i = map (\<lambda>j. felem t [i, j]) [0..<fshape t ! 1]"

definition ften_rowwise :: "('a list \<Rightarrow> 'b list) \<Rightarrow> 'a ften \<Rightarrow> 'b ften" where
  "ften_rowwise f t = Ften (fshape t) (\<lambda>ix. f (ften_row t (ix ! 0)) ! (ix ! 1))"

definition ref_multinomial :: "pyfloat ften \<Rightarrow> nat \<Rightarrow> exn + int ften \<times> nat" where
  "ref_multinomial t g =
     (let choices = (\<lambda>i. filter (\<lambda>j. felem t [i, j] \<noteq> Fin 0) [0..<fshape t ! 1])
      in if list_ex (\<lambda>i. choices i = []) [0..<fshape t ! 0]
         then Inl (RuntimeError ''invalid multinomial distribution'')
         else Inr (Ften [fshape t ! 0, 1]
                     (\<lambda>ix. int (choices (ix ! 0) ! (g mod length (choices (ix ! 0))))), Suc g))"

definition ref_float_ops :: "(pyfloat ften, int ften, bool ften, nat) float_ops" where
  "ref_float_ops =
     \<lparr>shape = fshape, elem = felem, zeros = (\<lambda>s. Ften s (\<lambda>_. Fin 0)),
      full = (\<lambda>s x. Ften s (\<lambda>_. x)), cat = ften_cat, index_select = ften_index_select,
      slice_from = ften_slice_from, numel = (\<lambda>t. prod_list (fshape t)), element_size = (\<lambda>_. 4),
      last_position = (\<lambda>t. Ften [fshape t ! 0, fshape t ! 2]
        (\<lambda>ix. felem t [ix ! 0, fshape t ! 1 - 1, ix ! 1])),
      argmax = (\<lambda>t. Ften [fshape t ! 0] (\<lambda>ix. int (ref_max (ften_row t (ix ! 0))))),
      div_scalar = (\<lambda>t c. ften_map (\<lambda>x. ref_div x c) t),
      topk_values = (\<lambda>t k. Ften [fshape t ! 0, k] (\<lambda>ix. ref_sorted (ften_row t (ix ! 0)) ! (ix ! 1))),
      last_column = (\<lambda>t. Ften [fshape t ! 0, 1] (\<lambda>ix. felem t [ix ! 0, fshape t ! 1 - 1])),
      lt_elem = (\<lambda>t u. Ften (fshape t) (\<lambda>ix. flt (felem t ix) (felem u [ix ! 0, 0]))),
      masked_fill = (\<lambda>t c x. Ften (fshape t) (\<lambda>ix. if felem c ix then x else felem t ix)),
      sort_descending = (\<lambda>t. (ften_rowwise ref_sorted t,
        ften_rowwise (\<lambda>xs. map int (ref_order xs)) t)),
      softmax = ften_rowwise ref_smax,
      fcumsum = ften_rowwise ref_csum,
      sub_elem = (\<lambda>t u. Ften (fshape t) (\<lambda>ix. ref_sub (felem t ix) (felem u ix))),
      gt_scalar = (\<lambda>t x. ften_map (\<lambda>y. flt x y) t),
      empty_like = (\<lambda>t. Ften (fshape t) (\<lambda>_. Fin 0)),
      scatter = (\<lambda>t ix u. Ften (fshape t) (\<lambda>a.
        case filter (\<lambda>k. felem ix [a ! 0, k] = int (a ! 1)) [0..<fshape ix ! 1] of
          [] \<Rightarrow> felem t a | k # _ \<Rightarrow> felem u [a ! 0, k])),
      multinomial = ref_multinomial,
      squeeze_last = (\<lambda>t. Ften [fshape t ! 0] (\<lambda>ix. felem t [ix ! 0, 0]))\<rparr>"

lemma ref_float_fields [simp]:
  "shape ref_float_ops = fshape" "elem ref_float_ops = felem"
  "bshape ften_long = fshape" "belem ften_long = felem"
  by (simp_all add: ref_float_ops_def ften_long_def)

lemma ref_ops [simp]:
  "last_position ref_float_ops = (\<lambda>t. Ften [fshape t ! 0, fshape t ! 2]
      (\<lambda>ix. felem t [ix ! 0, fshape t ! 1 - 1, ix ! 1]))"
  "argmax ref_float_ops = (\<lambda>t. Ften [fshape t ! 0] (\<lambda>ix. int (ref_max (ften_row t (ix ! 0)))))"
  "div_scalar ref_float_ops = (\<lambda>t c. ften_map (\<lambda>x. ref_div x c) t)"
  "topk_values ref_float_ops = (\<lambda>t k. Ften [fshape t ! 0, k] (\<lambda>ix. ref_sorted (ften_row t (ix ! 0)) ! (ix ! 1)))"
  "last_column ref_float_ops = (\<lambda>t. Ften [fshape t ! 0, 1] (\<lambda>ix. felem t [ix ! 0, fshape t ! 1 - 1]))"
  "lt_elem ref_float_ops = (\<lambda>t u. Ften (fshape t) (\<lambda>ix. flt (felem t ix) (felem u [ix ! 0, 0])))"
  "masked_fill ref_float_ops = (\<lambda>t c x. Ften (fshape t) (\<lambda>ix. if felem c ix then x else felem t ix))"
  "sort_descending ref_float_ops = (\<lambda>t. (ften_rowwise ref_sorted t,
      ften_rowwise (\<lambda>xs. map int (ref_order xs)) t))"
  "softmax ref_float_ops = ften_rowwise ref_smax"
  "fcumsum ref_float_ops = ften_rowwise ref_csum"
  "sub_elem ref_float_ops = (\<lambda>t u. Ften (fshape t) (\<lambda>ix. ref_sub (felem t ix) (felem u ix)))"
  "gt_scalar ref_float_ops = (\<lambda>t x. ften_map (\<lambda>y. flt x y) t)"
  "empty_like ref_float_ops = (\<lambda>t. Ften (fshape t) (\<lambda>_. Fin 0))"
  "scatter ref_float_ops = (\<lambda>t ix u. Ften (fshape t) (\<lambda>a.
      case filter (\<lambda>k. felem ix [a ! 0, k] = int (a ! 1)) [0..<fshape ix ! 1] of
      [] \<Rightarrow> felem t a | k # _ \<Rightarrow> felem u [a ! 0, k]))"
  "multinomial ref_float_ops = ref_multinomial"
  "squeeze_last ref_float_ops = (\<lambda>t. Ften [fshape t ! 0] (\<lambda>ix. felem t [ix ! 0, 0]))"
  by (simp_all add: ref_float_ops_def)

lemma ref_row [simp]: "row ref_float_ops = ften_row" "row ften_long = ften_row"
  by (rule ext, rule ext, simp add: row_def ften_row_def)+

lemma length_ften_row [simp]: "length (ften_row t i) = fshape t ! 1"
  by (simp add: ften_row_def)

lemma nth_ften_row [simp]: "j < fshape t ! 1 \<Longrightarrow> ften_row t i ! j = felem t [i, j]"
  by (simp add: ften_row_def)

lemma ften_row_rowwise:
  "fshape t = [b, v] \<Longrightarrow> (\<And>xs. length (f xs) = length xs) \<Longrightarrow> ften_row (ften_rowwise f t) i = f (ften_row t i)"
  by (auto simp: ften_rowwise_def ften_row_def intro!: nth_equalityI)

lemma length_ref_order [simp]: "length (ref_order xs) = length xs"
  by (simp add: ref_order_def)

lemma length_ref_sorted [simp]: "length (ref_sorted xs) = length xs"
  by (simp add: ref_sorted_def)

lemma mset_ref_order: "mset (ref_order xs) = mset [0..<length xs]"
  by (simp add: ref_order_def)

lemma mset_ref_sorted: "mset (ref_sorted xs) = mset xs"
proof -
  have "mset (ref_sorted xs) = image_mset ((!) xs) (mset (ref_order xs))"
    by (simp add: ref_sorted_def)
  also have "\<dots> = mset (map ((!) xs) [0..<length xs])"
    by (simp add: mset_ref_order)
  finally show ?thesis by (simp add: map_nth)
qed

lemma takeWhile_stops: "x \<in> set xs \<Longrightarrow> \<not> P x \<Longrightarrow> length (takeWhile P xs) < length xs"
  by (induction xs) auto

lemma ref_max_less: "xs \<noteq> [] \<Longrightarrow> ref_max xs < length xs"
proof -
  assume "xs \<noteq> []"
  then have "Max (set xs) \<in> set xs" by (intro Max_in) auto
  then show ?thesis
    unfolding ref_max_def by (rule takeWhile_stops) simp
qed

lemma nth_ref_max: "xs \<noteq> [] \<Longrightarrow> xs ! ref_max xs = Max (set xs)"
  using ref_max_less [of xs] nth_length_takeWhile [of "\<lambda>x. x \<noteq> Max (set xs)" xs]
  by (simp add: ref_max_def)

lemma ref_sorted_desc:
  assumes "NaN \<notin> set xs"
  shows "sorted_wrt (\<lambda>x y. fle y x) (ref_sorted xs)"
proof -
  have "sorted (map ((!) xs) (sort_key ((!) xs) [0..<length xs]))" by (rule sorted_sort_key)
  then have "sorted_wrt (\<lambda>x y. y \<le> x) (ref_sorted xs)"
    by (simp add: ref_sorted_def ref_order_def rev_map [symmetric] sorted_wrt_rev)
  moreover have "set (ref_sorted xs) = set xs" using mset_ref_sorted by (metis set_mset_mset)
  ultimately show ?thesis
    using assms by (elim sorted_wrt_mono_rel [rotated]) (metis fle_le)
qed

lemma length_ref_csum [simp]: "length (ref_csum xs) = length xs"
proof -
  have "length (ref_csum_from a ys) = length ys" for a ys
    by (induction ys arbitrary: a) auto
  then show ?thesis by (simp add: ref_csum_def split: list.splits)
qed

lemma ref_smax_nth: "j < length xs \<Longrightarrow> ref_smax xs ! j = (if is_finite (xs ! j) then
    Fin (1 / of_nat (length (filter is_finite xs))) else Fin 0)"
  by (simp add: ref_smax_def)

lemma filter_unique_index:
  assumes "mset (map (\<lambda>k. f k) [0..<v]) = mset (map int [0..<v])" and "j < v"
  shows "filter (\<lambda>k. f k = f j) [0..<v] = [j]"
proof -
  have "distinct (map f [0..<v])"
    using assms(1) by (metis distinct_map distinct_upt inj_on_of_nat mset_eq_imp_distinct_iff)
  then have "filter (\<lambda>k. f k = f j) [0..<v] = filter (\<lambda>k. map f [0..<v] ! k = map f [0..<v] ! j) [0..<v]"
    using assms(2) by (intro filter_cong) auto
  then show ?thesis
    using filter_index [of "map f [0..<v]" j] \<open>distinct (map f [0..<v])\<close> assms(2) by simp
qed

lemma tensor_lib_ref: "tensor_lib ref_float_ops (Fin 0)"
  by unfold_locales
    (auto simp: ref_float_ops_def ften_cat2_def ften_index_select_def ften_slice_from_def Let_def)

lemma scatter_ref:
  assumes t: "fshape t = [b, v]" and u: "fshape u = [b, v]" and ix: "fshape ix = [b, v]"
    and perm: "\<forall>i<b. mset (ften_row ix i) = mset (map int [0..<v])" and ij: "i < b" "j < v"
  shows "felem (scatter ref_float_ops t ix u) [i, nat (felem ix [i, j])] = felem u [i, j]"
proof -
  have m: "mset (map (\<lambda>k. felem ix [i, k]) [0..<v]) = mset (map int [0..<v])"
    using perm ij(1) ix by (simp add: ften_row_def)
  then have "felem ix [i, j] \<in> int ` {0..<v}"
    using ij(2) by (metis atLeastLessThan_upt image_eqI image_set list.set_map mset_eq_setD atLeastLessThan_iff le0)
  then have "int (nat (felem ix [i, j])) = felem ix [i, j]" by auto
  then show ?thesis
    using filter_unique_index [OF m ij(2)] ix by simp
qed

lemma multinomial_ref:
  assumes t: "fshape t = [b, v]" and m: "multinomial ref_float_ops t g = Inr (drawn, g')"
  shows "fshape drawn = [b, 1]"
    and "i < b \<Longrightarrow> \<exists>j<v. felem drawn [i, 0] = int j \<and> felem t [i, j] \<noteq> Fin 0"
proof -
  let ?c = "\<lambda>i. filter (\<lambda>j. felem t [i, j] \<noteq> Fin 0) [0..<v]"
  have eq: "list_all (\<lambda>i. ?c i \<noteq> []) [0..<b]"
    "drawn = Ften [b, 1] (\<lambda>ix. int (?c (ix ! 0) ! (g mod length (?c (ix ! 0)))))"
    using m t by (auto simp: ref_multinomial_def Let_def list_ex_iff list_all_iff split: if_splits)
  show "fshape drawn = [b, 1]" by (simp add: eq(2))
  show "\<exists>j<v. felem drawn [i, 0] = int j \<and> felem t [i, j] \<noteq> Fin 0" if "i < b"
  proof -
    have "?c i \<noteq> []" using eq(1) that by (auto simp: list_all_iff)
    then have "?c i ! (g mod length (?c i)) \<in> set (?c i)" by (intro nth_mem) simp
    then show ?thesis by (auto simp: eq(2))
  qed
qed

lemma float_lib_ref:
  "float_lib ref_float_ops ften_long ref_max ref_div ref_sorted ref_order ref_smax ref_csum ref_sub"
proof (intro float_lib.intro tensor_lib_ref long_lib_ften float_lib_axioms.intro, goal_cases)
  case (1 t b n v)
  then show ?case by simp
next
  case (2 t b v)
  then show ?case by simp
next
  case (3 xs)
  then show ?case by (rule ref_max_less)
next
  case (4 xs x)
  then have "xs \<noteq> []" by auto
  then have "Max (set xs) \<in> set xs" by (intro Max_in) auto
  then have "Max (set xs) \<noteq> NaN" using 4 by auto
  then show ?case using 4 nth_ref_max [of xs] \<open>xs \<noteq> []\<close> by (simp add: fle_le)
next
  case (5 t b v c)
  then show ?case by (auto simp: ften_map_def intro!: nth_equalityI)
next
  case (6 t b v k)
  then show ?case by (auto intro!: nth_equalityI)
next
  case (7 xs)
  then show ?case by (rule mset_ref_sorted)
next
  case (8 xs)
  then show ?case by (rule ref_sorted_desc)
next
  case (9 xs)
  then show ?case by (rule mset_ref_order)
next
  case (10 xs)
  then show ?case by (simp add: ref_sorted_def)
next
  case (11 t b k)
  then show ?case by simp
next
  case (12 t b v u)
  then show ?case by simp
next
  case (13 t b v cnd x)
  then show ?case by simp
next
  case (14 t b v o' ix)
  then have "o' = ften_rowwise ref_sorted t" "ix = ften_rowwise (\<lambda>xs. map int (ref_order xs)) t"
    by simp_all
  then show ?case
    using 14(1) by (simp add: ften_row_rowwise) (simp add: ften_rowwise_def)
next
  case (15 t b v)
  then have "ften_row (ften_rowwise ref_smax t) i = ref_smax (ften_row t i)" for i
    by (intro ften_row_rowwise) (auto simp: ref_smax_def)
  then show ?case using 15 by simp (simp add: ften_rowwise_def)
next
  case (16 xs)
  then show ?case by (simp add: ref_smax_def)
next
  case (17 j xs)
  then show ?case by (simp add: ref_smax_nth is_finite_def)
next
  case (18 j xs)
  then show ?case by (simp add: ref_smax_nth)
next
  case (19 t b v)
  then have "ften_row (ften_rowwise ref_csum t) i = ref_csum (ften_row t i)" for i
    by (intro ften_row_rowwise) auto
  then show ?case using 19 by simp (simp add: ften_rowwise_def)
next
  case (20 x xs)
  then show ?case by (simp add: ref_csum_def)
next
  case (21 xs)
  then show ?case by simp
next
  case (22 t b v u)
  then show ?case by simp
next
  case (23 p)
  then show ?case by (simp add: ref_sub_def)
next
  case (24 t b v x)
  then show ?case by (simp add: ften_map_def)
next
  case (25 t)
  then show ?case by simp
next
  case (26 t b v u ix)
  then show ?case using scatter_ref [of t b v u ix] by simp
next
  case (27 t b v g drawn g')
  then show ?case using multinomial_ref [of t b v g drawn g'] by simp
next
  case (28 drawn b)
  then show ?case by simp
qed

interpretation ref_lib: float_lib ref_float_ops ften_long ref_max ref_div ref_sorted ref_order
    ref_smax ref_csum ref_sub
  by (rule float_lib_ref)

section \<open>A family of networks\<close>

type_synonym ref_cache = "pyfloat ften legacy_cache"

definition ref_clib :: "(pyfloat ften, ref_cache) cache_lib" where
  "ref_clib = \<lparr>has_dynamic_cache = True, from_legacy_cache = (\<lambda>c. c), to_legacy_cache = (\<lambda>c. c),
     iter_cache = (\<lambda>c. c)\<rparr>"

text \<open>The cache entry of a token at a position, and the network over one sequence.\<close>

definition ref_entry :: "(int \<times> int \<Rightarrow> pyfloat \<times> pyfloat) \<Rightarrow> int \<times> int \<Rightarrow> pyfloat entry" where
  "ref_entry ent p = [([[fst (ent p)]], [[snd (ent p)]])]"

definition ref_lm :: "(int \<times> int \<Rightarrow> pyfloat \<times> pyfloat) \<Rightarrow> (pyfloat entry list \<Rightarrow> nat \<Rightarrow> pyfloat) \<Rightarrow> nat \<Rightarrow>
    pyfloat entry lang_model" where
  "ref_lm ent lgt v seen new =
     (map (ref_entry ent) new, tabulate v (lgt (seen @ map (ref_entry ent) new)))"

text \<open>One call on a padded batch: the new columns are appended to the cache, and the logits of a
  column read the visible columns up to it.\<close>

definition ref_append :: "int ften \<Rightarrow> int ften \<Rightarrow> nat \<Rightarrow> nat \<Rightarrow> (int \<times> int \<Rightarrow> pyfloat) \<Rightarrow> pyfloat ften \<Rightarrow>
    pyfloat ften" where
  "ref_append ids pos l n f old = Ften [fshape ids ! 0, 1, l + n, 1]
     (\<lambda>ix. if ix ! 2 < l then felem old ix
           else f (felem ids [ix ! 0, ix ! 2 - l], felem pos [ix ! 0, ix ! 2 - l]))"

definition ref_forward :: "(int \<times> int \<Rightarrow> pyfloat \<times> pyfloat) \<Rightarrow> (pyfloat entry list \<Rightarrow> nat \<Rightarrow> pyfloat) \<Rightarrow> nat \<Rightarrow>
    int ften \<Rightarrow> int ften \<Rightarrow> int ften \<Rightarrow> (pyfloat ften, ref_cache) past \<Rightarrow>
    exn + (pyfloat ften, ref_cache) past \<times> pyfloat ften" where
  "ref_forward ent lgt v ids attn pos past =
     (let n = fshape ids ! 1; l = fshape attn ! 1 - n;
          old = (case from_cache ref_clib past of [] \<Rightarrow> (Ften [] (\<lambda>_. NaN), Ften [] (\<lambda>_. NaN)) | kv # _ \<Rightarrow> kv);
          c = [(ref_append ids pos l n (\<lambda>p. fst (ent p)) (fst old),
                ref_append ids pos l n (\<lambda>p. snd (ent p)) (snd old))]
      in Inr (DynamicPast c, Ften [fshape ids ! 0, n, v] (\<lambda>ix.
           lgt (sel (take (Suc (l + ix ! 1)) (ften_row attn (ix ! 0)))
                    (take (Suc (l + ix ! 1)) (crow ref_float_ops c (ix ! 0)))) (ix ! 2))))"

definition ref_forward_plain :: "(int \<times> int \<Rightarrow> pyfloat \<times> pyfloat) \<Rightarrow> (pyfloat entry list \<Rightarrow> nat \<Rightarrow> pyfloat) \<Rightarrow>
    nat \<Rightarrow> int ften \<Rightarrow> exn + pyfloat ften" where
  "ref_forward_plain ent lgt v ids =
     Inr (Ften [fshape ids ! 0, fshape ids ! 1, v] (\<lambda>ix.
       lgt (map (ref_entry ent) (take (Suc (ix ! 1)) (positioned (ften_row ids (ix ! 0))))) (ix ! 2)))"

definition ref_engine :: "(int \<times> int \<Rightarrow> pyfloat \<times> pyfloat) \<Rightarrow> (pyfloat entry list \<Rightarrow> nat \<Rightarrow> pyfloat) \<Rightarrow> nat \<Rightarrow>
    (string \<Rightarrow> int list) \<Rightarrow> (int list \<Rightarrow> string) \<Rightarrow> int \<Rightarrow> int \<Rightarrow> int \<Rightarrow> settings \<Rightarrow>
    (pyfloat ften, int ften, bool ften, ref_cache, nat) engine" where
  "ref_engine ent lgt v enc dec eos pad limit S =
     \<lparr>flib = ref_float_ops, ilib = ften_long, clib = ref_clib, forward = ref_forward ent lgt v,
      forward_plain = ref_forward_plain ent lgt v, tok_encode = enc, tok_decode = dec,
      eos_token_id = eos, pad_token_id = pad, context_limit = limit, config = S\<rparr>"

lemma from_cache_ref [simp]:
  "from_cache ref_clib NoPast = []" "from_cache ref_clib (DynamicPast c) = c"
  by (simp_all add: from_cache_def ref_clib_def)

lemma ref_append_vec:
  assumes "fshape ids = [b, n]" "i < b"
  shows "s < l \<Longrightarrow> fshape old = [b, 1, l, 1] \<Longrightarrow>
      vec ref_float_ops (ref_append ids pos l n f old) i s = vec ref_float_ops old i s"
    and "t < n \<Longrightarrow> vec ref_float_ops (ref_append ids pos l n f old) i (l + t)
      = [[f (felem ids [i, t], felem pos [i, t])]]"
  using assms by (simp_all add: vec_def ref_append_def)

text \<open>Row \<open>i\<close> of the cache after a call: the old row, then the entries of the new columns.\<close>

lemma ref_forward_crow:
  assumes fw: "ref_forward ent lgt v ids attn pos past = Inr (past', lg)"
    and sh: "fshape ids = [b, n]" "fshape attn = [b, l + n]" "fshape pos = [b, n]" and b: "0 < b"
    and past: "l = 0 \<and> past = NoPast \<or> cache_shape ref_float_ops [(1, 1)] b l (from_cache ref_clib past)"
  shows "cache_shape ref_float_ops [(1, 1)] b (l + n) (from_cache ref_clib past')"
    and "i < b \<Longrightarrow> crow ref_float_ops (from_cache ref_clib past') i
      = crow ref_float_ops (from_cache ref_clib past) i
        @ map (ref_entry ent) (zip (ften_row ids i) (ften_row pos i))"
    and "fshape lg = [b, n, v]"
    and "i < b \<Longrightarrow> t < n \<Longrightarrow> felem lg [i, t, j] = lgt (sel (take (Suc (l + t)) (ften_row attn i))
      (take (Suc (l + t)) (crow ref_float_ops (from_cache ref_clib past') i))) j"
proof -
  let ?c = "from_cache ref_clib past"
  obtain ok ov where old: "(case ?c of [] \<Rightarrow> (Ften [] (\<lambda>_. NaN), Ften [] (\<lambda>_. NaN)) | kv # _ \<Rightarrow> kv) = (ok, ov)"
    by fastforce
  define c where "c = [(ref_append ids pos l n (\<lambda>p. fst (ent p)) ok, ref_append ids pos l n (\<lambda>p. snd (ent p)) ov)]"
  have R: "past' = DynamicPast c" "fshape lg = [b, n, v]"
    "\<And>i t j. felem lg [i, t, j] = lgt (sel (take (Suc (l + t)) (ften_row attn i))
      (take (Suc (l + t)) (crow ref_float_ops c i))) j"
    using fw sh old by (auto simp: ref_forward_def Let_def c_def)
  show "fshape lg = [b, n, v]" by (rule R(2))
  show "felem lg [i, t, j] = lgt (sel (take (Suc (l + t)) (ften_row attn i))
      (take (Suc (l + t)) (crow ref_float_ops (from_cache ref_clib past') i))) j" if "i < b" "t < n"
    by (simp add: R)
  show "cache_shape ref_float_ops [(1, 1)] b (l + n) (from_cache ref_clib past')"
    using sh by (simp add: R c_def cache_shape_def ref_append_def)
  have len: "cache_length ref_float_ops c = l + n" by (simp add: c_def cache_length_def ref_append_def)
  have oldrow: "length (crow ref_float_ops ?c i) = l \<and> (0 < l \<longrightarrow> ?c = [(ok, ov)] \<and>
      fshape ok = [b, 1, l, 1] \<and> fshape ov = [b, 1, l, 1])" for i
    using past
  proof
    assume "l = 0 \<and> past = NoPast"
    then show ?thesis by (simp add: cache_length_def)
  next
    assume cs: "cache_shape ref_float_ops [(1, 1)] b l ?c"
    then show ?thesis using old by (auto simp: cache_shape_def list_all2_Cons1 cache_length_def)
  qed
  show "crow ref_float_ops (from_cache ref_clib past') i = crow ref_float_ops ?c i
      @ map (ref_entry ent) (zip (ften_row ids i) (ften_row pos i))" if i: "i < b"
  proof (rule nth_equalityI)
    show "length (crow ref_float_ops (from_cache ref_clib past') i) = length (crow ref_float_ops ?c i
      @ map (ref_entry ent) (zip (ften_row ids i) (ften_row pos i)))"
      using len oldrow sh by (simp add: R(1))
    fix s assume "s < length (crow ref_float_ops (from_cache ref_clib past') i)"
    then have s: "s < l + n" using len by (simp add: R(1))
    have e: "crow ref_float_ops (from_cache ref_clib past') i ! s = entry ref_float_ops c i s"
      using s len by (simp add: R(1) crow_def)
    show "crow ref_float_ops (from_cache ref_clib past') i ! s = (crow ref_float_ops ?c i
      @ map (ref_entry ent) (zip (ften_row ids i) (ften_row pos i))) ! s"
    proof (cases "s < l")
      case True
      then have o: "?c = [(ok, ov)]" "fshape ok = [b, 1, l, 1]" "fshape ov = [b, 1, l, 1]"
        using oldrow [of i] by auto
      have "crow ref_float_ops ?c i ! s = entry ref_float_ops ?c i s"
        using True o by (simp add: crow_def cache_length_def)
      then show ?thesis
        using e True oldrow [of i] o ref_append_vec(1) [OF sh(1) i True]
        by (simp add: nth_append entry_def c_def)
    next
      case False
      define t where "t = s - l"
      have t: "s = l + t" "t < n" using False s by (auto simp: t_def)
      show ?thesis
        using e False oldrow [of i] ref_append_vec(2) [OF sh(1) i t(2)] sh t
        by (simp add: nth_append entry_def c_def ref_entry_def)
    qed
  qed
qed

lemma ref_engine_fields [simp]:
  "flib (ref_engine ent lgt v enc dec eos pad limit S) = ref_float_ops"
  "ilib (ref_engine ent lgt v enc dec eos pad limit S) = ften_long"
  "clib (ref_engine ent lgt v enc dec eos pad limit S) = ref_clib"
  "forward (ref_engine ent lgt v enc dec eos pad limit S) = ref_forward ent lgt v"
  "forward_plain (ref_engine ent lgt v enc dec eos pad limit S) = ref_forward_plain ent lgt v"
  "tok_encode (ref_engine ent lgt v enc dec eos pad limit S) = enc"
  "tok_decode (ref_engine ent lgt v enc dec eos pad limit S) = dec"
  "eos_token_id (ref_engine ent lgt v enc dec eos pad limit S) = eos"
  "pad_token_id (ref_engine ent lgt v enc dec eos pad limit S) = pad"
  "context_limit (ref_engine ent lgt v enc dec eos pad limit S) = limit"
  "config (ref_engine ent lgt v enc dec eos pad limit S) = S"
  by (simp_all add: ref_engine_def)

lemma sel_map: "sel m (map f xs) = map f (sel m xs)"
  by (simp add: sel_def zip_map2 filter_map o_def case_prod_beta)

lemma network_ref:
  assumes v: "0 < v"
  shows "network (ref_engine ent lgt v enc dec eos pad limit S) ref_max ref_div ref_sorted ref_order
    ref_smax ref_csum ref_sub [(1, 1)] v (ref_lm ent lgt v)"
proof (intro network.intro network_axioms.intro, unfold ref_engine_fields, goal_cases)
  case 1
  show ?case by (rule float_lib_ref)
next
  case 2
  show ?case by simp
next
  case 3
  show ?case by (rule v)
next
  case (4 c)
  then show ?case by (simp add: ref_clib_def)
next
  case (5 ids attn pos past past' lg b n l)
  then show ?case using ref_forward_crow(1,3) [OF 5(1)] by simp
next
  case (6 ids attn pos past past' lg b n l i seen new)
  have sh: "fshape ids = [b, n]" "fshape attn = [b, l + n]" "fshape pos = [b, n]" using 6 by simp_all
  note fc = ref_forward_crow [OF 6(1) sh 6(5,7)]
  let ?row = "ften_row attn i" and ?old = "crow ref_float_ops (from_cache ref_clib past) i"
  let ?zip = "zip (ften_row ids i) (ften_row pos i)"
  have len: "length (take l ?row) = length ?old"
    using 6(7)
  proof
    assume "l = 0 \<and> past = NoPast"
    then show ?thesis by (simp add: cache_length_def)
  next
    assume "cache_shape ref_float_ops [(1, 1)] b l (from_cache ref_clib past)"
    then show ?thesis using sh by simp
  qed
  have all: "sel ?row (crow ref_float_ops (from_cache ref_clib past') i)
      = seen @ map (ref_entry ent) new"
    unfolding fc(2) [OF 6(8)] using sel_append [OF len, of "drop l ?row"] 6(10,11)
    by (simp add: sel_map)
  have lgs: "felem lg [i, n - 1, j] = lgt (seen @ map (ref_entry ent) new) j" for j
  proof -
    have "Suc (l + (n - 1)) = l + n" using 6(6) by simp
    moreover have "length (crow ref_float_ops (from_cache ref_clib past') i) = l + n"
      using fc(1) by simp
    ultimately show ?thesis
      using fc(4) [OF 6(8), of "n - 1" j] 6(6) sh all by simp
  qed
  show ?case using all lgs by (simp add: ref_lm_def)
next
  case (7 ids lg n)
  then show ?case by (auto simp: ref_forward_plain_def ref_lm_def)
next
  case (8 s xs ys)
  show ?case by (simp add: ref_lm_def)
next
  case (9 ys s xs)
  show ?case by (simp add: ref_lm_def)
qed

lemma serving_ref:
  assumes "0 < v"
  shows "serving (ref_engine ent lgt v enc dec eos pad limit S) ref_max ref_div ref_sorted ref_order
    ref_smax ref_csum ref_sub [(1, 1)] v (ref_lm ent lgt v)"
proof (intro serving.intro network_ref [OF assms] serving_axioms.intro, unfold ref_engine_fields, goal_cases)
  case (1 ids b n attn l pos past)
  show ?case by (simp add: ref_forward_def Let_def)
next
  case (2 ids n)
  show ?case by (simp add: ref_forward_plain_def)
qed

interpretation ref_net: serving "ref_engine ent lgt (Suc v) enc dec eos pad limit S" ref_max ref_div
    ref_sorted ref_order ref_smax ref_csum ref_sub "[(1, 1)]" "Suc v" "ref_lm ent lgt (Suc v)"
  for ent :: "int \<times> int \<Rightarrow> pyfloat \<times> pyfloat" and lgt :: "pyfloat entry list \<Rightarrow> nat \<Rightarrow> pyfloat"
    and v :: nat and enc dec eos pad limit S
  by (rule serving_ref) simp

end
