(* ===== verification/Demo.thy ===== *)
theory Demo
  imports Reference
begin

text \<open>
  One concrete engine of the reference family, small enough to compute with: three tokens, the
  next token is the number of tokens so far modulo 3, token 2 ends a sequence, and the window
  holds eight tokens. The witnesses of the development run on it.
\<close>

definition demo_settings :: settings where
  "demo_settings = \<lparr>model_name = ''demo'', device = ''cpu'', torch_threads = 0, max_batch_size = 2,
     batch_window_ms = 20, max_queue_size = 2, request_timeout_s = Fin 120, max_new_tokens = 4,
     max_context = 8, http_port = 8000, grpc_port = 50051, metrics_port = 9100\<rparr>"

definition demo_entry :: "int \<times> int \<Rightarrow> pyfloat \<times> pyfloat" where
  "demo_entry p = (Fin (of_int (fst p)), Fin (of_int (snd p)))"

definition demo_logits :: "pyfloat entry list \<Rightarrow> nat \<Rightarrow> pyfloat" where
  "demo_logits es j = (if j = length es mod 3 then Fin 1 else Fin 0)"

definition demo_encode :: "string \<Rightarrow> int list" where
  "demo_encode s = map (\<lambda>c. int (of_char c :: nat)) s"

definition demo_decode :: "int list \<Rightarrow> string" where
  "demo_decode ids = map (\<lambda>i. char_of (nat i + 48)) ids"

definition demo_engine :: "(pyfloat ften, int ften, bool ften, ref_cache, nat) engine" where
  "demo_engine = ref_engine demo_entry demo_logits 3 demo_encode demo_decode 2 0 8 demo_settings"

definition demo_lm :: "pyfloat entry lang_model" where
  "demo_lm = ref_lm demo_entry demo_logits 3"

definition demo_seq :: seq where
  "demo_seq = \<lparr>prompt_ids = [1], params = default_params, request_id = '''', seq_id = 0,
     output_ids = [], finish_reason = None, arrived_at = 0, first_token_at = None\<rparr>"

definition demo_time :: "nat \<Rightarrow> rat" where
  "demo_time k = of_nat (Suc k)"

definition demo_world :: "nat world" where
  "demo_world = \<lparr>heap = (\<lambda>_. demo_seq), next_seq_id = 1, rng = 0, clock = demo_time, clock_reads = 0\<rparr>"

lemma demo_fields [simp]:
  "eos_token_id demo_engine = 2" "pad_token_id demo_engine = 0" "context_limit demo_engine = 8"
  "config demo_engine = demo_settings" "tok_encode demo_engine = demo_encode"
  "tok_decode demo_engine = demo_decode" "flib demo_engine = ref_float_ops"
  "ilib demo_engine = ften_long" "clib demo_engine = ref_clib"
  by (simp_all add: demo_engine_def)

lemma demo_serving: "serving demo_engine ref_max ref_div ref_sorted ref_order ref_smax ref_csum ref_sub
    [(1, 1)] 3 demo_lm"
  unfolding demo_engine_def demo_lm_def by (rule serving_ref) simp

interpretation demo: serving demo_engine ref_max ref_div ref_sorted ref_order ref_smax ref_csum ref_sub
    "[(1, 1)]" 3 demo_lm
  by (rule demo_serving)

lemma demo_network: "network demo_engine ref_max ref_div ref_sorted ref_order ref_smax ref_csum ref_sub
    [(1, 1)] 3 demo_lm"
  by (rule demo.network_axioms)

lemma demo_encode_a: "encode demo_engine ''a'' = [97]" "encode demo_engine ''ab'' = [97, 98]"
  by (simp_all add: encode_def demo_encode_def py_from_def slice_start_def)

lemma demo_next: "next_token ref_max demo_lm [97] = 1" "next_token ref_max demo_lm [97, 1] = 2"
  "next_token ref_max demo_lm [97, 98] = 2"
  by code_simp+

lemma demo_start: "engine_reach demo_engine demo_world empty_state"
  by (rule engine_reach.start) (simp add: demo_world_def)

text \<open>A run of the demo engine: one sequence is submitted, prefilled and decoded to its end.\<close>

lemma demo_run:
  obtains w1 w2 st2 w3 st3 where
    "engine_reach demo_engine w1 empty_state" "issued w1 = {1}" "output_ids (heap w1 1) = []"
    "prompt_ids (heap w1 1) = [97]" "prefill demo_engine [1] w1 = Inr (st2, w2)"
    "engine_reach demo_engine w2 st2" "seqs st2 = [1]" "issued w2 = {1}"
    "prompt_ids (heap w2 1) = [97]" "output_ids (heap w2 1) = [1]" "\<not> finished (heap w2 1)"
    "decode_step demo_engine st2 w2 = Inr (st3, w3)"
    "engine_reach demo_engine w3 st3" "seqs st3 = [1]" "issued w3 = {1}"
    "prompt_ids (heap w3 1) = [97]" "output_ids (heap w3 1) = [1, 2]"
    "finish_reason (heap w3 1) = Some ''stop''" "greedy (heap w3 1)" "max_tokens (params (heap w3 1)) = 4"
proof -
  define w1 where "w1 = snd (make_sequence demo_engine ''a'' None '''' demo_world)"
  have mk: "make_sequence demo_engine ''a'' None '''' demo_world = (1, w1)"
    by (simp add: w1_def make_sequence_eq demo_world_def)
  have start: "engine_reach demo_engine demo_world empty_state"
    by (rule engine_reach.start) (simp add: demo_world_def)
  have r1: "engine_reach demo_engine w1 empty_state" by (rule engine_reach.submit [OF start mk])
  have i1: "issued w1 = {1}"
    by (auto simp: w1_def make_sequence_eq demo_world_def issued_def)
  have s1: "prompt_ids (heap w1 1) = [97]" "output_ids (heap w1 1) = []" "\<not> finished (heap w1 1)"
    "greedy (heap w1 1)" "max_tokens (params (heap w1 1)) = 4"
    by (simp_all add: w1_def make_sequence_eq demo_world_def demo_encode_a finished_def greedy_def
        clamp_def default_params_def demo_settings_def py_min_def fle_def)
  have inv1: "engine_inv demo_engine [(1, 1)] ref_max demo_lm w1 empty_state"
    by (rule demo.engine_reach_inv [OF r1]) simp
  obtain st2 w2 where pre: "prefill demo_engine [1] w1 = Inr (st2, w2)"
    using demo.prefill_total [of "[1]" w1] s1 by (force simp: seq_ok_def)
  then have adm: "admit demo_engine empty_state [1] w1 = Inr (st2, w2)" by (simp add: admit_def)
  have r2: "engine_reach demo_engine w2 st2"
    by (rule engine_reach.admit [OF r1 _ _ _ adm]) (use i1 s1(2) in simp_all)
  have adv: "advanced demo_engine ref_max demo_lm {1} (heap w1) (heap w2)" "next_seq_id w2 = next_seq_id w1"
    "seqs st2 = [1]" using demo.engine_inv_admit [OF inv1 _ _ _ adm] i1 s1(2) by simp_all
  obtain now where h2: "heap w2 1 = emit_row demo_engine now 1 (heap w1 1)"
    using adv(1) s1 by (auto simp: advanced_def demo_next)
  have s2: "prompt_ids (heap w2 1) = [97]" "output_ids (heap w2 1) = [1]" "\<not> finished (heap w2 1)"
    "greedy (heap w2 1)" "max_tokens (params (heap w2 1)) = 4"
    using s1 h2 by (auto simp: emit_row_output finished_def emit_row_reason seq_verdict_def verdict_def)
  have i2: "issued w2 = {1}" using i1 adv(2) by (simp add: issued_def)
  have inv2: "engine_inv demo_engine [(1, 1)] ref_max demo_lm w2 st2"
    by (rule demo.engine_reach_inv [OF r2]) simp
  obtain st3 w3 where dec: "decode_step demo_engine st2 w2 = Inr (st3, w3)"
    using demo.decode_total [OF inv2] adv(3) s2 by force
  have r3: "engine_reach demo_engine w3 st3" by (rule engine_reach.decode [OF r2 dec])
  note D = demo.engine_inv_decode [OF inv2 dec]
  obtain now' where h3: "heap w3 1 = emit_row demo_engine now' 2 (heap w2 1)"
    using D(3) adv(3) s2 by (auto simp: advanced_def demo_next)
  have s3: "prompt_ids (heap w3 1) = [97]" "output_ids (heap w3 1) = [1, 2]"
    "finish_reason (heap w3 1) = Some ''stop''" "greedy (heap w3 1)" "max_tokens (params (heap w3 1)) = 4"
    using s2 h3 by (auto simp: emit_row_output emit_row_reason seq_verdict_def verdict_def)
  have i3: "issued w3 = {1}" using i2 D(4) by (simp add: issued_def)
  show ?thesis
    by (rule that [OF r1 i1 s1(2,1) pre r2 adv(3) i2 s2(1-3) dec r3 _ i3 s3]) (simp add: D(2) adv(3))
qed

end
