(* ===== verification/Threads.thy ===== *)
theory Threads
  imports EngineRun
begin

text \<open>
  The engine calls at the grain of the thread that runs them. \<open>batcher.py\<close> hands \<open>prefill\<close> and
  \<open>decode_step\<close> to a worker thread while the event loop goes on: other coroutines make sequences
  (\<open>submit\<close>), read the clock and mark running ones abandoned (\<open>_abandon\<close>) between any two statements of the
  call. The
  definitions below are the calls with such events let in at every point where they touch what the
  loop shares with the thread, and the lemmas put the events before or after the call, so that
  what \<open>engine_reach\<close> says of whole calls holds of these.
\<close>

section \<open>What the event loop does meanwhile\<close>

text \<open>A mark is the assignment of \<open>_abandon\<close> alone: the test before it may be out of date by then.\<close>

datatype loop_event = Mark nat | Submit string "sampling_params option" string | Clock

fun on_event :: "('f, 'i, 'b, 'd, 'r) engine \<Rightarrow> loop_event \<Rightarrow> 'r world \<Rightarrow> 'r world" where
  "on_event e (Mark i) w = w\<lparr>heap := abandon {i} (heap w)\<rparr>"
| "on_event e (Submit prompt ps rid) w = snd (make_sequence e prompt ps rid w)"
| "on_event e Clock w = snd (monotonic w)"

definition loop_events :: "('f, 'i, 'b, 'd, 'r) engine \<Rightarrow> loop_event list \<Rightarrow> 'r world \<Rightarrow> 'r world" where
  "loop_events e evs w = fold (on_event e) evs w"

lemma loop_events_simps [simp]:
  "loop_events e [] w = w" "loop_events e (ev # evs) w = loop_events e evs (on_event e ev w)"
  "loop_events e (evs @ evs') w = loop_events e evs' (loop_events e evs w)"
  by (simp_all add: loop_events_def)

section \<open>The calls, statement by statement\<close>

definition put_seq :: "nat \<Rightarrow> (seq \<Rightarrow> seq) \<Rightarrow> 'r world \<Rightarrow> 'r world" where
  "put_seq i f w = w\<lparr>heap := (heap w)(i := f (heap w i))\<rparr>"

text \<open>The three writes of a row in \<open>_emit\<close>: the token, the time of the first one, the finish reason.\<close>

definition append_token :: "int \<Rightarrow> seq \<Rightarrow> seq" where
  "append_token token s = s\<lparr>output_ids := output_ids s @ [token]\<rparr>"

definition stamp_first :: "rat \<Rightarrow> seq \<Rightarrow> seq" where
  "stamp_first now s = (if first_token_at s = None then s\<lparr>first_token_at := Some now\<rparr> else s)"

definition stop_rule :: "('f, 'i, 'b, 'd, 'r) engine \<Rightarrow> int \<Rightarrow> seq \<Rightarrow> seq" where
  "stop_rule e token s =
     (if token = eos_token_id e then s\<lparr>finish_reason := Some ''stop''\<rparr>
      else if max_tokens (params s) \<le> int (length (output_ids s)) then s\<lparr>finish_reason := Some ''length''\<rparr>
      else if context_limit e \<le> int (total_length s) then s\<lparr>finish_reason := Some ''length''\<rparr>
      else s)"

text \<open>The events at a row: before its test, and before each of its three writes.\<close>

type_synonym row_events = "loop_event list \<times> loop_event list \<times> loop_event list \<times> loop_event list"

definition row_threaded :: "('f, 'i, 'b, 'd, 'r) engine \<Rightarrow> rat \<Rightarrow> int \<Rightarrow> nat \<Rightarrow> row_events \<Rightarrow> 'r world \<Rightarrow> 'r world" where
  "row_threaded e now token i evs w =
     (case evs of (e0, e1, e2, e3) \<Rightarrow>
        let w = loop_events e e0 w
        in if finished (heap w i) then loop_events e (e1 @ e2 @ e3) w
           else let w = put_seq i (append_token token) (loop_events e e1 w);
                    w = put_seq i (stamp_first now) (loop_events e e2 w)
                in put_seq i (stop_rule e token) (loop_events e e3 w))"

fun rows_threaded :: "('f, 'i, 'b, 'd, 'r) engine \<Rightarrow> rat \<Rightarrow> 'i \<Rightarrow> nat \<Rightarrow> nat list \<Rightarrow> (nat \<Rightarrow> row_events) \<Rightarrow>
    'r world \<Rightarrow> 'r world" where
  "rows_threaded e now tokens r [] evs w = w"
| "rows_threaded e now tokens r (i # is) evs w =
     rows_threaded e now tokens (Suc r) is evs (row_threaded e now (elem (ilib e) tokens [r]) i (evs r) w)"

text \<open>The events of a call: during the forward pass, between sampling and the clock, at the rows,
  and after the loop.\<close>

record call_events =
  ce_forward :: "loop_event list"
  ce_sampled :: "loop_event list"
  ce_rows :: "nat \<Rightarrow> row_events"
  ce_after :: "loop_event list"

definition emit_threaded :: "('f, 'i, 'b, 'd, 'r) engine \<Rightarrow> ('f, 'i) batch_state \<Rightarrow> 'f \<Rightarrow> call_events \<Rightarrow> 'r world \<Rightarrow>
    exn + ('f, 'i) batch_state \<times> 'r world" where
  "emit_threaded e state logits ce w =
     (let w = loop_events e (ce_forward ce) w
      in try_bind (sample_batch (flib e) (ilib e) logits
                 (map (\<lambda>i. params (heap w i)) (seqs state)) (rng w))
       (\<lambda>(tokens, r).
          let (now, w) = monotonic (loop_events e (ce_sampled ce) (w\<lparr>rng := r\<rparr>))
          in Inr (state\<lparr>next_tokens := Some (unsqueeze_last (ilib e) tokens)\<rparr>,
                  loop_events e (ce_after ce) (rows_threaded e now tokens 0 (seqs state) (ce_rows ce) w))))"

definition prefill_threaded :: "('f, 'i, 'b, 'd, 'r) engine \<Rightarrow> nat list \<Rightarrow> call_events \<Rightarrow> 'r world \<Rightarrow>
    exn + ('f, 'i) batch_state \<times> 'r world" where
  "prefill_threaded e ss ce w =
     (if ss = [] then Inr (empty_state, w)
      else
        try_bind (left_pad_sequences (ilib e) (map (\<lambda>i. prompt_ids (heap w i)) ss) (pad_token_id e))
          (\<lambda>(input_ids, attn).
        try_bind (forward e input_ids attn (positions_from_mask (ilib e) attn) NoPast)
          (\<lambda>(past, logits).
        emit_threaded e \<lparr>seqs = ss, cache = from_cache (clib e) past, attn_mask = Some attn,
                next_tokens = None\<rparr>
          (last_position (flib e) logits) ce w)))"

definition decode_threaded :: "('f, 'i, 'b, 'd, 'r) engine \<Rightarrow> ('f, 'i) batch_state \<Rightarrow> call_events \<Rightarrow> 'r world \<Rightarrow>
    exn + ('f, 'i) batch_state \<times> 'r world" where
  "decode_threaded e state ce w =
     (if seqs state = [] then Inr (state, w)
      else case (attn_mask state, next_tokens state) of
        (Some m, Some nx) \<Rightarrow>
          let attn = cat (ilib e) [m, full (ilib e) [length (seqs state), 1] 1] 1;
              position_ids = sub_scalar (ilib e) (sum_keepdim (ilib e) attn) 1
          in try_bind (forward e nx attn position_ids (to_cache (clib e) (cache state)))
               (\<lambda>(past, logits).
             emit_threaded e (state\<lparr>cache := from_cache (clib e) past, attn_mask := Some attn\<rparr>)
               (last_position (flib e) logits) ce w)
      | (None, _) \<Rightarrow> Inl (TypeError ''expected Tensor as element 0 in argument 0'')
      | (_, None) \<Rightarrow> Inl (ValueError ''You have to specify either input_ids or inputs_embeds''))"

definition admit_threaded :: "('f, 'i, 'b, 'd, 'r) engine \<Rightarrow> ('f, 'i) batch_state \<Rightarrow> nat list \<Rightarrow> call_events \<Rightarrow>
    'r world \<Rightarrow> exn + ('f, 'i) batch_state \<times> 'r world" where
  "admit_threaded e state newcomers ce w =
     (if newcomers = [] then Inr (state, w)
      else
        try_bind (prefill_threaded e newcomers ce w)
          (\<lambda>(fresh, w').
             if seqs state = [] then Inr (fresh, w')
             else case (attn_mask state, attn_mask fresh, next_tokens state, next_tokens fresh) of
               (Some m, Some m', Some nx, Some nx') \<Rightarrow>
                 let width = max (shape (ilib e) m ! 1) (shape (ilib e) m' ! 1)
                 in Inr (\<lparr>seqs = seqs state @ seqs fresh,
                         cache = concat_batch (flib e) (cache state) (cache fresh),
                         attn_mask = Some (cat (ilib e) [pad_mask_left (ilib e) m width,
                                                         pad_mask_left (ilib e) m' width] 0),
                         next_tokens = Some (cat (ilib e) [nx, nx'] 0)\<rparr>, w')
             | _ \<Rightarrow> Inl (TypeError ''NoneType object has no attribute shape'')))"

section \<open>Events on the fresh and on the old part of the heap\<close>

definition marks :: "loop_event list \<Rightarrow> nat set" where
  "marks evs = {i. Mark i \<in> set evs}"

definition others :: "loop_event list \<Rightarrow> loop_event list" where
  "others evs = filter (\<lambda>ev. case ev of Mark i \<Rightarrow> False | _ \<Rightarrow> True) evs"

lemma marks_simps [simp]:
  "marks [] = {}" "marks (Mark i # evs) = insert i (marks evs)" "marks (Submit p ps rid # evs) = marks evs"
  "marks (Clock # evs) = marks evs" "marks (evs @ evs') = marks evs \<union> marks evs'"
  by (auto simp: marks_def)

lemma others_simps [simp]:
  "others [] = []" "others (Mark i # evs) = others evs" "others (Submit p ps rid # evs) = Submit p ps rid # others evs"
  "others (Clock # evs) = Clock # others evs" "others (evs @ evs') = others evs @ others evs'"
  by (simp_all add: others_def)

text \<open>The world \<open>u\<close> with the sequences below \<open>N\<close> replaced by \<open>h\<close>.\<close>

definition splice :: "nat \<Rightarrow> (nat \<Rightarrow> seq) \<Rightarrow> 'r world \<Rightarrow> 'r world" where
  "splice N h u = u\<lparr>heap := (\<lambda>j. if j < N then h j else heap u j)\<rparr>"

lemma splice_self [simp]: "splice N (heap w) w = w"
  by (simp add: splice_def)

lemma splice_simps [simp]:
  "next_seq_id (splice N h u) = next_seq_id u" "clock (splice N h u) = clock u"
  "clock_reads (splice N h u) = clock_reads u" "rng (splice N h u) = rng u"
  "i < N \<Longrightarrow> heap (splice N h u) i = h i" "issued (splice N h u) = issued u"
  by (simp_all add: splice_def issued_def)

lemma splice_mark: "i < N \<Longrightarrow> on_event e (Mark i) (splice N h u) = splice N (abandon {i} h) u"
  by (auto simp: splice_def abandon_def intro!: arg_cong [where f = "\<lambda>h. u\<lparr>heap := h\<rparr>"])

lemma splice_other:
  "N \<le> next_seq_id u \<Longrightarrow> (\<And>i. ev \<noteq> Mark i) \<Longrightarrow> on_event e ev (splice N h u) = splice N h (on_event e ev u)"
  by (cases ev) (auto simp: make_sequence_eq monotonic_def splice_def fun_eq_iff)

lemma splice_put: "i < N \<Longrightarrow> put_seq i f (splice N h u) = splice N (h(i := f (h i))) u"
  by (auto simp: put_seq_def splice_def fun_eq_iff)

lemma on_event_next: "next_seq_id u \<le> next_seq_id (on_event e ev u)"
  by (cases ev) (simp_all add: make_sequence_eq monotonic_def)

lemma loop_events_next: "next_seq_id u \<le> next_seq_id (loop_events e evs u)"
  by (induction evs arbitrary: u) (auto intro: order_trans [OF on_event_next])

lemma abandon_abandon [simp]: "abandon A (abandon B h) = abandon (A \<union> B) h"
  by (auto simp: abandon_def)

lemma abandon_none [simp]: "abandon {} h = h"
  by (simp add: abandon_def)

lemma splice_events:
  "N \<le> next_seq_id u \<Longrightarrow> marks evs \<subseteq> {..<N} \<Longrightarrow>
    loop_events e evs (splice N h u) = splice N (abandon (marks evs) h) (loop_events e (others evs) u)"
proof (induction evs arbitrary: h u)
  case Nil
  then show ?case by simp
next
  case (Cons ev evs)
  show ?case
  proof (cases ev)
    case (Mark i)
    then show ?thesis using Cons splice_mark [of i N e h u] by (simp del: on_event.simps)
  next
    case (Submit p ps rid)
    have "N \<le> next_seq_id (on_event e ev u)" using Cons.prems(1) on_event_next order_trans by blast
    then show ?thesis using Cons Submit splice_other [of N u ev e h] by (simp del: on_event.simps)
  next
    case Clock
    have "N \<le> next_seq_id (on_event e ev u)" using Cons.prems(1) on_event_next order_trans by blast
    then show ?thesis using Cons Clock splice_other [of N u ev e h] by (simp del: on_event.simps)
  qed
qed

section \<open>Events at the rows\<close>

text \<open>The writes of the thread and the marks, on the old part of the heap alone.\<close>

fun row_marked :: "('f, 'i, 'b, 'd, 'r) engine \<Rightarrow> rat \<Rightarrow> int \<Rightarrow> nat \<Rightarrow> nat set \<times> nat set \<times> nat set \<times> nat set \<Rightarrow>
    (nat \<Rightarrow> seq) \<Rightarrow> (nat \<Rightarrow> seq)" where
  "row_marked e now token i (M0, M1, M2, M3) h =
     (let h = abandon M0 h
      in if finished (h i) then abandon (M1 \<union> M2 \<union> M3) h
         else let h = abandon M1 h; h = h(i := append_token token (h i));
                  h = abandon M2 h; h = h(i := stamp_first now (h i));
                  h = abandon M3 h
              in h(i := stop_rule e token (h i)))"

definition slot_marks :: "row_events \<Rightarrow> nat set \<times> nat set \<times> nat set \<times> nat set" where
  "slot_marks evs = (case evs of (e0, e1, e2, e3) \<Rightarrow> (marks e0, marks e1, marks e2, marks e3))"

definition slot_events :: "row_events \<Rightarrow> loop_event list" where
  "slot_events evs = (case evs of (e0, e1, e2, e3) \<Rightarrow> e0 @ e1 @ e2 @ e3)"

fun rows_marked :: "('f, 'i, 'b, 'd, 'r) engine \<Rightarrow> rat \<Rightarrow> 'i \<Rightarrow> nat \<Rightarrow> nat list \<Rightarrow> (nat \<Rightarrow> row_events) \<Rightarrow>
    (nat \<Rightarrow> seq) \<Rightarrow> (nat \<Rightarrow> seq)" where
  "rows_marked e now tokens r [] evs h = h"
| "rows_marked e now tokens r (i # is) evs h =
     rows_marked e now tokens (Suc r) is evs (row_marked e now (elem (ilib e) tokens [r]) i (slot_marks (evs r)) h)"

fun rows_events :: "nat \<Rightarrow> nat list \<Rightarrow> (nat \<Rightarrow> row_events) \<Rightarrow> loop_event list" where
  "rows_events r [] evs = []"
| "rows_events r (i # is) evs = slot_events (evs r) @ rows_events (Suc r) is evs"

lemma row_threaded_splice:
  assumes "N \<le> next_seq_id u" "marks (slot_events evs) \<subseteq> {..<N}" "i < N"
  shows "row_threaded e now token i evs (splice N h u) =
    splice N (row_marked e now token i (slot_marks evs) h) (loop_events e (others (slot_events evs)) u)"
proof -
  obtain e0 e1 e2 e3 where evs: "evs = (e0, e1, e2, e3)" by (cases evs)
  define run where "run es v = loop_events e (others es) v" for es v
  have n: "N \<le> next_seq_id (run es v)" if "N \<le> next_seq_id v" for es v
    using that loop_events_next order_trans unfolding run_def by blast
  have m: "marks e0 \<subseteq> {..<N}" "marks e1 \<subseteq> {..<N}" "marks e2 \<subseteq> {..<N}" "marks e3 \<subseteq> {..<N}"
    using assms(2) by (auto simp: evs slot_events_def)
  note S = splice_events [where e = e, folded run_def]
  have seq: "run e3 (run e2 (run e1 (run e0 u))) = run (slot_events evs) u"
    by (simp add: run_def evs slot_events_def)
  have skip: "loop_events e (e1 @ e2 @ e3) (splice N k (run e0 u)) =
      splice N (abandon (marks e1 \<union> marks e2 \<union> marks e3) k) (run (slot_events evs) u)" for k
    using S [where evs = "e1 @ e2 @ e3" and h = k and u = "run e0 u" and N = N] n [OF assms(1), of e0] m
    by (simp add: run_def evs slot_events_def Un_assoc)
  show ?thesis
    unfolding run_def [symmetric]
    by (simp add: row_threaded_def slot_marks_def evs S n m assms(1,3) skip [unfolded evs] splice_put Let_def
        seq [unfolded evs] del: append.simps loop_events_simps(3))
qed

lemma rows_threaded_splice:
  assumes "N \<le> next_seq_id u" "marks (rows_events r is evs) \<subseteq> {..<N}" "set is \<subseteq> {..<N}"
  shows "rows_threaded e now tokens r is evs (splice N h u) =
    splice N (rows_marked e now tokens r is evs h) (loop_events e (others (rows_events r is evs)) u)"
  using assms
proof (induction "is" arbitrary: r h u)
  case Nil
  then show ?case by simp
next
  case (Cons i "is")
  have "N \<le> next_seq_id (loop_events e (others (slot_events (evs r))) u)"
    using Cons.prems(1) loop_events_next order_trans by blast
  then show ?case using Cons by (simp add: row_threaded_splice)
qed

section \<open>Every mark is before or after\<close>

definition mark_if :: "bool \<Rightarrow> seq \<Rightarrow> seq" where
  "mark_if b s = (if b then s\<lparr>finish_reason := Some ''abandoned''\<rparr> else s)"

lemma abandon_at: "abandon A h j = mark_if (j \<in> A) (h j)"
  by (simp add: abandon_def mark_if_def)

lemma mark_if_mark_if [simp]: "mark_if a (mark_if b s) = mark_if (a \<or> b) s"
  by (simp add: mark_if_def)

lemma mark_if_False [simp]: "mark_if False s = s"
  by (simp add: mark_if_def)

lemma emit_row_writes:
  "\<not> finished s \<Longrightarrow> emit_row e now token s = stop_rule e token (stamp_first now (append_token token s))"
  by (simp add: emit_row_def stop_rule_def stamp_first_def append_token_def Let_def)

text \<open>A mark among the writes survives exactly when no stopping rule fires after it.\<close>

lemma writes_marked:
  "\<exists>b. stop_rule e token (mark_if m3 (stamp_first now (mark_if m2 (append_token token (mark_if m1 s))))) =
    mark_if b (stop_rule e token (stamp_first now (append_token token s)))"
proof -
  have "append_token token (mark_if m s) = mark_if m (append_token token s)"
    "stamp_first now (mark_if m s) = mark_if m (stamp_first now s)"
    "stop_rule e token (mark_if m s) = stop_rule e token s \<or> stop_rule e token (mark_if m s) = mark_if m (stop_rule e token s)"
    for m s by (auto simp: mark_if_def append_token_def stamp_first_def stop_rule_def total_length_def)
  then show ?thesis by (metis mark_if_mark_if mark_if_False)
qed

lemma row_marked_at:
  "\<exists>a b. row_marked e now token i M h i = mark_if b (emit_row e now token (mark_if a (h i)))"
  "j \<noteq> i \<Longrightarrow> \<exists>a. row_marked e now token i M h j = mark_if a (h j)"
proof -
  obtain M0 M1 M2 M3 where M: "M = (M0, M1, M2, M3)" by (cases M)
  define s where "s = mark_if (i \<in> M0) (h i)"
  show "\<exists>a b. row_marked e now token i M h i = mark_if b (emit_row e now token (mark_if a (h i)))"
  proof (cases "finished s")
    case True
    then have "emit_row e now token s = s" by (simp add: emit_row_def)
    moreover have "row_marked e now token i M h i = mark_if (i \<in> M1 \<union> M2 \<union> M3) s"
      using True by (simp add: M Let_def abandon_at s_def)
    ultimately show ?thesis unfolding s_def by metis
  next
    case False
    have "row_marked e now token i M h i = stop_rule e token (mark_if (i \<in> M3) (stamp_first now
        (mark_if (i \<in> M2) (append_token token (mark_if (i \<in> M1) s)))))"
      using False by (simp add: M Let_def abandon_at s_def)
    moreover obtain b where "stop_rule e token (mark_if (i \<in> M3) (stamp_first now (mark_if (i \<in> M2)
        (append_token token (mark_if (i \<in> M1) s))))) = mark_if b (emit_row e now token s)"
      using writes_marked emit_row_writes [OF False] by metis
    ultimately have "row_marked e now token i M h i = mark_if b (emit_row e now token s)" by simp
    then show ?thesis unfolding s_def by blast
  qed
  show "\<exists>a. row_marked e now token i M h j = mark_if a (h j)" if "j \<noteq> i"
    using that by (auto simp: M Let_def abandon_at)
qed

lemma emit_rows_cong: "h j = h' j \<Longrightarrow> emit_rows e now tokens r is h j = emit_rows e now tokens r is h' j"
proof (induction "is" arbitrary: r h h')
  case Nil
  then show ?case by simp
next
  case (Cons i "is")
  let ?x = "elem (ilib e) tokens [r]"
  have "(h(i := emit_row e now ?x (h i))) j = (h'(i := emit_row e now ?x (h' i))) j" using Cons.prems by auto
  then have "emit_rows e now tokens (Suc r) is (h(i := emit_row e now ?x (h i))) j =
      emit_rows e now tokens (Suc r) is (h'(i := emit_row e now ?x (h' i))) j" using Cons.IH by blast
  then show ?case by simp
qed

lemma rows_marked_at:
  assumes "distinct is"
  shows "\<exists>a b. rows_marked e now tokens r is evs h j =
    mark_if b (emit_rows e now tokens r is (h(j := mark_if a (h j))) j)"
  using assms
proof (induction "is" arbitrary: r h)
  case Nil
  show ?case by (intro exI [of _ False]) simp
next
  case (Cons i "is")
  let ?h = "row_marked e now (elem (ilib e) tokens [r]) i (slot_marks (evs r)) h"
  obtain a b where ab: "rows_marked e now tokens (Suc r) is evs ?h j =
      mark_if b (emit_rows e now tokens (Suc r) is (?h(j := mark_if a (?h j))) j)"
    using Cons.IH Cons.prems by (metis distinct.simps(2))
  show ?case
  proof (cases "j = i")
    case True
    then have "rows_marked e now tokens r (i # is) evs h j = mark_if (b \<or> a) (?h j)"
      using ab Cons.prems by (simp add: emit_rows_other)
    moreover obtain c d where "?h j = mark_if d (emit_row e now (elem (ilib e) tokens [r]) (mark_if c (h i)))"
      using row_marked_at(1) True by metis
    ultimately have "rows_marked e now tokens r (i # is) evs h j =
        mark_if (b \<or> a \<or> d) (emit_row e now (elem (ilib e) tokens [r]) (mark_if c (h i)))"
      by (simp add: disj_assoc)
    then show ?thesis using True Cons.prems by (auto simp: emit_rows_other)
  next
    case False
    obtain c where "?h j = mark_if c (h j)" using row_marked_at(2) [OF False] by metis
    then have "rows_marked e now tokens r (i # is) evs h j =
        mark_if b (emit_rows e now tokens r (i # is) (h(j := mark_if (a \<or> c) (h j))) j)"
      using ab False by (simp, intro arg_cong [where f = "mark_if b"] emit_rows_cong) simp
    then show ?thesis by blast
  qed
qed

lemma rows_marked_split:
  assumes "distinct is"
  obtains A B where "rows_marked e now tokens r is evs h = abandon B (emit_rows e now tokens r is (abandon A h))"
proof -
  obtain a b where ab: "rows_marked e now tokens r is evs h j =
      mark_if (b j) (emit_rows e now tokens r is (h(j := mark_if (a j) (h j))) j)" for j
    using rows_marked_at [OF assms, of e now tokens r evs h] by metis
  have "rows_marked e now tokens r is evs h j =
      abandon {j. b j} (emit_rows e now tokens r is (abandon {j. a j} h)) j" for j
    unfolding ab abandon_at by (auto intro!: arg_cong [where f = "mark_if (b j)"] emit_rows_cong simp: abandon_at)
  then have "rows_marked e now tokens r is evs h =
      abandon {j. b j} (emit_rows e now tokens r is (abandon {j. a j} h))" by (rule ext)
  then show thesis by (rule that)
qed

section \<open>Whole calls\<close>

text \<open>A call with events is the events up to its reading of the clock, marks, the call, marks, and the rest
  of the events.\<close>

definition before_call :: "('f, 'i, 'b, 'd, 'r) engine \<Rightarrow> call_events \<Rightarrow> nat set \<Rightarrow> 'r world \<Rightarrow> 'r world" where
  "before_call e ce A w =
     (let w = loop_events e (ce_forward ce @ ce_sampled ce) w in w\<lparr>heap := abandon A (heap w)\<rparr>)"

definition after_call :: "('f, 'i, 'b, 'd, 'r) engine \<Rightarrow> call_events \<Rightarrow> nat list \<Rightarrow> nat set \<Rightarrow> 'r world \<Rightarrow> 'r world" where
  "after_call e ce is B w =
     loop_events e (others (rows_events 0 is (ce_rows ce)) @ ce_after ce) (w\<lparr>heap := abandon B (heap w)\<rparr>)"

definition all_events :: "call_events \<Rightarrow> nat list \<Rightarrow> loop_event list" where
  "all_events ce is = ce_forward ce @ ce_sampled ce @ rows_events 0 is (ce_rows ce) @ ce_after ce"

lemma on_event_fields:
  assumes "i < next_seq_id w"
  shows "params (heap (on_event e ev w) i) = params (heap w i)"
    "prompt_ids (heap (on_event e ev w) i) = prompt_ids (heap w i)"
    "output_ids (heap (on_event e ev w) i) = output_ids (heap w i)"
  using assms by (cases ev; simp add: make_sequence_eq monotonic_def abandon_def)+

lemma on_event_frame [simp]: "rng (on_event e ev w) = rng w" "clock (on_event e ev w) = clock w"
  by (cases ev; simp add: make_sequence_eq monotonic_def)+

lemma loop_events_fields:
  "i < next_seq_id w \<Longrightarrow> params (heap (loop_events e evs w) i) = params (heap w i) \<and>
    prompt_ids (heap (loop_events e evs w) i) = prompt_ids (heap w i) \<and>
    output_ids (heap (loop_events e evs w) i) = output_ids (heap w i)"
proof (induction evs arbitrary: w)
  case (Cons ev evs)
  show ?case
    using Cons.IH [of "on_event e ev w"] order.strict_trans2 [OF Cons.prems on_event_next [of w e ev]]
      on_event_fields [OF Cons.prems, of e ev] by simp
qed simp

lemma loop_events_frame [simp]: "rng (loop_events e evs w) = rng w" "clock (loop_events e evs w) = clock w"
  by (induction evs arbitrary: w) simp_all

text \<open>Drawing random numbers commutes with the events.\<close>

lemma loop_events_rng: "loop_events e evs (w\<lparr>rng := g\<rparr>) = (loop_events e evs w)\<lparr>rng := g\<rparr>"
proof (induction evs arbitrary: w)
  case (Cons ev evs)
  have "on_event e ev (w\<lparr>rng := g\<rparr>) = (on_event e ev w)\<lparr>rng := g\<rparr>"
    by (cases ev) (simp_all add: make_sequence_eq monotonic_def)
  then show ?case using Cons by simp
qed simp

definition around :: "('f, 'i, 'b, 'd, 'r) engine \<Rightarrow> call_events \<Rightarrow> nat list \<Rightarrow> nat set \<Rightarrow> nat set \<Rightarrow>
    ('r world \<Rightarrow> exn + ('f, 'i) batch_state \<times> 'r world) \<Rightarrow> 'r world \<Rightarrow> exn + ('f, 'i) batch_state \<times> 'r world" where
  "around e ce is A B call w = (case call (before_call e ce A w) of
       Inl ex \<Rightarrow> Inl ex
     | Inr (st, w') \<Rightarrow> Inr (st, after_call e ce is B w'))"

lemma before_call_fields:
  assumes "i < next_seq_id w"
  shows "params (heap (before_call e ce A w) i) = params (heap w i)"
    "prompt_ids (heap (before_call e ce A w) i) = prompt_ids (heap w i)"
    "output_ids (heap (before_call e ce A w) i) = output_ids (heap w i)"
  using loop_events_fields [OF assms, of e "ce_forward ce @ ce_sampled ce"]
  by (simp_all add: before_call_def abandon_def Let_def del: loop_events_simps(3))

lemma before_call_frame [simp]: "rng (before_call e ce A w) = rng w" "clock (before_call e ce A w) = clock w"
  by (simp_all add: before_call_def Let_def)

lemma others_others [simp]: "others (others evs) = others evs"
  by (simp add: others_def)

lemma marks_others [simp]: "marks (others evs) = {}"
  by (auto simp: marks_def others_def)

text \<open>The rows of a call, as marks around the rows alone and the rest of the events after them.\<close>

lemma rows_threaded_split:
  assumes "distinct is" "set is \<subseteq> {..<next_seq_id w}" "marks (rows_events r is evs) \<subseteq> {..<next_seq_id w}"
  obtains A B where "rows_threaded e now tokens r is evs w =
    loop_events e (others (rows_events r is evs))
      (w\<lparr>heap := abandon B (emit_rows e now tokens r is (abandon A (heap w)))\<rparr>)"
proof -
  let ?N = "next_seq_id w"
  obtain A B where AB: "rows_marked e now tokens r is evs (heap w) = abandon B (emit_rows e now tokens r is (abandon A (heap w)))"
    by (rule rows_marked_split [OF assms(1)])
  define h where "h = abandon (B \<inter> {..<?N}) (emit_rows e now tokens r is (abandon (A \<inter> {..<?N}) (heap w)))"
  have low: "h j = rows_marked e now tokens r is evs (heap w) j" if "j < ?N" for j
    unfolding h_def AB abandon_at using that
    by (auto intro!: arg_cong [where f = "mark_if (j \<in> B)"] emit_rows_cong simp: abandon_at)
  have high: "h j = heap w j" if "\<not> j < ?N" for j
  proof -
    have "j \<notin> set is" using assms(2) that by auto
    then show ?thesis using that by (simp add: h_def abandon_at emit_rows_other)
  qed
  have "rows_threaded e now tokens r is evs w =
      splice ?N (rows_marked e now tokens r is evs (heap w)) (loop_events e (others (rows_events r is evs)) w)"
    using rows_threaded_splice [OF _ assms(3,2), of w e now tokens "heap w"] by simp
  also have "\<dots> = loop_events e (others (rows_events r is evs)) (splice ?N (rows_marked e now tokens r is evs (heap w)) w)"
    by (simp add: splice_events)
  also have "splice ?N (rows_marked e now tokens r is evs (heap w)) w = w\<lparr>heap := h\<rparr>"
    using low high by (auto simp: splice_def intro!: arg_cong [where f = "\<lambda>h. w\<lparr>heap := h\<rparr>"])
  finally show thesis using that unfolding h_def by blast
qed

lemma emit_around:
  assumes "distinct (seqs st)" "set (seqs st) \<subseteq> {..<next_seq_id w}"
    "marks (rows_events 0 (seqs st) (ce_rows ce)) \<subseteq> {..<next_seq_id w}"
  shows "\<exists>A B. emit_threaded e st logits ce w = around e ce (seqs st) A B (emit e st logits) w"
proof -
  define w1 where "w1 = loop_events e (ce_forward ce @ ce_sampled ce) w"
  have n: "next_seq_id w \<le> next_seq_id w1" unfolding w1_def by (rule loop_events_next)
  have ps: "map (\<lambda>i. params (heap (loop_events e (ce_forward ce) w) i)) (seqs st) = map (\<lambda>i. params (heap w i)) (seqs st)"
    "map (\<lambda>i. params (heap (before_call e ce A w) i)) (seqs st) = map (\<lambda>i. params (heap w i)) (seqs st)" for A
    using assms(2) by (auto simp: loop_events_fields before_call_fields)
  show ?thesis
  proof (cases "sample_batch (flib e) (ilib e) logits (map (\<lambda>i. params (heap w i)) (seqs st)) (rng w)")
    case (Inl ex)
    then have "emit_threaded e st logits ce w = around e ce (seqs st) {} {} (emit e st logits) w"
      by (simp add: emit_threaded_def around_def emit_def ps Let_def)
    then show ?thesis by blast
  next
    case (Inr p)
    obtain tokens g where p: "p = (tokens, g)" by fastforce
    define w2 where "w2 = w1\<lparr>rng := g, clock_reads := Suc (clock_reads w1)\<rparr>"
    let ?now = "clock w (clock_reads w1)"
    have "set (seqs st) \<subseteq> {..<next_seq_id w2}" "marks (rows_events 0 (seqs st) (ce_rows ce)) \<subseteq> {..<next_seq_id w2}"
      using assms(2,3) n by (auto simp: w2_def)
    then obtain A B where AB: "rows_threaded e ?now tokens 0 (seqs st) (ce_rows ce) w2 =
        loop_events e (others (rows_events 0 (seqs st) (ce_rows ce)))
          (w2\<lparr>heap := abandon B (emit_rows e ?now tokens 0 (seqs st) (abandon A (heap w2)))\<rparr>)"
      by (rule rows_threaded_split [OF assms(1)])
    have b: "before_call e ce A w = w1\<lparr>heap := abandon A (heap w1)\<rparr>"
      by (simp add: before_call_def w1_def Let_def)
    have r1: "rng w1 = rng w" "clock w1 = clock w" by (simp_all add: w1_def)
    have "emit_threaded e st logits ce w = Inr (st\<lparr>next_tokens := Some (unsqueeze_last (ilib e) tokens)\<rparr>,
        loop_events e (ce_after ce) (rows_threaded e ?now tokens 0 (seqs st) (ce_rows ce) w2))"
      using Inr p by (simp add: emit_threaded_def ps monotonic_def loop_events_rng w1_def w2_def Let_def)
    moreover have "emit e st logits (before_call e ce A w) = Inr (st\<lparr>next_tokens := Some (unsqueeze_last (ilib e) tokens)\<rparr>,
        w2\<lparr>heap := emit_rows e ?now tokens 0 (seqs st) (abandon A (heap w2))\<rparr>)"
      unfolding emit_def before_call_frame ps(2) Inr p by (simp add: b monotonic_def r1 w2_def)
    ultimately have "emit_threaded e st logits ce w = around e ce (seqs st) A B (emit e st logits) w"
      by (simp add: around_def after_call_def AB)
    then show ?thesis by blast
  qed
qed

lemma decode_around:
  assumes "seqs st \<noteq> []" "distinct (seqs st)" "set (seqs st) \<subseteq> {..<next_seq_id w}"
    "marks (rows_events 0 (seqs st) (ce_rows ce)) \<subseteq> {..<next_seq_id w}"
  shows "\<exists>A B. decode_threaded e st ce w = around e ce (seqs st) A B (decode_step e st) w"
proof (cases "(attn_mask st, next_tokens st)")
  case (Pair am nt)
  show ?thesis
  proof (cases "am = None \<or> nt = None")
    case True
    then have "decode_threaded e st ce w = around e ce (seqs st) {} {} (decode_step e st) w"
      using assms(1) Pair by (auto simp: decode_threaded_def around_def decode_step_def split: option.split)
    then show ?thesis by blast
  next
    case False
    then obtain m nx where mn: "attn_mask st = Some m" "next_tokens st = Some nx" using Pair by auto
    define attn where "attn = cat (ilib e) [m, full (ilib e) [length (seqs st), 1] 1] 1"
    define fw where "fw = forward e nx attn (sub_scalar (ilib e) (sum_keepdim (ilib e) attn) 1) (to_cache (clib e) (cache st))"
    show ?thesis
    proof (cases fw)
      case (Inl ex)
      then have "decode_threaded e st ce w = around e ce (seqs st) {} {} (decode_step e st) w"
        using assms(1) mn by (simp add: decode_threaded_def around_def decode_step_def Let_def attn_def fw_def)
      then show ?thesis by blast
    next
      case (Inr p)
      let ?st = "st\<lparr>cache := from_cache (clib e) (fst p), attn_mask := Some attn\<rparr>"
      have "decode_threaded e st ce w = emit_threaded e ?st (last_position (flib e) (snd p)) ce w"
        "decode_step e st = emit e ?st (last_position (flib e) (snd p))"
        using Inr assms(1) mn by (auto simp: decode_threaded_def decode_step_def Let_def attn_def fw_def split: prod.split)
      then show ?thesis using emit_around [of ?st w ce e "last_position (flib e) (snd p)"] assms(2-4) by simp
    qed
  qed
qed

lemma prefill_around:
  assumes "ss \<noteq> []" "distinct ss" "set ss \<subseteq> {..<next_seq_id w}" "marks (rows_events 0 ss (ce_rows ce)) \<subseteq> {..<next_seq_id w}"
  shows "\<exists>A B. prefill_threaded e ss ce w = around e ce ss A B (prefill e ss) w"
proof -
  define pads where "pads = left_pad_sequences (ilib e) (map (\<lambda>i. prompt_ids (heap w i)) ss) (pad_token_id e)"
  have ps: "map (\<lambda>i. prompt_ids (heap (before_call e ce A w) i)) ss = map (\<lambda>i. prompt_ids (heap w i)) ss" for A
    using assms(3) by (auto simp: before_call_fields)
  define fw where "fw = try_bind pads (\<lambda>(ids, attn). try_bind (forward e ids attn (positions_from_mask (ilib e) attn) NoPast)
    (\<lambda>(past, logits). Inr (attn, past, logits)))"
  show ?thesis
  proof (cases fw)
    case (Inl ex)
    then have "prefill_threaded e ss ce w = around e ce ss {} {} (prefill e ss) w"
      using assms(1) by (cases pads) (auto simp: prefill_threaded_def around_def prefill_def ps pads_def fw_def
          try_bind_def split: sum.splits prod.splits)
    then show ?thesis by blast
  next
    case (Inr p)
    obtain attn past logits where p: "p = (attn, past, logits)" by (cases p)
    let ?st = "\<lparr>seqs = ss, cache = from_cache (clib e) past, attn_mask = Some attn, next_tokens = None\<rparr>"
    have "prefill_threaded e ss ce w = emit_threaded e ?st (last_position (flib e) logits) ce w"
      using Inr p assms(1) by (auto simp: prefill_threaded_def pads_def fw_def try_bind_def split: sum.splits prod.splits)
    moreover have "prefill e ss (before_call e ce A w) = emit e ?st (last_position (flib e) logits) (before_call e ce A w)" for A
      using Inr p assms(1) by (auto simp: prefill_def ps pads_def fw_def try_bind_def split: sum.splits prod.splits)
    ultimately show ?thesis
      using emit_around [of ?st w ce e "last_position (flib e) logits"] assms(2-4) by (simp add: around_def)
  qed
qed

lemma admit_around:
  assumes "new \<noteq> []" "distinct new" "set new \<subseteq> {..<next_seq_id w}" "marks (rows_events 0 new (ce_rows ce)) \<subseteq> {..<next_seq_id w}"
  shows "\<exists>A B. admit_threaded e st new ce w = around e ce new A B (admit e st new) w"
proof -
  obtain A B where AB: "prefill_threaded e new ce w = around e ce new A B (prefill e new) w"
    using prefill_around [OF assms] by blast
  have "admit_threaded e st new ce w = around e ce new A B (admit e st new) w"
    using assms(1) unfolding admit_threaded_def AB admit_def around_def
    by (cases "prefill e new (before_call e ce A w)") (auto simp: Let_def split: option.split)
  then show ?thesis by blast
qed

section \<open>The step relation covers them\<close>

lemma reach_on_event: "engine_reach e w st \<Longrightarrow> engine_reach e (on_event e ev w) st"
proof (cases ev)
  case (Submit p ps rid)
  assume "engine_reach e w st"
  from engine_reach.submit [OF this prod.collapse [symmetric]] show ?thesis unfolding Submit by simp
next
  case Clock
  assume "engine_reach e w st"
  from engine_reach.elapse [OF this, where c = "Suc (clock_reads w)" and r = "rng w"] show ?thesis unfolding Clock by (simp add: monotonic_def)
qed (simp add: engine_reach.abandon)

lemma reach_loop_events: "engine_reach e w st \<Longrightarrow> engine_reach e (loop_events e evs w) st"
  by (induction evs arbitrary: w) (auto intro: reach_on_event)

lemma reach_before: "engine_reach e w st \<Longrightarrow> engine_reach e (before_call e ce A w) st"
  by (auto simp: before_call_def Let_def intro: engine_reach.abandon reach_loop_events)

lemma reach_after: "engine_reach e w st \<Longrightarrow> engine_reach e (after_call e ce is B w) st"
  by (auto simp: after_call_def intro: engine_reach.abandon reach_loop_events)

lemma before_call_next: "next_seq_id w \<le> next_seq_id (before_call e ce A w)"
  using loop_events_next [of w e "ce_forward ce @ ce_sampled ce"] by (simp add: before_call_def Let_def)

lemma around_InrE:
  assumes "around e ce is A B call w = Inr (st', w')"
  obtains w1 where "call (before_call e ce A w) = Inr (st', w1)" "w' = after_call e ce is B w1"
  using assms by (auto simp: around_def split: sum.splits prod.splits)

lemma reach_decode_around:
  assumes "engine_reach e w st" "around e ce is A B (decode_step e st) w = Inr (st', w')"
  shows "engine_reach e w' st'"
  using assms(2) by (rule around_InrE) (auto intro: reach_after engine_reach.decode [OF reach_before [OF assms(1)]])

lemma reach_admit_around:
  assumes "engine_reach e w st" "distinct new" "set new \<subseteq> issued w - set (seqs st)"
    "\<forall>j\<in>set new. output_ids (heap w j) = []" "around e ce is A B (admit e st new) w = Inr (st', w')"
  shows "engine_reach e w' st'"
proof -
  obtain w1 where w1: "admit e st new (before_call e ce A w) = Inr (st', w1)" "w' = after_call e ce is B w1"
    using assms(5) by (rule around_InrE)
  have "set new \<subseteq> issued (before_call e ce A w) - set (seqs st)"
    "\<forall>j\<in>set new. output_ids (heap (before_call e ce A w) j) = []"
    using assms(3,4) before_call_next [of w e ce A] by (auto simp: issued_def before_call_fields subset_iff)
  from engine_reach.admit [OF reach_before [OF assms(1)] assms(2) this w1(1)] show ?thesis
    unfolding w1(2) by (rule reach_after)
qed

end
