(* ===== verification/EngineProps.thy ===== *)
theory EngineProps
  imports Demo Threads
begin

text \<open>
  The properties of the engine: what its operations guarantee for every schedule, and what its
  entry points return.
\<close>

section \<open>Helpers\<close>

text \<open>A batch of running sequences is as wide as its longest row, less the token not yet fed.\<close>

lemma live_width:
  assumes inv: "batch_inv e dims lm h st" and dims: "dims \<noteq> []" and ne: "seqs st \<noteq> []"
    and live: "\<forall>j\<in>set (seqs st). \<not> finished (h j)"
  shows "cache_length (flib e) (cache st) = Max ((\<lambda>j. total_length (h j) - 1) ` set (seqs st))"
proof -
  from inv ne obtain m nx w qs where st: "cache_shape (flib e) dims (length (seqs st)) w (cache st)"
    "length qs = length (seqs st)" "w \<in> set qs"
    "\<forall>i<length (seqs st). row_inv e lm h st m nx w (qs ! i) i" by (rule batch_invE)
  have q: "qs ! i = total_length (h (seqs st ! i)) - 1 \<and> qs ! i \<le> w" if "i < length (seqs st)" for i
    using st(4) live that by (auto simp: row_inv_def Let_def total_length_def)
  have "set qs = (\<lambda>j. total_length (h j) - 1) ` set (seqs st)"
    using q st(2) by (force simp: in_set_conv_nth set_conv_nth)
  moreover have "Max (set qs) = w"
    using q st(2,3) by (intro Max_eqI) (auto simp: in_set_conv_nth)
  ultimately show ?thesis using cache_length_eq [OF st(1) dims] by simp
qed

section \<open>Every schedule\<close>

text \<open>C1: continuous batching does not change what a request generates. In every state the engine
  can reach, by any order of submitting, admitting, decoding, evicting and abandoning, a greedy
  sequence that has finished (and was not abandoned) holds exactly the tokens and the finish
  reason that the reference computes from its prompt alone, whatever shared the batch with it.\<close>

theorem schedule_independence:
  assumes "network e amax fdiv sortd order smax csum fsub dims vocab lm"
    and "2 \<le> context_limit e" and "engine_reach e w st" and "j \<in> issued w"
    and "greedy (heap w j)" and "finish_reason (heap w j) = Some r" and "r \<noteq> ''abandoned''"
  shows "solo amax lm (eos_token_id e) (context_limit e) (max_tokens (params (heap w j)))
    (prompt_ids (heap w j)) = (output_ids (heap w j), r)"
proof -
  note inv = network.engine_reach_inv [OF assms(1,3,2)]
  show ?thesis
    by (rule tracks_solo [OF engine_invD(4) [OF inv assms(4)] assms(5)
          engine_invD(3) [OF inv assms(4)] assms(6,7)])
qed

lemma schedule_independence_witness:
  "\<exists>w st. engine_reach demo_engine w st \<and> finish_reason (heap w 1) = Some ''stop'' \<and>
    output_ids (heap w 1) = [1, 2] \<and> solo ref_max demo_lm 2 8 4 [97] = (output_ids (heap w 1), ''stop'')"
proof (rule demo_run)
  fix w1 w2 st2 w3 st3
  assume "engine_reach demo_engine w3 st3" "issued w3 = {1}" "prompt_ids (heap w3 1) = [97]"
    "output_ids (heap w3 1) = [1, 2]" "finish_reason (heap w3 1) = Some ''stop''" "greedy (heap w3 1)"
    "max_tokens (params (heap w3 1)) = 4"
  moreover from this have "solo ref_max demo_lm 2 8 4 [97] = (output_ids (heap w3 1), ''stop'')"
    using schedule_independence [OF demo_network, of w3 st3 1 "''stop''"] by simp
  ultimately show ?thesis by blast
qed






text \<open>C28: admission does not disturb what is running. The newcomers go behind the running
  sequences, in order; each of them that is not abandoned gets its first token; and no sequence
  outside the newcomers is written.\<close>

theorem admit_appends:
  assumes "network e amax fdiv sortd order smax csum fsub dims vocab lm"
    and "2 \<le> context_limit e" and "engine_reach e w st" and "distinct new"
    and "set new \<subseteq> issued w - set (seqs st)" and "\<forall>j\<in>set new. output_ids (heap w j) = []"
    and "admit e st new w = Inr (st', w')"
  shows "seqs st' = seqs st @ new \<and>
    (\<forall>j. j \<notin> set new \<longrightarrow> heap w' j = heap w j) \<and>
    (\<forall>j\<in>set new. \<not> finished (heap w j) \<longrightarrow> length (output_ids (heap w' j)) = 1)"
proof -
  note inv = network.engine_reach_inv [OF assms(1,3,2)]
  note A = network.engine_inv_admit [OF assms(1) inv assms(4-7)]
  have "length (output_ids (heap w' j)) = 1" if "j \<in> set new" "\<not> finished (heap w j)" for j
    using advanced_output [OF A(3) that] assms(6) that by auto
  then show ?thesis using A(2,3) by (auto simp: advanced_def)
qed

lemma admit_appends_witness:
  "\<exists>w st' w'. admit demo_engine empty_state [1] w = Inr (st', w') \<and> seqs st' = [1]"
proof (rule demo_run)
  fix w1 w2 st2 w3 st3
  assume r: "engine_reach demo_engine w1 empty_state" "issued w1 = {1}" "output_ids (heap w1 1) = []"
    "prefill demo_engine [1] w1 = Inr (st2, w2)"
  then have adm: "admit demo_engine empty_state [1] w1 = Inr (st2, w2)" by (simp add: admit_def)
  then have "seqs st2 = [1]"
    using admit_appends [OF demo_network _ r(1) _ _ _ adm] r(2,3) by simp
  then show ?thesis using adm by blast
qed

text \<open>C29: a decode step advances every running row by exactly one token and follows the stopping
  rules; a finished row and everything outside the batch keep their outputs, and the batch keeps
  its rows.\<close>

theorem decode_advances:
  assumes "network e amax fdiv sortd order smax csum fsub dims vocab lm"
    and "2 \<le> context_limit e" and "engine_reach e w st" and "decode_step e st w = Inr (st', w')"
  shows "seqs st' = seqs st \<and>
    (\<forall>j. j \<notin> set (seqs st) \<or> finished (heap w j) \<longrightarrow> heap w' j = heap w j) \<and>
    (\<forall>j\<in>set (seqs st). \<not> finished (heap w j) \<longrightarrow> (\<exists>t.
       output_ids (heap w' j) = output_ids (heap w j) @ [t] \<and>
       finish_reason (heap w' j) =
         (if t = eos_token_id e then Some ''stop''
          else if max_tokens (params (heap w j)) \<le> int (length (output_ids (heap w' j))) then Some ''length''
          else if context_limit e \<le> int (total_length (heap w' j)) then Some ''length''
          else None)))"
proof -
  note inv = network.engine_reach_inv [OF assms(1,3,2)]
  note D = network.engine_inv_decode [OF assms(1) inv assms(4)]
  have other: "heap w' j = heap w j" if "j \<notin> set (seqs st) \<or> finished (heap w j)" for j
    using D(3) that advanced_finished [OF D(3)] by (auto simp: advanced_def)
  have step: "\<exists>t. output_ids (heap w' j) = output_ids (heap w j) @ [t] \<and>
       finish_reason (heap w' j) =
         (if t = eos_token_id e then Some ''stop''
          else if max_tokens (params (heap w j)) \<le> int (length (output_ids (heap w' j))) then Some ''length''
          else if context_limit e \<le> int (total_length (heap w' j)) then Some ''length''
          else None)" if j: "j \<in> set (seqs st)" "\<not> finished (heap w j)" for j
  proof -
    obtain now t where h: "heap w' j = emit_row e now t (heap w j)"
      using D(3) j(1) unfolding advanced_def by blast
    show ?thesis
      unfolding h emit_row_reason [OF j(2)] total_length_def
      by (rule exI [of _ t]) (simp add: emit_row_output [OF j(2)] seq_verdict_def verdict_def)
  qed
  show ?thesis using D(2) other step by blast
qed

lemma decode_advances_witness:
  "\<exists>w st w' st'. decode_step demo_engine st w = Inr (st', w') \<and> seqs st' = [1] \<and>
    output_ids (heap w 1) = [1] \<and> length (output_ids (heap w' 1)) = 2"
proof (rule demo_run)
  fix w1 w2 st2 w3 st3
  assume r: "engine_reach demo_engine w2 st2" "seqs st2 = [1]" "output_ids (heap w2 1) = [1]"
    "\<not> finished (heap w2 1)" "decode_step demo_engine st2 w2 = Inr (st3, w3)"
  then have "seqs st3 = [1]" "length (output_ids (heap w3 1)) = 2"
    using decode_advances [OF demo_network _ r(1) r(5)] by auto
  then show ?thesis using r by blast
qed

text \<open>C27: eviction splits the batch by who has finished, returns exactly the finished sequences,
  and never raises. What is left holds no padding that every row shares: the cache is as long as
  the longest running text, less its last token, which is still to be fed.\<close>

theorem evict_splits:
  assumes "network e amax fdiv sortd order smax csum fsub dims vocab lm"
    and "2 \<le> context_limit e" and "engine_reach e w st"
  shows "\<exists>st'. evict_finished e st w = Inr (st', filter (\<lambda>j. finished (heap w j)) (seqs st)) \<and>
    seqs st' = filter (\<lambda>j. \<not> finished (heap w j)) (seqs st) \<and>
    (if seqs st' = [] then st' = empty_state
     else cache_length (flib e) (cache st') = Max ((\<lambda>j. total_length (heap w j) - 1) ` set (seqs st')))"
proof -
  note inv = network.engine_reach_inv [OF assms(1,3,2)]
  obtain st' gone where ev: "evict_finished e st w = Inr (st', gone)"
    by (rule network.evict_finished_total [OF assms(1) inv])
  note E = network.evict_finished_live [OF assms(1) inv ev]
  have "\<forall>j\<in>set (seqs st'). \<not> finished (heap w j)" using E(2) by simp
  note lw = live_width [OF engine_invD(1) [OF E(1)] network.dims [OF assms(1)] _ this]
  have "seqs st' = [] \<Longrightarrow> st' = empty_state"
    using engine_invD(1) [OF E(1)] by (simp add: batch_inv_def)
  then show ?thesis using ev E(2,3) lw by auto
qed

lemma evict_splits_witness:
  "\<exists>w st. engine_reach demo_engine w st \<and> evict_finished demo_engine st w = Inr (empty_state, [1])"
proof (rule demo_run)
  fix w1 w2 st2 w3 st3
  assume r: "engine_reach demo_engine w3 st3" "seqs st3 = [1]" "finish_reason (heap w3 1) = Some ''stop''"
  then have "filter (\<lambda>j. finished (heap w3 j)) (seqs st3) = [1]"
    "filter (\<lambda>j. \<not> finished (heap w3 j)) (seqs st3) = []" by (simp_all add: finished_def)
  then have "evict_finished demo_engine st3 w3 = Inr (empty_state, [1])"
    using evict_splits [OF demo_network _ r(1)] by auto
  then show ?thesis using r(1) by blast
qed



text \<open>C36: how every sequence ends. A sequence that has finished without being abandoned has at
  least one token and at most its budget, its text fits the context window, its reason is
  \<open>stop\<close> exactly when its last token is the end-of-sequence token, and otherwise \<open>length\<close>.\<close>

theorem finished_within_limits:
  assumes "network e amax fdiv sortd order smax csum fsub dims vocab lm"
    and "2 \<le> context_limit e" and "engine_reach e w st" and "j \<in> issued w"
    and "finish_reason (heap w j) = Some r" and "r \<noteq> ''abandoned''"
  shows "output_ids (heap w j) \<noteq> [] \<and>
    int (length (output_ids (heap w j))) \<le> max_tokens (params (heap w j)) \<and>
    int (total_length (heap w j)) \<le> context_limit e \<and>
    r = (if last (output_ids (heap w j)) = eos_token_id e then ''stop'' else ''length'')"
proof -
  note inv = network.engine_reach_inv [OF assms(1,3,2)]
  note tr = engine_invD(4) [OF inv assms(4)] and ok = engine_invD(3) [OF inv assms(4)]
  have v: "seq_verdict e (heap w j) (output_ids (heap w j)) = Some r"
    using tr assms(5,6) by (simp add: tracks_def)
  have "int (total_length (heap w j)) \<le> context_limit e"
  proof (cases "length (output_ids (heap w j)) \<le> 1")
    case True
    then show ?thesis using ok by (simp add: seq_ok_def total_length_def)
  next
    case False
    let ?k = "length (output_ids (heap w j)) - 1"
    have "seq_verdict e (heap w j) (take ?k (output_ids (heap w j))) = None"
      using tr False by (simp add: tracks_def)
    moreover have "take ?k (output_ids (heap w j)) \<noteq> []" using False by auto
    ultimately show ?thesis
      using False by (auto simp: seq_verdict_def verdict_def total_length_def split: if_splits)
  qed
  then show ?thesis
    using v tracks_length [OF tr ok] by (auto simp: seq_verdict_def verdict_def split: if_splits)
qed

lemma finished_within_limits_witness:
  "\<exists>w st. engine_reach demo_engine w st \<and> output_ids (heap w 1) = [1, 2] \<and>
    int (total_length (heap w 1)) \<le> 8"
proof (rule demo_run)
  fix w1 w2 st2 w3 st3
  assume r: "engine_reach demo_engine w3 st3" "issued w3 = {1}" "output_ids (heap w3 1) = [1, 2]"
    "finish_reason (heap w3 1) = Some ''stop''"
  then show ?thesis
    using finished_within_limits [OF demo_network _ r(1), of 1 "''stop''"] by auto
qed

section \<open>The entry points\<close>

text \<open>C11: cached greedy generation is the reference, and it returns. Inside its window the network
  does not raise, so \<open>generate_with_kv_cache\<close> returns the text of the reference for the prompt,
  with the token count clamped to the configured range, and leaves the requested count in the
  caller's parameters.\<close>

theorem kv_cache_generation:
  assumes "serving e amax fdiv sortd order smax csum fsub dims vocab lm"
    and "2 \<le> context_limit e" and "engine_reach e w st"
    and "p = (case ps of None \<Rightarrow> default_params | Some p \<Rightarrow> p)" and "\<not> flt (Fin 0) (temperature p)"
  shows "\<exists>w'. generate_with_kv_cache e prompt n ps w = Some (Inr (decode e
    (fst (solo amax lm (eos_token_id e) (context_limit e) (budget e n) (encode e prompt))),
    p\<lparr>max_tokens := n\<rparr>, w'))"
  by (rule serving.generate_with_kv_cache_solo [OF assms(1)
        network.engine_reach_inv [OF serving.axioms(1) [OF assms(1)] assms(3,2)] assms(2,4,5)])

lemma demo_context: "2 \<le> context_limit demo_engine"
  by simp

lemma kv_cache_generation_witness:
  "\<exists>w'. generate_with_kv_cache demo_engine ''a'' 4 None demo_world =
    Some (Inr (''12'', default_params\<lparr>max_tokens := 4\<rparr>, w'))"
proof -
  have "solo ref_max demo_lm 2 8 4 [97] = ([1, 2], ''stop'')" by code_simp
  moreover have "demo_decode [1, 2] = ''12''" by code_simp
  moreover have "budget demo_engine 4 = 4" by (simp add: budget_def demo_settings_def)
  ultimately show ?thesis
    using kv_cache_generation [OF demo_serving _ demo_start refl, of None "''a''" 4]
    by (simp add: default_params_def demo_encode_a decode_def)
qed

text \<open>C10: a static batch is as good as one prompt at a time. For greedy parameters
  \<open>generate_batch\<close> returns, and for each prompt it returns the reference's text: the padding, the
  other prompts and the evictions along the way leave no trace.\<close>

theorem batch_generation:
  assumes "serving e amax fdiv sortd order smax csum fsub dims vocab lm"
    and "2 \<le> context_limit e" and "engine_reach e w st"
    and "\<not> flt (Fin 0) (temperature (case ps of None \<Rightarrow> default_params | Some p \<Rightarrow> p))"
  shows "\<exists>w'. generate_batch e prompts n ps w = Some (Inr (map (\<lambda>prompt. decode e
    (fst (solo amax lm (eos_token_id e) (context_limit e) (budget e n) (encode e prompt)))) prompts, w'))"
  by (rule serving.generate_batch_solo [OF assms(1)
        network.engine_reach_inv [OF serving.axioms(1) [OF assms(1)] assms(3,2)] assms(2,4)])

lemma batch_generation_witness:
  "\<exists>w'. generate_batch demo_engine [''a'', ''ab''] 4 None demo_world = Some (Inr ([''12'', ''2''], w'))"
proof -
  have "solo ref_max demo_lm 2 8 4 [97] = ([1, 2], ''stop'')"
    "solo ref_max demo_lm 2 8 4 [97, 98] = ([2], ''stop'')" by code_simp+
  moreover have "demo_decode [1, 2] = ''12''" "demo_decode [2] = ''2''" by code_simp+
  moreover have "budget demo_engine 4 = 4" by (simp add: budget_def demo_settings_def)
  ultimately show ?thesis
    using batch_generation [OF demo_serving _ demo_start, of None "[''a'', ''ab'']" 4]
    by (simp add: default_params_def demo_encode_a decode_def)
qed

text \<open>C9: the cache changes the cost and not the text. For a token count in the configured range
  whose text fits the window, the cached and the uncached generation return the same string.\<close>

theorem cache_equivalence:
  assumes "serving e amax fdiv sortd order smax csum fsub dims vocab lm"
    and "2 \<le> context_limit e" and "engine_reach e w st"
    and "1 \<le> n" and "n \<le> max_new_tokens (config e)"
    and "int (length (encode e prompt)) + n \<le> context_limit e"
  shows "\<exists>text w'. generate_without_cache e prompt n = Inr text \<and>
    generate_with_kv_cache e prompt n None w = Some (Inr (text, default_params\<lparr>max_tokens := n\<rparr>, w'))"
proof -
  have "\<not> flt (Fin 0) (temperature (case None of None \<Rightarrow> default_params | Some p \<Rightarrow> p))"
    by (simp add: default_params_def)
  note kv = serving.generate_with_kv_cache_solo [OF assms(1)
      network.engine_reach_inv [OF serving.axioms(1) [OF assms(1)] assms(3,2)] assms(2) refl this]
  have "budget e n = n" using assms(4,5) by (simp add: budget_def)
  then show ?thesis
    using kv [of prompt n] serving.generate_without_cache_solo [OF assms(1,2,4,6)] by simp
qed

lemma cache_equivalence_witness:
  "\<exists>text w'. generate_without_cache demo_engine ''ab'' 3 = Inr text \<and>
    generate_with_kv_cache demo_engine ''ab'' 3 None demo_world =
      Some (Inr (text, default_params\<lparr>max_tokens := 3\<rparr>, w'))"
  using cache_equivalence [OF demo_serving _ demo_start, of 3 "''ab''"]
  by (simp add: demo_settings_def demo_encode_a)

text \<open>C26: the loops end whatever the sampling parameters are and whatever the network does. Both
  entry points return: a list of texts, each cut where the stopping rules first said so, or the
  exception of the call that raised.\<close>

theorem generation_returns:
  assumes "network e amax fdiv sortd order smax csum fsub dims vocab lm"
    and "2 \<le> context_limit e" and "engine_reach e w st"
  shows "((\<exists>ex. generate_with_kv_cache e prompt n ps w = Some (Inl ex)) \<or>
      (\<exists>outs r p w'. generate_with_kv_cache e prompt n ps w = Some (Inr (decode e outs, p, w')) \<and>
         verdict (eos_token_id e) (context_limit e) (budget e n) (encode e prompt) outs = Some r)) \<and>
    ((\<exists>ex. generate_batch e prompts n ps w = Some (Inl ex)) \<or>
      (\<exists>outs w'. generate_batch e prompts n ps w = Some (Inr (map (decode e) outs, w')) \<and>
         length outs = length prompts \<and> (\<forall>k<length prompts. \<exists>r. verdict (eos_token_id e)
           (context_limit e) (budget e n) (encode e (prompts ! k)) (outs ! k) = Some r)))"
proof
  note inv = network.engine_reach_inv [OF assms(1,3,2)]
  show "(\<exists>ex. generate_with_kv_cache e prompt n ps w = Some (Inl ex)) \<or>
      (\<exists>outs r p w'. generate_with_kv_cache e prompt n ps w = Some (Inr (decode e outs, p, w')) \<and>
         verdict (eos_token_id e) (context_limit e) (budget e n) (encode e prompt) outs = Some r)"
    by (rule network.generate_with_kv_cache_returns [OF assms(1) inv assms(2), of prompt n ps]) blast+
  show "(\<exists>ex. generate_batch e prompts n ps w = Some (Inl ex)) \<or>
      (\<exists>outs w'. generate_batch e prompts n ps w = Some (Inr (map (decode e) outs, w')) \<and>
         length outs = length prompts \<and> (\<forall>k<length prompts. \<exists>r. verdict (eos_token_id e)
           (context_limit e) (budget e n) (encode e (prompts ! k)) (outs ! k) = Some r))"
    by (rule network.generate_batch_returns [OF assms(1) inv assms(2) refl, of prompts n ps]) blast+
qed

lemma generation_returns_witness:
  "(\<exists>r. generate_with_kv_cache demo_engine ''a'' 4 (Some (default_params\<lparr>temperature := Fin 1\<rparr>)) demo_world = Some r) \<and>
   (\<exists>r. generate_batch demo_engine [''a'', ''ab''] 4 (Some (default_params\<lparr>temperature := Fin 1\<rparr>)) demo_world = Some r)"
  using generation_returns [OF demo_network demo_context demo_start, of "''a''" 4
      "Some (default_params\<lparr>temperature := Fin 1\<rparr>)" "[''a'', ''ab'']"]
  by auto

end
