(* ===== verification/DataProps.thy ===== *)
theory DataProps
  imports Demo
begin

text \<open>
  The properties of the components below the engine: cache surgery, sampling, settings.
\<close>

section \<open>Cache surgery\<close>

text \<open>A cache of one layer with one head of size one, row \<open>i\<close> holding \<open>10 i, 10 i + 1, \<dots>\<close>.\<close>

definition demo_cache :: "nat \<Rightarrow> nat \<Rightarrow> pyfloat ften legacy_cache" where
  "demo_cache b l =
     (let t = Ften [b, 1, l, 1] (\<lambda>ix. Fin (of_nat (10 * (ix ! 0) + ix ! 2))) in [(t, t)])"

lemma demo_cache_shape: "cache_shape ref_float_ops [(1, 1)] b l (demo_cache b l)"
  by (simp add: demo_cache_def cache_shape_def Let_def)

text \<open>C37: admission and eviction are inverse on the cache. After two batches are stacked, selecting
  the rows of either one gives back its rows, position by position, behind the zeroed positions
  that aligned it; the stacked cache has the rows of both and the length of the longer.\<close>

theorem concat_select_roundtrip:
  assumes "tensor_lib T z" and "cache_shape T dims n la a" and "cache_shape T dims m lb b"
    and "dims \<noteq> []" and "0 < n" and "0 < m"
  shows "batch_size T (concat_batch T a b) = n + m \<and>
    cache_length T (concat_batch T a b) = max la lb \<and>
    (\<forall>i<n. crow T (select_rows T (concat_batch T a b) [0..<n]) i
       = replicate (lb - la) (zero_entry z dims) @ crow T a i) \<and>
    (\<forall>i<m. crow T (select_rows T (concat_batch T a b) [n..<n + m]) i
       = replicate (la - lb) (zero_entry z dims) @ crow T b i)"
proof -
  note C = tensor_lib.concat_batch_cache [OF assms(1-4)]
  note S = tensor_lib.select_rows_cache(2) [OF assms(1) C(1) assms(4)]
  have "crow T (select_rows T (concat_batch T a b) [0..<n]) i
       = replicate (lb - la) (zero_entry z dims) @ crow T a i" if "i < n" for i
    using S [of "[0..<n]" i] C(2) [of i] that assms(5) by simp
  moreover have "crow T (select_rows T (concat_batch T a b) [n..<n + m]) i
       = replicate (la - lb) (zero_entry z dims) @ crow T b i" if "i < m" for i
    using S [of "[n..<n + m]" i] C(3) [of "n + i"] that assms(6) by simp
  ultimately show ?thesis
    using batch_size_eq [OF C(1) assms(4)] cache_length_eq [OF C(1) assms(4)] by simp
qed

lemma concat_select_roundtrip_witness:
  "batch_size ref_float_ops (concat_batch ref_float_ops (demo_cache 2 1) (demo_cache 1 3)) = 3 \<and>
   crow ref_float_ops (select_rows ref_float_ops
     (concat_batch ref_float_ops (demo_cache 2 1) (demo_cache 1 3)) [0..<2]) 1
   = replicate 2 (zero_entry (Fin 0) [(1, 1)]) @ crow ref_float_ops (demo_cache 2 1) 1"
  using concat_select_roundtrip [OF tensor_lib_ref demo_cache_shape [of 2 1] demo_cache_shape [of 1 3]]
  by simp

text \<open>\<open>trim_left\<close> keeps the newest positions. For a positive count it keeps the last that many
  (all of them when there are fewer), so it undoes \<open>left_pad\<close>. For a count of zero it keeps
  everything: the slice \<open>-0:\<close> starts at the first position.\<close>

theorem trim_left_newest:
  assumes "tensor_lib T z" and "cache_shape T dims b l c" and "dims \<noteq> []" and "i < b"
  shows "(0 < k \<longrightarrow> crow T (trim_left T c (int k)) i = drop (l - k) (crow T c i)) \<and>
    (0 < l \<longrightarrow> crow T (trim_left T (left_pad T c p) (int l)) i = crow T c i) \<and>
    crow T (trim_left T c 0) i = crow T c i"
proof -
  note L = tensor_lib.left_pad_cache [OF assms(1-3), where p = p]
  have k: "crow T (trim_left T c (int k)) i = drop (l - k) (crow T c i)" if "0 < k"
    by (rule tensor_lib.trim_left_cache(2) [OF assms(1-3) that assms(4)])
  have p: "crow T (trim_left T (left_pad T c p) (int l)) i = crow T c i" if "0 < l"
    using tensor_lib.trim_left_cache(2) [OF assms(1) L(1) assms(3) that assms(4)] L(2) [OF assms(4)]
    by simp
  have "slice_start 0 l = 0" by (simp add: slice_start_def)
  then have "crow T (trim_left T c 0) i = crow T c i"
    using tensor_lib.slice_cache(2) [OF assms(1-3), of i 0] assms(4)
    by (auto simp: trim_left_def py_from_def slice_start_def)
  with k p show ?thesis by simp
qed

lemma trim_left_newest_witness:
  "crow ref_float_ops (trim_left ref_float_ops (demo_cache 1 3) 2) 0
     = drop 1 (crow ref_float_ops (demo_cache 1 3) 0) \<and>
   crow ref_float_ops (trim_left ref_float_ops (demo_cache 1 3) 0) 0
     = crow ref_float_ops (demo_cache 1 3) 0 \<and> length (crow ref_float_ops (demo_cache 1 3) 0) = 3"
  using trim_left_newest [OF tensor_lib_ref demo_cache_shape [of 1 3], of 0 2]
    cache_length_eq [OF demo_cache_shape [of 1 3]] by simp

text \<open>A cache survives the model library's cache object. If the library's conversions are
  inverse, what the engine stores is what the network hands back on the next step.\<close>

theorem cache_object_roundtrip:
  assumes "has_dynamic_cache L \<Longrightarrow> to_legacy_cache L (from_legacy_cache L c) = c"
  shows "from_cache L (to_cache L c) = c"
  using assms by (auto simp: from_cache_def to_cache_def)

lemma cache_object_roundtrip_witness:
  "from_cache ref_clib (to_cache ref_clib (demo_cache 2 3)) = demo_cache 2 3"
  by (rule cache_object_roundtrip) (simp add: ref_clib_def)

text \<open>The memory gauge counts every key and value once: twice the batch, times the length, times
  the heads and head sizes of all layers, times the element size; and after stacking two batches it
  counts the padding too.\<close>

theorem cache_bytes_counts:
  assumes "tensor_lib T z" and "cache_shape T dims n la a" and "cache_shape T dims m lb b" and "dims \<noteq> []"
    and "\<forall>t. element_size T t = s"
  shows "cache_bytes T a = 2 * n * la * s * sum_list (map (\<lambda>(h, d). h * d) dims) \<and>
    cache_bytes T (concat_batch T a b) = 2 * (n + m) * max la lb * s * sum_list (map (\<lambda>(h, d). h * d) dims)"
  using tensor_lib.cache_bytes_eq [OF assms(1,2)] assms(5)
    tensor_lib.cache_bytes_eq [OF assms(1) tensor_lib.concat_batch_cache(1) [OF assms(1-4)]] by auto

lemma cache_bytes_counts_witness:
  "cache_bytes ref_float_ops (demo_cache 2 1) = 16 \<and>
   cache_bytes ref_float_ops (concat_batch ref_float_ops (demo_cache 2 1) (demo_cache 1 3)) = 72"
  using cache_bytes_counts [OF tensor_lib_ref demo_cache_shape [of 2 1] demo_cache_shape [of 1 3], of 4]
  by (simp add: ref_float_ops_def)

text \<open>A padded prompt batch reads back as the prompts. For a non-empty list of prompts the call
  returns; the mask selects exactly the prompt's tokens from each row, and the position ids it
  selects count them from zero.\<close>

theorem padded_prompts_roundtrip:
  assumes "long_lib I" and "ss \<noteq> []"
  shows "\<exists>ids attn. left_pad_sequences I ss pad_id = Inr (ids, attn) \<and>
    (\<forall>i<length ss. sel (row I attn i) (row I ids i) = ss ! i \<and>
       sel (row I attn i) (row I (positions_from_mask I attn) i) = map int [0..<length (ss ! i)])"
proof -
  define w where "w = Max (set (map length ss))"
  obtain ids attn where R: "left_pad_sequences I ss pad_id = Inr (ids, attn)"
    "shape I ids = [length ss, w]" "shape I attn = [length ss, w]"
    "\<forall>i<length ss. row I ids i = padded pad_id w (ss ! i)"
    "\<forall>i<length ss. row I attn i = pad_mask w (length (ss ! i))"
    by (rule long_lib.left_pad_sequences_rows [OF assms(1,2) w_def])
  have "sel (row I attn i) (row I ids i) = ss ! i \<and>
      sel (row I attn i) (row I (positions_from_mask I attn) i) = map int [0..<length (ss ! i)]"
    if i: "i < length ss" for i
  proof -
    have q: "length (ss ! i) \<le> w" unfolding w_def using i by (intro Max_ge) auto
    note pos = long_lib.positions_from_mask_rows(2) [OF assms(1) R(3) i _ q]
    have rd: "drop (w - length ys) (padded x w ys) = ys" if "length ys \<le> w" for x and ys :: "int list"
      using that by (simp add: padded_def)
    show ?thesis
      using R(4,5) i q pos rd by (simp add: sel_pad_mask padded_def)
  qed
  then show ?thesis using R(1) by blast
qed

lemma padded_prompts_roundtrip_witness:
  "\<exists>ids attn. left_pad_sequences ften_long [[7], [8, 9]] 0 = Inr (ids, attn) \<and>
    sel (ften_row attn 0) (ften_row ids 0) = [7]"
  using padded_prompts_roundtrip [OF long_lib_ften, of "[[7], [8, 9]]" 0] by force

section \<open>Sampling\<close>

text \<open>\<open>clamp\<close> keeps a client's parameters inside what the engine honours, and clamping again
  changes nothing. One value escapes: a \<open>top_p\<close> that is not a number stays one.\<close>

theorem clamp_honours:
  assumes "1 \<le> max_new_tokens S"
  shows "1 \<le> max_tokens (clamp S p) \<and> max_tokens (clamp S p) \<le> max_new_tokens S \<and>
    fle (Fin 0) (temperature (clamp S p)) \<and> fle (temperature (clamp S p)) (Fin 2) \<and>
    0 \<le> top_k (clamp S p) \<and>
    (if top_p p = NaN then top_p (clamp S p) = NaN
     else flt (Fin 0) (top_p (clamp S p)) \<and> fle (top_p (clamp S p)) (Fin 1)) \<and>
    clamp S (clamp S p) = clamp S p"
proof -
  have t: "fle (Fin 0) (temperature (clamp S p)) \<and> fle (temperature (clamp S p)) (Fin 2) \<and>
      temperature (clamp S (clamp S p)) = temperature (clamp S p)"
    by (cases "temperature p") (auto simp: clamp_def py_min_def fle_def)
  have q: "(if top_p p = NaN then top_p (clamp S p) = NaN
     else flt (Fin 0) (top_p (clamp S p)) \<and> fle (top_p (clamp S p)) (Fin 1)) \<and>
     top_p (clamp S (clamp S p)) = top_p (clamp S p)"
    by (cases "top_p p") (auto simp: clamp_def py_min_def py_max_def py_or_def fle_def)
  have "max_tokens (clamp S (clamp S p)) = max_tokens (clamp S p)"
    "top_k (clamp S (clamp S p)) = top_k (clamp S p)"
    using assms by (auto simp: clamp_def)
  then have "clamp S (clamp S p) = clamp S p" using t q by simp
  then show ?thesis using t q assms by (auto simp: clamp_def)
qed

lemma clamp_honours_witness:
  "top_p (clamp demo_settings (default_params\<lparr>top_p := NaN\<rparr>)) = NaN \<and>
   max_tokens (clamp demo_settings default_params) = 4 \<and>
   clamp demo_settings (clamp demo_settings default_params) = clamp demo_settings default_params"
  using clamp_honours [of demo_settings "default_params\<lparr>top_p := NaN\<rparr>"]
    clamp_honours [of demo_settings default_params]
  by (simp add: demo_settings_def) (simp add: clamp_def default_params_def)



text \<open>C39: what a warm row can draw. Let \<open>xs\<close> be the row over the temperature and \<open>ys\<close> what the
  top-k filter leaves of it. For finite logits a drawn token was not masked by top-k, and when
  top-p applies it is in the nucleus: the mass of the tokens ranked before it is at most \<open>top_p\<close>.\<close>

theorem sampled_token_survives:
  assumes "float_lib F I amax fdiv sortd order smax csum fsub" and "shape F l = [b, v]" and "0 < v"
    and "sample F l p g = Inr (t, g')" and "\<not> fle (temperature p) (Fin 0)" and "fle (Fin 0) (top_p p)"
    and "i < b" and "xs = map (\<lambda>x. fdiv x (temperature p)) (row F l i)"
    and "\<forall>x\<in>set xs. \<exists>q. x = Fin q" and "ys = top_k_row sortd (top_k p) xs"
  shows "\<exists>j<v. elem I t [i] = int j \<and> ys ! j \<noteq> NegInf \<and>
    (flt (top_p p) (Fin 1) \<longrightarrow> (\<exists>r<v. order ys ! r = j \<and>
       \<not> flt (top_p p) (fsub (csum (smax (sortd ys)) ! r) (smax (sortd ys) ! r))))"
  using float_lib.sample_survivor [OF assms] by (simp add: float_lib.mass_before_def [OF assms(1)])

definition demo_logits_row :: "pyfloat ften" where
  "demo_logits_row = Ften [1, 2] (\<lambda>ix. Fin (of_nat (ix ! 1)))"

definition warm_params :: sampling_params where
  "warm_params = \<lparr>max_tokens = 4, temperature = Fin 1, top_k = 1, top_p = Fin (1 / 2)\<rparr>"

lemma sampled_token_survives_witness:
  "\<exists>t g'. sample ref_float_ops demo_logits_row warm_params 0 = Inr (t, g') \<and> felem t [0] = 1"
proof -
  have "\<exists>t g'. sample ref_float_ops demo_logits_row warm_params 0 = Inr (t, g')"
  proof (cases "sample ref_float_ops demo_logits_row warm_params 0")
    case (Inl ex)
    moreover have "(case sample ref_float_ops demo_logits_row warm_params 0 of Inl _ \<Rightarrow> False | Inr _ \<Rightarrow> True)"
      by code_simp
    ultimately show ?thesis by simp
  next
    case (Inr r)
    then show ?thesis by (cases r) auto
  qed
  then obtain t g' where s: "sample ref_float_ops demo_logits_row warm_params 0 = Inr (t, g')" by blast
  let ?xs = "map (\<lambda>x. ref_div x (temperature warm_params)) (row ref_float_ops demo_logits_row 0)"
  have ys: "top_k_row ref_sorted 1 ?xs = [NegInf, Fin 1]" by code_simp
  have fin: "\<forall>x\<in>set ?xs. \<exists>q. x = Fin q"
    by (auto simp: demo_logits_row_def warm_params_def ften_row_def)
  have "\<exists>j<2. felem t [0] = int j \<and> [NegInf, Fin 1] ! j \<noteq> NegInf"
    using sampled_token_survives [OF float_lib_ref _ _ s _ _ _ refl fin refl, of 1 2] ys
    by (force simp: demo_logits_row_def warm_params_def fle_def)
  then have "felem t [0] = 1" by (auto simp: less_2_cases_iff)
  then show ?thesis using s by blast
qed

section \<open>Settings\<close>

definition default_settings :: settings where
  "default_settings = \<lparr>model_name = ''gpt2'', device = ''cpu'', torch_threads = 0, max_batch_size = 8,
     batch_window_ms = 20, max_queue_size = 256, request_timeout_s = Fin 120, max_new_tokens = 256,
     max_context = 1024, http_port = 8000, grpc_port = 50051, metrics_port = 9100\<rparr>"

text \<open>The environment overrides one setting at a time. An empty environment gives the documented
  defaults; a variable set to the text of an integer gives that integer and leaves the rest, an
  empty one gives the default, and one with a letter in it makes the start fail.\<close>

theorem settings_overrides:
  "load_settings Map.empty = Inr default_settings \<and>
    load_settings [''MAX_NEW_TOKENS'' \<mapsto> py_str n] = Inr (default_settings\<lparr>max_new_tokens := n\<rparr>) \<and>
    load_settings [''MAX_BATCH_SIZE'' \<mapsto> py_str n] = Inr (default_settings\<lparr>max_batch_size := n\<rparr>) \<and>
    load_settings [''MAX_BATCH_SIZE'' \<mapsto> ''''] = Inr default_settings \<and>
    (\<exists>msg. load_settings [''MAX_BATCH_SIZE'' \<mapsto> py_str n @ ''x''] = Inl (ValueError msg))"
proof -
  have ne: "py_str n \<noteq> ''''" by (simp add: py_str_def)
  have bad: "\<exists>msg. py_int (py_str n @ ''x'') = Inl (ValueError msg)"
    by (rule py_int_trailing) (simp_all add: digit_def is_space_def Let_def)
  show ?thesis
    using ne bad by (auto simp: load_settings_def env_str_def env_int_def env_float_def default_settings_def
        py_int_py_str)
qed

end
