(* ===== verification/Metrics.thy ===== *)
theory Metrics
  imports Prelude PyValues
begin

text \<open>
  \<open>worker/server/metrics.py\<close>: the registry the exporter reads. A counter is a number that only
  grows, a gauge a number that is set, a histogram the list of what was observed (its buckets are
  the exporter's business). A counter with a label is a function of the label.
\<close>

record result =
  res_text :: string
  res_prompt_tokens :: nat
  res_completion_tokens :: nat
  res_finish_reason :: string
  res_request_id :: string
  queued_s :: rat
  ttft_s :: rat
  total_s :: rat

record metrics =
  m_requests :: "string \<Rightarrow> nat"
  m_latency :: "rat list"
  m_ttft :: "rat list"
  m_queue_wait :: "rat list"
  m_tokens :: nat
  m_prompt_tokens :: nat
  m_batch_size :: "nat list"
  m_running :: nat
  m_queued :: nat
  m_cache_bytes :: nat
  m_cache_tokens :: nat
  m_cache_reused :: nat
  m_cache_attended :: nat
  m_model_info :: "string \<times> string \<Rightarrow> nat option"

definition new_registry :: metrics where
  "new_registry = \<lparr>m_requests = (\<lambda>_. 0), m_latency = [], m_ttft = [], m_queue_wait = [], m_tokens = 0,
     m_prompt_tokens = 0, m_batch_size = [], m_running = 0, m_queued = 0, m_cache_bytes = 0,
     m_cache_tokens = 0, m_cache_reused = 0, m_cache_attended = 0,
     m_model_info = Map.empty\<rparr>"

definition inc_requests :: "string \<Rightarrow> metrics \<Rightarrow> metrics" where
  "inc_requests status m = m\<lparr>m_requests := (m_requests m)(status := Suc (m_requests m status))\<rparr>"

definition record_result :: "result \<Rightarrow> metrics \<Rightarrow> metrics" where
  "record_result r m =
     (let m = inc_requests (res_finish_reason r) m
      in m\<lparr>m_latency := m_latency m @ [total_s r], m_ttft := m_ttft m @ [ttft_s r],
           m_queue_wait := m_queue_wait m @ [queued_s r],
           m_tokens := m_tokens m + res_completion_tokens r,
           m_prompt_tokens := m_prompt_tokens m + res_prompt_tokens r\<rparr>)"

definition record_error :: "string \<Rightarrow> metrics \<Rightarrow> metrics" where
  "record_error status m = inc_requests status m"

text \<open>\<open>MODEL_INFO.labels(model=..., device=...).set(1)\<close>, once in the start of either process.\<close>

definition set_model_info :: "string \<Rightarrow> string \<Rightarrow> metrics \<Rightarrow> metrics" where
  "set_model_info model dev m = m\<lparr>m_model_info := (m_model_info m)((model, dev) \<mapsto> 1)\<rparr>"

text \<open>The figures \<open>DynamicBatcher.stats\<close> reports.\<close>

record batcher_stats =
  st_running :: nat
  st_queued :: nat
  st_batch_size :: nat
  st_max_batch_size :: int
  st_steps :: nat
  st_mean_batch_size :: rat
  st_completed :: nat
  st_rejected :: nat
  st_tokens_generated :: nat
  st_cache_len :: nat
  st_cache_bytes :: nat

definition observe_batcher :: "batcher_stats \<Rightarrow> metrics \<Rightarrow> metrics" where
  "observe_batcher s m = m\<lparr>m_running := st_running s, m_queued := st_queued s,
     m_cache_bytes := st_cache_bytes s, m_cache_tokens := st_cache_len s\<rparr>"

end
