(* ===== verification/Batcher.thy ===== *)
theory Batcher
  imports EngineRun Metrics
begin

text \<open>
  \<open>worker/server/batcher.py\<close>: the continuous batching scheduler.

  The scheduler is one coroutine on the event loop. It gives up control only at its awaits, so the
  code between two awaits is one atomic step of the model and \<open>phase\<close> says at which await it is.
  The engine calls run in a worker thread while other coroutines submit and give up; a call takes
  effect in one step, and eviction, whose two scans see different heaps, gets the list of callers
  that give up in between (see \<open>Engine\<close>).

  A \<open>Request\<close> and its \<open>Seq\<close> are one to one, so requests are named by their sequence's id and kept
  in \<open>reqs\<close>; \<open>queue\<close> and \<open>running\<close> hold ids, the keys of \<open>running\<close> in insertion order. A future is
  its state. A stream is everything put on the \<open>asyncio.Queue\<close> so far, with how much of it was taken;
  \<open>None\<close> is the sentinel. \<open>caller\<close> says whether the coroutine in \<open>submit\<close> or \<open>stream\<close> still waits.
\<close>

section \<open>State\<close>

datatype future_state = Pending | Resolved result | Failed exn | Cancelled

datatype caller_state = Waiting | GaveUp

record stream_queue =
  items :: "string option list"
  taken :: nat

record request =
  future :: future_state
  stream :: "stream_queue option"
  published :: nat
  published_text :: string
  submitted_at :: rat
  started_at :: "rat option"
  caller :: caller_state

datatype phase = Top | Sleeping | Gathering rat | Admitting "nat list" | Decoding | Evicting | NoTask

record limits =
  lim_batch :: int
  lim_window :: int
  lim_queue :: int

record ('f, 'i, 'r) batcher =
  queue :: "nat list"
  running :: "nat list"
  bstate :: "('f, 'i) batch_state"
  alive :: bool
  work :: bool
  phase :: phase
  steps :: nat
  batched_rows :: nat
  completed :: nat
  rejected :: nat
  tokens_generated :: nat
  reqs :: "nat \<Rightarrow> request"
  registry :: metrics
  bworld :: "'r world"

text \<open>\<open>a or b\<close> on an optional integer argument: absent and zero fall back.\<close>

definition int_or :: "int option \<Rightarrow> int \<Rightarrow> int" where
  "int_or a b = (case a of None \<Rightarrow> b | Some n \<Rightarrow> if n = 0 then b else n)"

definition init_limits :: "settings \<Rightarrow> int option \<Rightarrow> int option \<Rightarrow> int option \<Rightarrow> limits" where
  "init_limits S mb win mq =
     \<lparr>lim_batch = int_or mb (max_batch_size S),
      lim_window = (case win of None \<Rightarrow> batch_window_ms S | Some n \<Rightarrow> n),
      lim_queue = int_or mq (max_queue_size S)\<rparr>"

definition new_batcher :: "(nat \<Rightarrow> request) \<Rightarrow> 'r world \<Rightarrow> ('f, 'i, 'r) batcher" where
  "new_batcher rs w = \<lparr>queue = [], running = [], bstate = empty_state, alive = False, work = False,
     phase = NoTask, steps = 0, batched_rows = 0, completed = 0, rejected = 0, tokens_generated = 0,
     reqs = rs, registry = new_registry, bworld = w\<rparr>"

section \<open>Access to the shared objects\<close>

abbreviation seq_of :: "('f, 'i, 'r) batcher \<Rightarrow> nat \<Rightarrow> seq" where
  "seq_of b i \<equiv> heap (bworld b) i"

definition set_req :: "nat \<Rightarrow> (request \<Rightarrow> request) \<Rightarrow> ('f, 'i, 'r) batcher \<Rightarrow> ('f, 'i, 'r) batcher" where
  "set_req i f b = b\<lparr>reqs := (reqs b)(i := f (reqs b i))\<rparr>"

definition put_nowait :: "string option \<Rightarrow> request \<Rightarrow> request" where
  "put_nowait x r = (case stream r of
       None \<Rightarrow> r
     | Some q \<Rightarrow> r\<lparr>stream := Some (q\<lparr>items := items q @ [x]\<rparr>)\<rparr>)"

text \<open>\<open>if not req.future.done()\<close>, then set it.\<close>

definition settle :: "future_state \<Rightarrow> request \<Rightarrow> request" where
  "settle f r = (if future r = Pending then r\<lparr>future := f\<rparr> else r)"

section \<open>Lifecycle\<close>

definition start :: "('f, 'i, 'r) batcher \<Rightarrow> ('f, 'i, 'r) batcher" where
  "start b = (if alive b then b else b\<lparr>alive := True, phase := Top\<rparr>)"

fun cancel_futures :: "nat list \<Rightarrow> ('f, 'i, 'r) batcher \<Rightarrow> ('f, 'i, 'r) batcher" where
  "cancel_futures [] b = b"
| "cancel_futures (i # is) b = cancel_futures is (set_req i (settle Cancelled) b)"

definition stop :: "('f, 'i, 'r) batcher \<Rightarrow> ('f, 'i, 'r) batcher" where
  "stop b =
     (let b = b\<lparr>alive := False, work := True, phase := NoTask\<rparr>;
          b = cancel_futures (queue b @ running b) b
      in b\<lparr>queue := [], running := [], bstate := empty_state\<rparr>)"

section \<open>Submission\<close>

definition add :: "limits \<Rightarrow> nat \<Rightarrow> ('f, 'i, 'r) batcher \<Rightarrow> exn option \<times> ('f, 'i, 'r) batcher" where
  "add L i b =
     (if lim_queue L \<le> int (length (queue b))
      then (Some (QueueFullError (lim_queue L)), b\<lparr>rejected := Suc (rejected b)\<rparr>)
      else (None, b\<lparr>queue := queue b @ [i], work := True\<rparr>))"

definition make_request :: "('f, 'i, 'b, 'd, 'r) engine \<Rightarrow> string \<Rightarrow> sampling_params option \<Rightarrow> string \<Rightarrow>
    string \<Rightarrow> bool \<Rightarrow> ('f, 'i, 'r) batcher \<Rightarrow> nat \<times> ('f, 'i, 'r) batcher" where
  "make_request e prompt ps rid uuid streaming b =
     (let (i, w) = make_sequence e prompt ps (if rid = '''' then uuid else rid) (bworld b);
          (t, w) = monotonic w
      in (i, b\<lparr>bworld := w, reqs := (reqs b)(i :=
            \<lparr>future = Pending, stream = (if streaming then Some \<lparr>items = [], taken = 0\<rparr> else None),
             published = 0, published_text = '''', submitted_at = t, started_at = None,
             caller = Waiting\<rparr>)\<rparr>))"

text \<open>The part of \<open>submit\<close> and \<open>stream\<close> before the first await.\<close>

definition enqueue :: "('f, 'i, 'b, 'd, 'r) engine \<Rightarrow> limits \<Rightarrow> string \<Rightarrow> sampling_params option \<Rightarrow> string \<Rightarrow>
    string \<Rightarrow> bool \<Rightarrow> ('f, 'i, 'r) batcher \<Rightarrow> (exn + nat) \<times> ('f, 'i, 'r) batcher" where
  "enqueue e L prompt ps rid uuid streaming b =
     (let (i, b) = make_request e prompt ps rid uuid streaming b
      in case add L i b of
           (Some ex, b) \<Rightarrow> (Inl ex, set_req i (\<lambda>r. r\<lparr>caller := GaveUp\<rparr>) b)
         | (None, b) \<Rightarrow> (Inr i, b))"

definition abandon_req :: "nat \<Rightarrow> ('f, 'i, 'r) batcher \<Rightarrow> ('f, 'i, 'r) batcher" where
  "abandon_req i b =
     (let b = (if i \<in> set (queue b) then b\<lparr>queue := remove1 i (queue b)\<rparr> else b)
      in if i \<in> set (running b) \<and> \<not> finished (seq_of b i)
         then b\<lparr>bworld := (bworld b)\<lparr>heap := abandon {i} (heap (bworld b))\<rparr>\<rparr>
         else b)"

text \<open>
  How a waiting caller leaves. \<open>wait_for\<close> cancels the future it waits for when the time is up or the
  caller is cancelled; \<open>submit\<close> abandons the request only in the first case, \<open>stream\<close> in both.
\<close>

definition submit_timeout :: "nat \<Rightarrow> ('f, 'i, 'r) batcher \<Rightarrow> ('f, 'i, 'r) batcher" where
  "submit_timeout i b = abandon_req i (set_req i (\<lambda>r. (settle Cancelled r)\<lparr>caller := GaveUp\<rparr>) b)"

definition submit_cancelled :: "nat \<Rightarrow> ('f, 'i, 'r) batcher \<Rightarrow> ('f, 'i, 'r) batcher" where
  "submit_cancelled i b = set_req i (\<lambda>r. (settle Cancelled r)\<lparr>caller := GaveUp\<rparr>) b"

definition stream_left :: "nat \<Rightarrow> ('f, 'i, 'r) batcher \<Rightarrow> ('f, 'i, 'r) batcher" where
  "stream_left i b = abandon_req i (set_req i (\<lambda>r. r\<lparr>caller := GaveUp\<rparr>) b)"

text \<open>
  An async generator that is closed instead of cancelled raises \<open>GeneratorExit\<close> at its \<open>yield\<close>, which
  the \<open>except\<close> clause of \<open>stream\<close> does not name.
\<close>

definition stream_closed :: "nat \<Rightarrow> ('f, 'i, 'r) batcher \<Rightarrow> ('f, 'i, 'r) batcher" where
  "stream_closed i b = set_req i (\<lambda>r. r\<lparr>caller := GaveUp\<rparr>) b"

text \<open>The callers \<open>is\<close> give up, one after the other.\<close>

definition leave :: "nat \<Rightarrow> ('f, 'i, 'r) batcher \<Rightarrow> ('f, 'i, 'r) batcher" where
  "leave i b = (if stream (reqs b i) = None then submit_timeout i b else stream_left i b)"

fun leave_all :: "nat list \<Rightarrow> ('f, 'i, 'r) batcher \<Rightarrow> ('f, 'i, 'r) batcher" where
  "leave_all [] b = b"
| "leave_all (i # is) b = leave_all is (leave i b)"

text \<open>\<open>await req.stream.get()\<close> when the queue holds something.\<close>

definition stream_get :: "request \<Rightarrow> (string option \<times> request) option" where
  "stream_get r = (case stream r of
       None \<Rightarrow> None
     | Some q \<Rightarrow> if taken q < length (items q)
                then Some (items q ! taken q, r\<lparr>stream := Some (q\<lparr>taken := Suc (taken q)\<rparr>)\<rparr>)
                else None)"

text \<open>
  What the awaiting coroutine sees. \<open>submit\<close> returns or raises what its future holds; an engine
  that raises \<open>TimeoutError\<close> is taken for a timeout. \<open>stream\<close> yields what its queue holds, and at
  the sentinel raises the future's exception, if it has one.
\<close>

definition submit_result :: "nat \<Rightarrow> ('f, 'i, 'r) batcher \<Rightarrow> ((exn + result) \<times> ('f, 'i, 'r) batcher) option" where
  "submit_result i b = (case future (reqs b i) of
       Pending \<Rightarrow> None
     | Resolved res \<Rightarrow> Some (Inr res, b)
     | Failed ex \<Rightarrow> Some (Inl ex, if ex = TimeoutError then abandon_req i b else b)
     | Cancelled \<Rightarrow> Some (Inl CancelledError, b))"

datatype stream_event = Piece string | Raised exn | Ended

definition stream_next :: "nat \<Rightarrow> ('f, 'i, 'r) batcher \<Rightarrow> (stream_event \<times> ('f, 'i, 'r) batcher) option" where
  "stream_next i b = (case stream_get (reqs b i) of
       None \<Rightarrow> None
     | Some (Some t, r) \<Rightarrow> Some (Piece t, set_req i (\<lambda>_. r) b)
     | Some (None, r) \<Rightarrow>
         Some (case future r of Failed ex \<Rightarrow> Raised ex | Cancelled \<Rightarrow> Raised CancelledError | _ \<Rightarrow> Ended,
               set_req i (\<lambda>_. r) b))"

section \<open>Delivery\<close>

definition publish_req :: "('f, 'i, 'b, 'd, 'r) engine \<Rightarrow> seq \<Rightarrow> request \<Rightarrow> request" where
  "publish_req e s r =
     (let text = decode e (output_ids s);
          delta = drop (length (published_text r)) text;
          r = r\<lparr>published_text := text, published := length (output_ids s)\<rparr>
      in if delta = [] then r else put_nowait (Some delta) r)"

text \<open>The loop body of \<open>_publish_deltas\<close>.\<close>

definition publish_row :: "('f, 'i, 'b, 'd, 'r) engine \<Rightarrow> nat \<Rightarrow> ('f, 'i, 'r) batcher \<Rightarrow> ('f, 'i, 'r) batcher" where
  "publish_row e i b =
     (if i \<notin> set (running b) \<or> stream (reqs b i) = None then b
      else if length (output_ids (seq_of b i)) \<le> published (reqs b i) then b
      else set_req i (publish_req e (seq_of b i)) b)"

fun publish_rows :: "('f, 'i, 'b, 'd, 'r) engine \<Rightarrow> nat list \<Rightarrow> ('f, 'i, 'r) batcher \<Rightarrow>
    ('f, 'i, 'r) batcher" where
  "publish_rows e [] b = b"
| "publish_rows e (i # is) b = publish_rows e is (publish_row e i b)"

definition publish_deltas :: "('f, 'i, 'b, 'd, 'r) engine \<Rightarrow> ('f, 'i, 'r) batcher \<Rightarrow> ('f, 'i, 'r) batcher" where
  "publish_deltas e b = publish_rows e (seqs (bstate b)) b"

definition publish_final :: "result \<Rightarrow> request \<Rightarrow> request" where
  "publish_final res r =
     (let delta = drop (length (published_text r)) (res_text res)
      in if delta = '''' then r
         else (put_nowait (Some delta) r)\<lparr>published_text := res_text res\<rparr>)"

text \<open>\<open>t or now\<close> on an optional time: absent and zero fall back.\<close>

definition time_or :: "rat option \<Rightarrow> rat \<Rightarrow> rat" where
  "time_or t now = (case t of None \<Rightarrow> now | Some x \<Rightarrow> if x = 0 then now else x)"

definition reason_or_stop :: "string option \<Rightarrow> string" where
  "reason_or_stop r = (case r of None \<Rightarrow> ''stop'' | Some s \<Rightarrow> if s = '''' then ''stop'' else s)"

definition make_result :: "('f, 'i, 'b, 'd, 'r) engine \<Rightarrow> seq \<Rightarrow> request \<Rightarrow> rat \<Rightarrow> result" where
  "make_result e s r now =
     \<lparr>res_text = decode e (output_ids s), res_prompt_tokens = length (prompt_ids s),
      res_completion_tokens = length (output_ids s),
      res_finish_reason = reason_or_stop (finish_reason s), res_request_id = seq.request_id s,
      queued_s = time_or (started_at r) now - submitted_at r,
      ttft_s = time_or (first_token_at s) now - submitted_at r,
      total_s = now - submitted_at r\<rparr>"

text \<open>The delivery at the end of \<open>_complete\<close>: the last delta and the sentinel, then the future.\<close>

definition deliver :: "result \<Rightarrow> request \<Rightarrow> request" where
  "deliver res r =
     settle (Resolved res)
       (if stream r = None then r else put_nowait None (publish_final res r))"

definition complete :: "('f, 'i, 'b, 'd, 'r) engine \<Rightarrow> nat \<Rightarrow> ('f, 'i, 'r) batcher \<Rightarrow> ('f, 'i, 'r) batcher" where
  "complete e i b =
     (let known = i \<in> set (running b);
          b = b\<lparr>running := remove1 i (running b), completed := Suc (completed b),
                tokens_generated := tokens_generated b + length (output_ids (seq_of b i))\<rparr>
      in if \<not> known then b
         else
           let (now, w) = monotonic (bworld b);
               res = make_result e (seq_of b i) (reqs b i) now
           in set_req i (deliver res) (b\<lparr>bworld := w, registry := record_result res (registry b)\<rparr>))"

fun complete_all :: "('f, 'i, 'b, 'd, 'r) engine \<Rightarrow> nat list \<Rightarrow> ('f, 'i, 'r) batcher \<Rightarrow>
    ('f, 'i, 'r) batcher" where
  "complete_all e [] b = b"
| "complete_all e (i # is) b = complete_all e is (complete e i b)"

fun fail_requests :: "exn \<Rightarrow> nat list \<Rightarrow> ('f, 'i, 'r) batcher \<Rightarrow> ('f, 'i, 'r) batcher" where
  "fail_requests ex [] b = b"
| "fail_requests ex (i # is) b =
     fail_requests ex is (set_req i (\<lambda>r. put_nowait None (settle (Failed ex) r)) b)"

definition fail_all :: "exn \<Rightarrow> ('f, 'i, 'r) batcher \<Rightarrow> ('f, 'i, 'r) batcher" where
  "fail_all ex b =
     (fail_requests ex (running b) b)\<lparr>running := [], bstate := empty_state, phase := Top\<rparr>"

section \<open>The scheduler loop\<close>

definition take_admissions :: "limits \<Rightarrow> ('f, 'i, 'r) batcher \<Rightarrow> nat list \<times> ('f, 'i, 'r) batcher" where
  "take_admissions L b =
     (let capacity = lim_batch L - int (length (seqs (bstate b)))
      in if capacity \<le> 0 \<or> queue b = [] then ([], b)
         else (take (nat capacity) (queue b), b\<lparr>queue := drop (nat capacity) (queue b)\<rparr>))"

text \<open>\<open>self.running[req.seq.seq_id] = req\<close> with the start time noted, for each newcomer.\<close>

fun begin_running :: "nat list \<Rightarrow> ('f, 'i, 'r) batcher \<Rightarrow> ('f, 'i, 'r) batcher" where
  "begin_running [] b = b"
| "begin_running (i # is) b =
     (let (t, w) = monotonic (bworld b);
          b = set_req i (\<lambda>r. r\<lparr>started_at := Some t\<rparr>) (b\<lparr>bworld := w\<rparr>)
      in begin_running is (b\<lparr>running := (if i \<in> set (running b) then running b else running b @ [i])\<rparr>))"

text \<open>From the call of \<open>_take_admissions\<close> to the next await.\<close>

definition tick_take :: "limits \<Rightarrow> ('f, 'i, 'r) batcher \<Rightarrow> ('f, 'i, 'r) batcher" where
  "tick_take L b =
     (let (new, b) = take_admissions L b
      in if new \<noteq> [] then (begin_running new b)\<lparr>phase := Admitting new\<rparr>
         else if seqs (bstate b) \<noteq> [] then b\<lparr>phase := Decoding\<rparr>
         else b\<lparr>phase := Top\<rparr>)"

text \<open>From the top of \<open>_tick\<close> to its first await; \<open>_gather_window\<close> sets its deadline here.\<close>

definition tick_top :: "limits \<Rightarrow> ('f, 'i, 'r) batcher \<Rightarrow> ('f, 'i, 'r) batcher" where
  "tick_top L b =
     (if seqs (bstate b) = [] \<and> queue b = [] then b\<lparr>work := False, phase := Sleeping\<rparr>
      else if seqs (bstate b) = [] \<and> int (length (queue b)) < lim_batch L \<and> 0 < lim_window L then
        let (now, w) = monotonic (bworld b)
        in b\<lparr>bworld := w, phase := Gathering (now + of_int (lim_window L) / 1000)\<rparr>
      else tick_take L b)"

text \<open>One evaluation of the \<open>while\<close> condition of \<open>_gather_window\<close>: it sleeps on, or goes on.\<close>

definition tick_gather :: "limits \<Rightarrow> rat \<Rightarrow> ('f, 'i, 'r) batcher \<Rightarrow> ('f, 'i, 'r) batcher" where
  "tick_gather L deadline b =
     (if alive b \<and> int (length (queue b)) < lim_batch L then
        let (now, w) = monotonic (bworld b)
        in if now < deadline then b\<lparr>bworld := w\<rparr> else tick_take L (b\<lparr>bworld := w\<rparr>)
      else tick_take L b)"

definition observe :: "('f, 'i, 'b, 'd, 'r) engine \<Rightarrow> nat list \<Rightarrow> ('f, 'i, 'r) batcher \<Rightarrow>
    ('f, 'i, 'r) batcher" where
  "observe e new b =
     (let m = registry b; rows = length (seqs (bstate b));
          m = m\<lparr>m_batch_size := m_batch_size m @ [rows]\<rparr>;
          cached = cache_length (flib e) (cache (bstate b))
      in b\<lparr>registry :=
            (if new \<noteq> [] then
               m\<lparr>m_cache_attended := m_cache_attended m + sum_list (map (\<lambda>i. length (prompt_ids (seq_of b i))) new)\<rparr>
             else m\<lparr>m_cache_attended := m_cache_attended m + rows * cached,
                    m_cache_reused := m_cache_reused m + rows * (cached - 1)\<rparr>)\<rparr>)"

text \<open>An engine call has returned; from there to the eviction call.\<close>

definition after_step :: "('f, 'i, 'b, 'd, 'r) engine \<Rightarrow> nat list \<Rightarrow> ('f, 'i) batch_state \<Rightarrow> 'r world \<Rightarrow>
    ('f, 'i, 'r) batcher \<Rightarrow> ('f, 'i, 'r) batcher" where
  "after_step e new st w b =
     (let b = b\<lparr>bstate := st, bworld := w\<rparr>;
          b = b\<lparr>steps := Suc (steps b), batched_rows := batched_rows b + length (seqs (bstate b))\<rparr>
      in (publish_deltas e (observe e new b))\<lparr>phase := Evicting\<rparr>)"

definition tick_admit :: "('f, 'i, 'b, 'd, 'r) engine \<Rightarrow> nat list \<Rightarrow> ('f, 'i, 'r) batcher \<Rightarrow>
    ('f, 'i, 'r) batcher" where
  "tick_admit e new b =
     (case admit e (bstate b) new (bworld b) of
        Inl ex \<Rightarrow> fail_all ex b
      | Inr (st, w) \<Rightarrow> after_step e new st w b)"

definition tick_decode :: "('f, 'i, 'b, 'd, 'r) engine \<Rightarrow> ('f, 'i, 'r) batcher \<Rightarrow> ('f, 'i, 'r) batcher" where
  "tick_decode e b =
     (case decode_step e (bstate b) (bworld b) of
        Inl ex \<Rightarrow> fail_all ex b
      | Inr (st, w) \<Rightarrow> after_step e [] st w b)"

text \<open>The eviction has returned; the callers \<open>is\<close> gave up between its two scans.\<close>

definition tick_evict :: "('f, 'i, 'b, 'd, 'r) engine \<Rightarrow> nat list \<Rightarrow> ('f, 'i, 'r) batcher \<Rightarrow>
    ('f, 'i, 'r) batcher" where
  "tick_evict e is b =
     (let b' = leave_all is b
      in case evict_scan e (bstate b) (heap (bworld b)) (heap (bworld b')) of
           Inl ex \<Rightarrow> fail_all ex b'
         | Inr (st, gone) \<Rightarrow> (complete_all e gone (b'\<lparr>bstate := st\<rparr>))\<lparr>phase := Top\<rparr>)"

section \<open>Figures\<close>

definition mean_batch_size :: "('f, 'i, 'r) batcher \<Rightarrow> rat" where
  "mean_batch_size b = (if steps b = 0 then 0 else of_nat (batched_rows b) / of_nat (steps b))"

text \<open>\<open>round(x, 2)\<close>: to the nearest hundredth, ties to even.\<close>

definition round2 :: "rat \<Rightarrow> rat" where
  "round2 x = of_int (py_round (100 * x)) / 100"

definition stats :: "('f, 'i, 'b, 'd, 'r) engine \<Rightarrow> limits \<Rightarrow> ('f, 'i, 'r) batcher \<Rightarrow> batcher_stats" where
  "stats e L b =
     (let c = cache_stats e (bstate b)
      in \<lparr>st_running = length (running b), st_queued = length (queue b),
          st_batch_size = stat_batch_size c, st_max_batch_size = lim_batch L, st_steps = steps b,
          st_mean_batch_size = round2 (mean_batch_size b), st_completed = completed b,
          st_rejected = rejected b, st_tokens_generated = tokens_generated b,
          st_cache_len = stat_cache_len c, st_cache_bytes = stat_cache_bytes c\<rparr>)"

end
