(* ===== verification/BatcherInv.thy ===== *)
theory BatcherInv
  imports Batcher Generation
begin

text \<open>
  The scheduler's step relation and its invariants.

  \<open>batch_reach\<close> has one rule per atomic step of \<open>DynamicBatcher\<close>, its callers and the exporter. The
  locale \<open>engine_contract\<close> states what the scheduler relies on in the engine it drives; the
  scheduler's invariants are proved from it alone, and the engine of \<open>Engine\<close> provides it.
\<close>

section \<open>Steps\<close>

text \<open>A sequence the engine made before the scheduler existed belongs to no caller of it.\<close>

definition foreign :: "request \<Rightarrow> bool" where
  "foreign r \<longleftrightarrow> caller r = GaveUp \<and> future r = Cancelled \<and> stream r = None"

inductive batch_reach :: "('f, 'i, 'b, 'd, 'r) engine \<Rightarrow> limits \<Rightarrow> ('f, 'i, 'r) batcher \<Rightarrow> bool"
  for e :: "('f, 'i, 'b, 'd, 'r) engine" and L :: limits where
  init: "engine_reach e w st \<Longrightarrow> \<forall>i\<in>issued w. foreign (rs i) \<Longrightarrow> batch_reach e L (new_batcher rs w)"
| start: "batch_reach e L b \<Longrightarrow> batch_reach e L (start b)"
| stop: "batch_reach e L b \<Longrightarrow> batch_reach e L (stop b)"
| enqueue: "batch_reach e L b \<Longrightarrow> enqueue e L prompt ps rid uuid streaming b = (res, b') \<Longrightarrow>
    batch_reach e L b'"
| submit_timeout: "batch_reach e L b \<Longrightarrow> i \<in> issued (bworld b) \<Longrightarrow> caller (reqs b i) = Waiting \<Longrightarrow>
    stream (reqs b i) = None \<Longrightarrow> future (reqs b i) = Pending \<Longrightarrow> batch_reach e L (submit_timeout i b)"
| submit_cancelled: "batch_reach e L b \<Longrightarrow> i \<in> issued (bworld b) \<Longrightarrow> caller (reqs b i) = Waiting \<Longrightarrow>
    stream (reqs b i) = None \<Longrightarrow> batch_reach e L (submit_cancelled i b)"
| stream_left: "batch_reach e L b \<Longrightarrow> i \<in> issued (bworld b) \<Longrightarrow> caller (reqs b i) = Waiting \<Longrightarrow>
    stream (reqs b i) \<noteq> None \<Longrightarrow> batch_reach e L (stream_left i b)"
| stream_closed: "batch_reach e L b \<Longrightarrow> i \<in> issued (bworld b) \<Longrightarrow> caller (reqs b i) = Waiting \<Longrightarrow>
    stream (reqs b i) \<noteq> None \<Longrightarrow> batch_reach e L (stream_closed i b)"
| stream_get: "batch_reach e L b \<Longrightarrow> caller (reqs b i) = Waiting \<Longrightarrow> stream_get (reqs b i) = Some (x, r) \<Longrightarrow>
    batch_reach e L (set_req i (\<lambda>_. r) b)"
| wake: "batch_reach e L b \<Longrightarrow> phase b = Sleeping \<Longrightarrow> work b \<Longrightarrow> batch_reach e L (b\<lparr>phase := Top\<rparr>)"
| top: "batch_reach e L b \<Longrightarrow> phase b = Top \<Longrightarrow> alive b \<Longrightarrow> batch_reach e L (tick_top L b)"
| gather: "batch_reach e L b \<Longrightarrow> phase b = Gathering d \<Longrightarrow> batch_reach e L (tick_gather L d b)"
| admit: "batch_reach e L b \<Longrightarrow> phase b = Admitting new \<Longrightarrow> batch_reach e L (tick_admit e new b)"
| decode: "batch_reach e L b \<Longrightarrow> phase b = Decoding \<Longrightarrow> batch_reach e L (tick_decode e b)"
| evict: "batch_reach e L b \<Longrightarrow> phase b = Evicting \<Longrightarrow>
    \<forall>i\<in>set is. i \<in> set (running b) \<and> caller (reqs b i) = Waiting \<Longrightarrow> distinct is \<Longrightarrow>
    batch_reach e L (tick_evict e is b)"
| elapse: "batch_reach e L b \<Longrightarrow> clock_reads (bworld b) \<le> c \<Longrightarrow>
    batch_reach e L (b\<lparr>bworld := (bworld b)\<lparr>clock_reads := c, rng := g\<rparr>\<rparr>)"
| scrape: "batch_reach e L b \<Longrightarrow>
    batch_reach e L (b\<lparr>registry := observe_batcher (stats e L b) (registry b)\<rparr>)"
| failed_call: "batch_reach e L b \<Longrightarrow> batch_reach e L (b\<lparr>registry := record_error status (registry b)\<rparr>)"
| model_info: "batch_reach e L b \<Longrightarrow> batch_reach e L (b\<lparr>registry := set_model_info model dev (registry b)\<rparr>)"

text \<open>A scheduler made in a fresh process.\<close>

lemma reach_fresh: "next_seq_id w = 1 \<Longrightarrow> batch_reach e L (new_batcher rs w)"
  by (rule batch_reach.init [OF engine_reach.start]) (simp_all add: issued_def)

section \<open>What the scheduler relies on\<close>

text \<open>How the engine may change the sequences of the batch: outputs grow, finished ones stay, and nobody
  is abandoned.\<close>

definition evolves :: "(nat \<Rightarrow> seq) \<Rightarrow> (nat \<Rightarrow> seq) \<Rightarrow> bool" where
  "evolves h h' \<longleftrightarrow> (\<forall>j. prompt_ids (h' j) = prompt_ids (h j) \<and> params (h' j) = params (h j) \<and>
     seq.request_id (h' j) = seq.request_id (h j) \<and>
     (\<exists>more. output_ids (h' j) = output_ids (h j) @ more) \<and> (finished (h j) \<longrightarrow> h' j = h j) \<and>
     (finish_reason (h' j) = Some ''abandoned'' \<longrightarrow> finish_reason (h j) = Some ''abandoned''))"

locale engine_contract =
  fixes e :: "('f, 'i, 'b, 'd, 'r) engine"
    and ok :: "'r world \<Rightarrow> ('f, 'i) batch_state \<Rightarrow> bool"
  assumes ok_start: "engine_reach e w st \<Longrightarrow> ok w empty_state"
    and ok_submit: "ok w st \<Longrightarrow> make_sequence e prompt ps rid w = (i, w') \<Longrightarrow> ok w' st"
    and ok_admit: "ok w st \<Longrightarrow> distinct new \<Longrightarrow> set new \<subseteq> issued w - set (seqs st) \<Longrightarrow>
      \<forall>j\<in>set new. output_ids (heap w j) = [] \<Longrightarrow> admit e st new w = Inr (st', w') \<Longrightarrow>
      ok w' st' \<and> seqs st' = seqs st @ new \<and> evolves (heap w) (heap w') \<and>
      (\<forall>j. j \<notin> set new \<longrightarrow> heap w' j = heap w j) \<and> next_seq_id w' = next_seq_id w"
    and ok_decode: "ok w st \<Longrightarrow> decode_step e st w = Inr (st', w') \<Longrightarrow>
      ok w' st' \<and> seqs st' = seqs st \<and> evolves (heap w) (heap w') \<and>
      (\<forall>j. j \<notin> set (seqs st) \<longrightarrow> heap w' j = heap w j) \<and> next_seq_id w' = next_seq_id w"
    and ok_evict: "ok w st \<Longrightarrow> h' = abandon A (heap w) \<Longrightarrow> evict_scan e st (heap w) h' = Inr (st', gone) \<Longrightarrow>
      ok (w\<lparr>heap := h'\<rparr>) st' \<and> gone = filter (\<lambda>j. finished (h' j)) (seqs st) \<and>
      seqs st' = (if gone = [] then seqs st else filter (\<lambda>j. \<not> finished (heap w j)) (seqs st))"
    and evict_returns: "ok w st \<Longrightarrow> \<exists>r. evict_scan e st (heap w) (abandon A (heap w)) = Inr r"
    and ok_abandon: "ok w st \<Longrightarrow> ok (w\<lparr>heap := abandon A (heap w)\<rparr>) st"
    and ok_reset: "ok w st \<Longrightarrow> ok w empty_state"
    and ok_elapse: "ok w st \<Longrightarrow> ok (w\<lparr>clock_reads := c, rng := g\<rparr>) st"
    and ok_seqs: "ok w st \<Longrightarrow> set (seqs st) \<subseteq> issued w \<and> distinct (seqs st) \<and> 1 \<le> next_seq_id w"

text \<open>The engine provides the contract, with its reachable states for \<open>ok\<close>.\<close>

lemma advanced_evolves:
  assumes "advanced e am lm S h h'"
  shows "evolves h h'" and "j \<notin> S \<Longrightarrow> h' j = h j"
proof -
  show "h' j = h j" if "j \<notin> S" using assms that by (simp add: advanced_def)
  have "\<exists>more. output_ids (h' j) = output_ids (h j) @ more" for j
  proof (cases "j \<in> S \<and> \<not> finished (h j)")
    case True
    then show ?thesis using advanced_output [OF assms] by blast
  next
    case False
    then have "h' j = h j"
      using assms advanced_finished [OF assms] by (auto simp: advanced_def)
    then show ?thesis by simp
  qed
  moreover have "finish_reason (h' j) = Some ''abandoned'' \<longrightarrow> finish_reason (h j) = Some ''abandoned''" for j
    using advanced_grown [OF assms, of j] by (auto simp: grown_def)
  ultimately show "evolves h h'"
    using advanced_fixed [OF assms] advanced_finished [OF assms] by (auto simp: evolves_def)
qed

locale windowed = network +
  assumes window: "2 \<le> context_limit e"

sublocale windowed \<subseteq> contract: engine_contract e "engine_reach e"
proof (unfold_locales, goal_cases)
  case (1 w st)
  then show ?case by (rule engine_reach.reset)
next
  case (2 w st prompt ps rid i w')
  then show ?case by (rule engine_reach.submit)
next
  case (3 w st new st' w')
  note A = engine_inv_admit [OF engine_reach_inv [OF 3(1) window] 3(2-5)]
  show ?case
    using engine_reach.admit [OF 3] A(2,4) advanced_evolves [OF A(3)] by blast
next
  case (4 w st st' w')
  note D = engine_inv_decode [OF engine_reach_inv [OF 4(1) window] 4(2)]
  show ?case
    using engine_reach.decode [OF 4] D(2,4) advanced_evolves [OF D(3)] by blast
next
  case (5 w st h' A st' gone)
  note E = engine_inv_evict [OF engine_reach_inv [OF 5(1) window] 5(3)]
  show ?case using engine_reach.evict [OF 5] E(2,3) by blast
next
  case (6 w st A)
  show ?case
    using evict_scan_inv [OF engine_invD(1) [OF engine_reach_inv [OF 6 window]]] by metis
next
  case (7 w st A)
  then show ?case by (rule engine_reach.abandon)
next
  case (8 w st c g)
  then show ?case by (rule engine_reach.elapse)
next
  case (9 w st)
  note inv = engine_reach_inv [OF 9 window]
  have "distinct (seqs st)"
    using engine_invD(1) [OF inv] by (simp add: batch_inv_def split: if_splits)
  then show ?case using inv by (simp add: engine_inv_def)
qed

section \<open>What the operations leave alone\<close>

lemma set_req_frame [frame_simps]:
  "queue (set_req i f b) = queue b" "running (set_req i f b) = running b"
  "bstate (set_req i f b) = bstate b" "alive (set_req i f b) = alive b" "work (set_req i f b) = work b"
  "phase (set_req i f b) = phase b" "bworld (set_req i f b) = bworld b"
  "registry (set_req i f b) = registry b" "steps (set_req i f b) = steps b"
  "batched_rows (set_req i f b) = batched_rows b" "completed (set_req i f b) = completed b"
  "tokens_generated (set_req i f b) = tokens_generated b" "rejected (set_req i f b) = rejected b"
  by (simp_all add: set_req_def)

lemma reqs_set_req [simp]: "reqs (set_req i f b) = (reqs b)(i := f (reqs b i))"
  by (simp add: set_req_def)

lemma publish_row_frame [frame_simps]:
  "queue (publish_row e i b) = queue b" "running (publish_row e i b) = running b"
  "bstate (publish_row e i b) = bstate b" "alive (publish_row e i b) = alive b"
  "phase (publish_row e i b) = phase b" "bworld (publish_row e i b) = bworld b"
  "registry (publish_row e i b) = registry b" "steps (publish_row e i b) = steps b"
  "batched_rows (publish_row e i b) = batched_rows b" "completed (publish_row e i b) = completed b"
  "tokens_generated (publish_row e i b) = tokens_generated b"
  by (simp_all add: publish_row_def Let_def frame_simps)

lemma publish_rows_frame [frame_simps]:
  "queue (publish_rows e is b) = queue b" "running (publish_rows e is b) = running b"
  "bstate (publish_rows e is b) = bstate b" "alive (publish_rows e is b) = alive b"
  "phase (publish_rows e is b) = phase b" "bworld (publish_rows e is b) = bworld b"
  "registry (publish_rows e is b) = registry b" "steps (publish_rows e is b) = steps b"
  "batched_rows (publish_rows e is b) = batched_rows b" "completed (publish_rows e is b) = completed b"
  "tokens_generated (publish_rows e is b) = tokens_generated b"
  by (induction e "is" b rule: publish_rows.induct) (simp_all add: frame_simps)

lemma cancel_futures_frame [frame_simps]:
  "alive (cancel_futures is b) = alive b"
  "queue (cancel_futures is b) = queue b" "running (cancel_futures is b) = running b"
  "bstate (cancel_futures is b) = bstate b" "bworld (cancel_futures is b) = bworld b"
  "phase (cancel_futures is b) = phase b" "registry (cancel_futures is b) = registry b"
  "steps (cancel_futures is b) = steps b"
  "completed (cancel_futures is b) = completed b" "tokens_generated (cancel_futures is b) = tokens_generated b" "batched_rows (cancel_futures is b) = batched_rows b"
  by (induction "is" b rule: cancel_futures.induct) (simp_all add: frame_simps)

lemma fail_requests_frame [frame_simps]:
  "alive (fail_requests ex is b) = alive b"
  "queue (fail_requests ex is b) = queue b" "running (fail_requests ex is b) = running b"
  "bstate (fail_requests ex is b) = bstate b" "bworld (fail_requests ex is b) = bworld b"
  "registry (fail_requests ex is b) = registry b"
  "steps (fail_requests ex is b) = steps b"
  "completed (fail_requests ex is b) = completed b" "tokens_generated (fail_requests ex is b) = tokens_generated b" "batched_rows (fail_requests ex is b) = batched_rows b"
  by (induction ex "is" b rule: fail_requests.induct) (simp_all add: frame_simps)

lemma fail_all_frame [frame_simps]:
  "alive (fail_all ex b) = alive b"
  "queue (fail_all ex b) = queue b" "running (fail_all ex b) = []"
  "bstate (fail_all ex b) = empty_state" "phase (fail_all ex b) = Top" "bworld (fail_all ex b) = bworld b"
  "registry (fail_all ex b) = registry b"
  "steps (fail_all ex b) = steps b"
  "completed (fail_all ex b) = completed b" "tokens_generated (fail_all ex b) = tokens_generated b" "batched_rows (fail_all ex b) = batched_rows b"
  by (simp_all add: fail_all_def frame_simps)

text \<open>Completion pops the running table and reads the clock; the sequences stay as they are.\<close>

lemma complete_frame [frame_simps]:
  "alive (complete e i b) = alive b"
  "queue (complete e i b) = queue b" "running (complete e i b) = remove1 i (running b)"
  "bstate (complete e i b) = bstate b" "phase (complete e i b) = phase b"
  "heap (bworld (complete e i b)) = heap (bworld b)"
  "next_seq_id (bworld (complete e i b)) = next_seq_id (bworld b)"
  "steps (complete e i b) = steps b" "batched_rows (complete e i b) = batched_rows b"
  "completed (complete e i b) = Suc (completed b)"
  "tokens_generated (complete e i b) = tokens_generated b + length (output_ids (seq_of b i))"
  by (simp_all add: complete_def Let_def monotonic_def frame_simps)

lemma complete_world: "\<exists>c. bworld (complete e i b) = (bworld b)\<lparr>clock_reads := c\<rparr>"
proof (cases "i \<in> set (running b)")
  case True
  then show ?thesis unfolding complete_def Let_def monotonic_def by (auto simp: frame_simps)
next
  case False
  then have "bworld (complete e i b) = (bworld b)\<lparr>clock_reads := clock_reads (bworld b)\<rparr>"
    by (simp add: complete_def)
  then show ?thesis by blast
qed

lemma complete_all_frame [frame_simps]:
  "alive (complete_all e is b) = alive b"
  "queue (complete_all e is b) = queue b" "bstate (complete_all e is b) = bstate b"
  "phase (complete_all e is b) = phase b"
  "heap (bworld (complete_all e is b)) = heap (bworld b)"
  "next_seq_id (bworld (complete_all e is b)) = next_seq_id (bworld b)"
  "steps (complete_all e is b) = steps b" "batched_rows (complete_all e is b) = batched_rows b"
  "completed (complete_all e is b) = completed b + length is"
  by (induction e "is" b rule: complete_all.induct) (simp_all add: frame_simps)

lemma complete_all_running:
  "distinct (running b) \<Longrightarrow> set (running (complete_all e is b)) = set (running b) - set is \<and>
    distinct (running (complete_all e is b))"
  by (induction e "is" b rule: complete_all.induct) (auto simp: frame_simps)

lemma complete_all_world: "\<exists>c. bworld (complete_all e is b) = (bworld b)\<lparr>clock_reads := c\<rparr>"
proof (induction e "is" b rule: complete_all.induct)
  case (1 e b)
  show ?case by (rule exI [of _ "clock_reads (bworld b)"]) simp
next
  case (2 e i "is" b)
  obtain c where c: "bworld (complete_all e (i # is) b) = (bworld (complete e i b))\<lparr>clock_reads := c\<rparr>"
    using 2 by auto
  obtain d where "bworld (complete e i b) = (bworld b)\<lparr>clock_reads := d\<rparr>" using complete_world by blast
  with c show ?case by auto
qed

lemma begin_running_frame [frame_simps]:
  "queue (begin_running is b) = queue b" "bstate (begin_running is b) = bstate b"
  "alive (begin_running is b) = alive b"
  "heap (bworld (begin_running is b)) = heap (bworld b)"
  "next_seq_id (bworld (begin_running is b)) = next_seq_id (bworld b)"
  "registry (begin_running is b) = registry b"
  "steps (begin_running is b) = steps b"
  "completed (begin_running is b) = completed b" "tokens_generated (begin_running is b) = tokens_generated b" "batched_rows (begin_running is b) = batched_rows b"
  by (induction "is" arbitrary: b) (simp_all add: frame_simps monotonic_def Let_def)

lemma begin_running_world: "\<exists>c. bworld (begin_running is b) = (bworld b)\<lparr>clock_reads := c\<rparr>"
proof (induction "is" arbitrary: b)
  case Nil
  show ?case by (rule exI [of _ "clock_reads (bworld b)"]) simp
next
  case (Cons i "is")
  obtain b1 where "begin_running (i # is) b = begin_running is b1"
    "bworld b1 = (bworld b)\<lparr>clock_reads := Suc (clock_reads (bworld b))\<rparr>"
    by (auto simp: Let_def monotonic_def frame_simps)
  then show ?case using Cons.IH [of b1] by auto
qed

lemma begin_running_running:
  "distinct (running b) \<Longrightarrow> distinct (running (begin_running is b)) \<and>
    set (running (begin_running is b)) = set (running b) \<union> set is"
proof (induction "is" arbitrary: b)
  case Nil
  then show ?case by simp
next
  case (Cons i "is")
  obtain b1 where b1: "begin_running (i # is) b = begin_running is b1"
    "running b1 = (if i \<in> set (running b) then running b else running b @ [i])"
    by (auto simp: Let_def monotonic_def frame_simps)
  then have "distinct (running b1)" using Cons.prems by auto
  from Cons.IH [OF this] show ?case unfolding b1(1) by (auto simp: b1(2))
qed

lemma abandon_req_frame [frame_simps]:
  "alive (abandon_req i b) = alive b"
  "bstate (abandon_req i b) = bstate b" "running (abandon_req i b) = running b"
  "phase (abandon_req i b) = phase b" "reqs (abandon_req i b) = reqs b"
  "registry (abandon_req i b) = registry b" "next_seq_id (bworld (abandon_req i b)) = next_seq_id (bworld b)"
  "queue (abandon_req i b) = remove1 i (queue b)" "steps (abandon_req i b) = steps b"
  "completed (abandon_req i b) = completed b" "tokens_generated (abandon_req i b) = tokens_generated b"
  "batched_rows (abandon_req i b) = batched_rows b"
  by (simp_all add: abandon_req_def Let_def remove1_idem)

lemma abandon_req_heap: "heap (bworld (abandon_req i b)) =
    (if i \<in> set (running b) \<and> \<not> finished (seq_of b i) then abandon {i} (heap (bworld b)) else heap (bworld b))"
  by (auto simp: abandon_req_def Let_def)

lemma abandon_req_world:
  "bworld (abandon_req i b) = bworld b \<or> bworld (abandon_req i b) = (bworld b)\<lparr>heap := abandon {i} (heap (bworld b))\<rparr>"
  by (simp add: abandon_req_def Let_def)

lemma leave_frame [frame_simps]:
  "alive (leave i b) = alive b" "bstate (leave i b) = bstate b" "running (leave i b) = running b"
  "phase (leave i b) = phase b" "registry (leave i b) = registry b" "steps (leave i b) = steps b"
  "completed (leave i b) = completed b" "tokens_generated (leave i b) = tokens_generated b"
  "batched_rows (leave i b) = batched_rows b" "next_seq_id (bworld (leave i b)) = next_seq_id (bworld b)"
  by (simp_all add: leave_def submit_timeout_def stream_left_def frame_simps)

lemma leave_all_frame [frame_simps]:
  "alive (leave_all is b) = alive b" "bstate (leave_all is b) = bstate b"
  "running (leave_all is b) = running b" "phase (leave_all is b) = phase b"
  "registry (leave_all is b) = registry b" "steps (leave_all is b) = steps b"
  "completed (leave_all is b) = completed b" "tokens_generated (leave_all is b) = tokens_generated b"
  "batched_rows (leave_all is b) = batched_rows b"
  "next_seq_id (bworld (leave_all is b)) = next_seq_id (bworld b)"
  by (induction "is" b rule: leave_all.induct) (simp_all add: frame_simps)

text \<open>Giving up does to the sequences what \<open>abandon\<close> does.\<close>

lemma abandon_empty [simp]: "abandon {} h = h"
  by (simp add: abandon_def)

lemma abandon_twice: "abandon B (abandon A h) = abandon (A \<union> B) h"
  by (auto simp: abandon_def fun_eq_iff)

lemma leave_world: "\<exists>A. bworld (leave i b) = (bworld b)\<lparr>heap := abandon A (heap (bworld b))\<rparr>"
proof -
  have *: "\<exists>A. bworld (abandon_req i (set_req i f b)) = (bworld b)\<lparr>heap := abandon A (heap (bworld b))\<rparr>" for f
  proof (cases "bworld (abandon_req i (set_req i f b)) = bworld b")
    case True
    show ?thesis by (rule exI [of _ "{}"]) (simp add: True)
  next
    case False
    then show ?thesis
      using abandon_req_world [of i "set_req i f b"] by (intro exI [of _ "{i}"]) (simp add: frame_simps)
  qed
  show ?thesis by (simp add: leave_def submit_timeout_def stream_left_def *)
qed

lemma leave_all_world: "\<exists>A. bworld (leave_all is b) = (bworld b)\<lparr>heap := abandon A (heap (bworld b))\<rparr>"
proof (induction "is" arbitrary: b)
  case Nil
  show ?case by (rule exI [of _ "{}"]) simp
next
  case (Cons i "is")
  obtain A where "bworld (leave i b) = (bworld b)\<lparr>heap := abandon A (heap (bworld b))\<rparr>"
    using leave_world by blast
  then show ?case using Cons.IH [of "leave i b"] by (auto simp: abandon_twice)
qed

lemma issued_world [simp]:
  "issued (w\<lparr>clock_reads := c\<rparr>) = issued w" "issued (w\<lparr>rng := g\<rparr>) = issued w" "issued (w\<lparr>heap := h\<rparr>) = issued w"
  by (simp_all add: issued_def)

section \<open>The scheduler's invariant\<close>

text \<open>The newcomers whose prefill is under way.\<close>

definition pend :: "('f, 'i, 'r) batcher \<Rightarrow> nat list" where
  "pend b = (case phase b of Admitting new \<Rightarrow> new | _ \<Rightarrow> [])"

lemma pend_simps [simp]:
  "phase b = Admitting new \<Longrightarrow> pend b = new" "phase b = Top \<Longrightarrow> pend b = []"
  "phase b = Sleeping \<Longrightarrow> pend b = []" "phase b = Gathering d \<Longrightarrow> pend b = []"
  "phase b = Decoding \<Longrightarrow> pend b = []" "phase b = Evicting \<Longrightarrow> pend b = []"
  "phase b = NoTask \<Longrightarrow> pend b = []"
  by (simp_all add: pend_def)

lemma pend_cong: "phase b' = phase b \<Longrightarrow> pend b' = pend b"
  by (simp add: pend_def)

text \<open>
  The running table holds sequences of the batch or of the prefill under way, and the rows it has
  lost are finished; the queue is in order of submission, younger than everything admitted, with
  no output yet; neither the batch nor the queue outgrows its limit.
\<close>

definition table_inv :: "nat list \<Rightarrow> nat list \<Rightarrow> nat list \<Rightarrow> (nat \<Rightarrow> seq) \<Rightarrow> bool" where
  "table_inv run ss new h \<longleftrightarrow> distinct run \<and> set new \<subseteq> set run \<and> set run \<subseteq> set ss \<union> set new \<and>
     (\<forall>i\<in>set ss - set run. finished (h i))"

definition queue_inv :: "nat list \<Rightarrow> nat list \<Rightarrow> nat list \<Rightarrow> 'r world \<Rightarrow> bool" where
  "queue_inv qu ss new w \<longleftrightarrow> sorted_wrt (<) qu \<and> set qu \<union> set new \<subseteq> issued w \<and> distinct new \<and>
     set new \<inter> set ss = {} \<and> (\<forall>i\<in>set qu. \<forall>j\<in>set ss \<union> set new. j < i) \<and>
     (\<forall>i\<in>set qu \<union> set new. output_ids (heap w i) = [])"

definition size_inv :: "limits \<Rightarrow> nat list \<Rightarrow> nat list \<Rightarrow> nat list \<Rightarrow> bool" where
  "size_inv L qu ss new \<longleftrightarrow> int (length ss + length new) \<le> max 0 (lim_batch L) \<and>
     int (length qu) \<le> max 0 (lim_queue L)"

definition sched_inv :: "limits \<Rightarrow> ('f, 'i, 'r) batcher \<Rightarrow> bool" where
  "sched_inv L b \<longleftrightarrow>
     table_inv (running b) (seqs (bstate b)) (pend b) (heap (bworld b)) \<and>
     queue_inv (queue b) (seqs (bstate b)) (pend b) (bworld b) \<and>
     size_inv L (queue b) (seqs (bstate b)) (pend b)"

lemmas sched_defs = sched_inv_def table_inv_def queue_inv_def size_inv_def

lemma pend_update [simp]:
  "pend (b\<lparr>queue := q\<rparr>) = pend b" "pend (b\<lparr>running := r\<rparr>) = pend b" "pend (b\<lparr>bworld := w\<rparr>) = pend b"
  "pend (b\<lparr>bstate := st\<rparr>) = pend b" "pend (set_req i f b) = pend b" "pend (b\<lparr>work := x\<rparr>) = pend b"
  "pend (b\<lparr>registry := m\<rparr>) = pend b" "pend (b\<lparr>rejected := k\<rparr>) = pend b"
  by (simp_all add: pend_def frame_simps)

text \<open>The invariant depends on these components only.\<close>

lemma sched_inv_cong:
  assumes "sched_inv L b" "running b' = running b" "queue b' = queue b" "seqs (bstate b') = seqs (bstate b)"
    "pend b' = pend b" "heap (bworld b') = heap (bworld b)" "next_seq_id (bworld b') = next_seq_id (bworld b)"
  shows "sched_inv L b'"
  using assms by (auto simp: sched_inv_def queue_inv_def issued_def)

lemma table_inv_finish:
  "table_inv run ss new h \<Longrightarrow> (\<And>j. finished (h j) \<Longrightarrow> finished (h' j)) \<Longrightarrow> table_inv run ss new h'"
  by (auto simp: table_inv_def)

lemma queue_inv_heap:
  assumes "queue_inv qu ss new w" "issued w \<subseteq> issued w'"
    "\<And>j. j \<in> set qu \<union> set new \<Longrightarrow> output_ids (heap w' j) = output_ids (heap w j)"
  shows "queue_inv qu ss new w'"
proof -
  have "\<forall>i\<in>set qu \<union> set new. output_ids (heap w' i) = []"
    using assms(1,3) by (metis queue_inv_def)
  then show ?thesis using assms(1,2) unfolding queue_inv_def by blast
qed

lemma queue_inv_remove: "queue_inv qu ss new w \<Longrightarrow> queue_inv (remove1 i qu) ss new w"
proof -
  assume inv: "queue_inv qu ss new w"
  have "sorted_wrt (<) (remove1 i qu)"
    using inv by (simp add: queue_inv_def strict_sorted_iff sorted_remove1)
  moreover have "set (remove1 i qu) \<subseteq> set qu" by (rule set_remove1_subset)
  ultimately show ?thesis using inv unfolding queue_inv_def by blast
qed

lemma queue_inv_snoc:
  assumes "queue_inv qu ss new w" "i \<in> issued w" "output_ids (heap w i) = []"
    "\<And>j. j \<in> set qu \<union> set new \<union> set ss \<Longrightarrow> j < i"
  shows "queue_inv (qu @ [i]) ss new w"
  using assms by (auto simp: queue_inv_def sorted_wrt_append)

lemma size_inv_shrink:
  assumes "size_inv L qu ss new" "length qu' \<le> length qu" "length ss' + length new' \<le> length ss + length new"
  shows "size_inv L qu' ss' new'"
  using assms by (auto simp: size_inv_def)

lemma sched_inv_abandon_heap:
  assumes "sched_inv L b"
  shows "sched_inv L (b\<lparr>bworld := (bworld b)\<lparr>heap := abandon A (heap (bworld b))\<rparr>\<rparr>)"
proof -
  let ?h = "abandon A (heap (bworld b))"
  have "table_inv (running b) (seqs (bstate b)) (pend b) ?h"
    using assms by (auto simp: sched_inv_def abandon_finished intro: table_inv_finish)
  moreover have "queue_inv (queue b) (seqs (bstate b)) (pend b) ((bworld b)\<lparr>heap := ?h\<rparr>)"
    using assms by (auto simp: sched_inv_def intro: queue_inv_heap)
  ultimately show ?thesis using assms by (simp add: sched_inv_def)
qed

lemma sched_inv_dequeue: "sched_inv L b \<Longrightarrow> sched_inv L (b\<lparr>queue := remove1 i (queue b)\<rparr>)"
  by (auto simp: sched_inv_def length_remove1 intro: queue_inv_remove size_inv_shrink)

lemma sched_inv_abandon_req:
  assumes "sched_inv L b"
  shows "sched_inv L (abandon_req i b)"
proof -
  define b' where "b' = (if i \<in> set (queue b) then b\<lparr>queue := remove1 i (queue b)\<rparr> else b)"
  have "sched_inv L b'" using assms sched_inv_dequeue [OF assms, of i] by (simp add: b'_def)
  then show ?thesis
    using sched_inv_abandon_heap [OF \<open>sched_inv L b'\<close>, of "{i}"]
    unfolding abandon_req_def b'_def [symmetric] Let_def by simp
qed

lemma sched_inv_set_req: "sched_inv L b \<Longrightarrow> sched_inv L (set_req i f b)"
  by (rule sched_inv_cong) (simp_all add: frame_simps)

lemma sched_inv_leave: "sched_inv L b \<Longrightarrow> sched_inv L (leave i b)"
  by (simp add: leave_def submit_timeout_def stream_left_def sched_inv_abandon_req sched_inv_set_req)

lemma sched_inv_leave_all: "sched_inv L b \<Longrightarrow> sched_inv L (leave_all is b)"
  by (induction "is" b rule: leave_all.induct) (simp_all add: sched_inv_leave)

lemma sched_inv_cleared:
  assumes "sched_inv L b" "running b' = []" "seqs (bstate b') = []" "pend b' = []"
    "queue b' = queue b \<or> queue b' = []"
    "heap (bworld b') = heap (bworld b)" "next_seq_id (bworld b') = next_seq_id (bworld b)"
  shows "sched_inv L b'"
  using assms by (auto simp: sched_defs issued_def)

lemma make_request_effect:
  assumes "make_request e prompt ps rid uuid streaming b = (i, b1)" and "1 \<le> next_seq_id (bworld b)"
  shows "running b1 = running b" "queue b1 = queue b" "bstate b1 = bstate b" "phase b1 = phase b"
    "issued (bworld b1) = insert i (issued (bworld b))" "i \<notin> issued (bworld b)"
    "\<And>j. j \<in> issued (bworld b) \<Longrightarrow> j < i"
    "\<And>j. j \<noteq> i \<Longrightarrow> heap (bworld b1) j = heap (bworld b) j" "output_ids (heap (bworld b1) i) = []"
    "finish_reason (heap (bworld b1) i) = None"
    "\<And>j. j \<noteq> i \<Longrightarrow> reqs b1 j = reqs b j" "future (reqs b1 i) = Pending" "caller (reqs b1 i) = Waiting"
    "stream (reqs b1 i) = (if streaming then Some \<lparr>items = [], taken = 0\<rparr> else None)"
    "published_text (reqs b1 i) = ''''" "published (reqs b1 i) = 0" "rejected b1 = rejected b"
    "alive b1 = alive b" "1 \<le> next_seq_id (bworld b1)"
  using assms by (auto simp: make_request_def make_sequence_eq monotonic_def issued_def)

lemma sched_inv_enqueue:
  assumes inv: "sched_inv L b" and seqs: "set (seqs (bstate b)) \<subseteq> issued (bworld b)"
    and "next": "1 \<le> next_seq_id (bworld b)"
    and enq: "enqueue e L prompt ps rid uuid streaming b = (res, b')"
  shows "sched_inv L b'"
proof -
  obtain i b1 where mk: "make_request e prompt ps rid uuid streaming b = (i, b1)" by fastforce
  note M = make_request_effect [OF mk "next"]
  have mem: "j \<in> issued (bworld b)" if "j \<in> set (queue b) \<union> set (pend b) \<union> set (seqs (bstate b))" for j
    using inv seqs that by (auto simp: sched_inv_def queue_inv_def)
  have p: "pend b1 = pend b" by (rule pend_cong [OF M(4)])
  have same: "heap (bworld b1) j = heap (bworld b) j"
    if "j \<in> set (queue b) \<union> set (pend b) \<union> set (seqs (bstate b))" for j
    using M(6,8) mem [OF that] by metis
  have T: "table_inv (running b) (seqs (bstate b)) (pend b) (heap (bworld b1))"
    using inv same by (auto simp: sched_inv_def table_inv_def)
  have Q: "queue_inv (queue b) (seqs (bstate b)) (pend b) (bworld b1)"
    by (rule queue_inv_heap [of _ _ _ "bworld b"]) (use inv M(5) same in \<open>auto simp: sched_inv_def\<close>)
  show ?thesis
  proof (cases "lim_queue L \<le> int (length (queue b1))")
    case True
    then have "b' = set_req i (\<lambda>r. r\<lparr>caller := GaveUp\<rparr>) (b1\<lparr>rejected := Suc (rejected b1)\<rparr>)"
      using enq mk by (simp add: enqueue_def add_def)
    then show ?thesis
      using inv T Q M p by (simp add: sched_inv_def frame_simps)
  next
    case False
    then have b': "b' = b1\<lparr>queue := queue b1 @ [i], work := True\<rparr>"
      using enq mk by (simp add: enqueue_def add_def)
    have "queue_inv (queue b @ [i]) (seqs (bstate b)) (pend b) (bworld b1)"
      by (rule queue_inv_snoc [OF Q]) (use M mem in auto)
    moreover have "int (length (queue b @ [i])) \<le> max 0 (lim_queue L)" using False M(2) by simp
    ultimately show ?thesis
      using inv T M p by (simp add: b' sched_inv_def size_inv_def)
  qed
qed

section \<open>The scheduler's steps keep it\<close>

lemma take_admissions_spec:
  assumes "take_admissions L b = (new, b1)"
  shows "b1 = b\<lparr>queue := drop (length new) (queue b)\<rparr>" and "new = take (length new) (queue b)"
    and "new \<noteq> [] \<Longrightarrow> int (length (seqs (bstate b)) + length new) \<le> lim_batch L"
  using assms by (auto simp: take_admissions_def Let_def min_def split: if_splits)

lemma queue_inv_split:
  assumes "queue_inv (new @ qu) ss [] w"
  shows "queue_inv qu ss new w"
  using assms by (auto simp: queue_inv_def sorted_wrt_append strict_sorted_iff)

lemma sched_inv_tick_take:
  assumes inv: "sched_inv L b" and p: "pend b = []"
  shows "sched_inv L (tick_take L b)"
proof -
  obtain new b1 where t: "take_admissions L b = (new, b1)" by fastforce
  note T = take_admissions_spec [OF t]
  show ?thesis
  proof (cases "new = []")
    case True
    then have "b1 = b" using T(1) by simp
    then show ?thesis
      using t True inv p by (auto simp: tick_take_def sched_inv_def pend_def)
  next
    case False
    define b2 where "b2 = begin_running new b1"
    have eq: "tick_take L b = b2\<lparr>phase := Admitting new\<rparr>"
      using t False by (simp add: tick_take_def b2_def)
    have qb: "queue b = new @ queue b1" using T(1,2) by (metis append_take_drop_id batcher.select_convs(1)
        batcher.simps(19) batcher.surjective batcher.update_convs(1))
    have f: "queue b2 = queue b1" "bstate b2 = bstate b" "heap (bworld b2) = heap (bworld b)"
      "issued (bworld b2) = issued (bworld b)"
      using T(1) by (simp_all add: b2_def frame_simps issued_def)
    have d: "distinct (running b1)" using inv T(1) by (simp add: sched_inv_def table_inv_def)
    have run: "distinct (running b2)" "set (running b2) = set (running b) \<union> set new"
      using begin_running_running [OF d, of new] T(1) by (simp_all add: b2_def)
    have "table_inv (running b2) (seqs (bstate b)) new (heap (bworld b))"
      using inv p run by (auto simp: sched_inv_def table_inv_def)
    moreover have "queue_inv (queue b1) (seqs (bstate b)) new (bworld b)"
      by (rule queue_inv_split) (use inv p qb in \<open>simp add: sched_inv_def\<close>)
    moreover have "size_inv L (queue b1) (seqs (bstate b)) new"
      using inv T(3) [OF False] qb by (auto simp: sched_inv_def size_inv_def)
    ultimately show ?thesis
      using f unfolding eq sched_inv_def queue_inv_def by (simp add: pend_def)
  qed
qed

lemma sched_inv_clock: "sched_inv L b \<Longrightarrow> sched_inv L (b\<lparr>bworld := (bworld b)\<lparr>clock_reads := c\<rparr>\<rparr>)"
  by (rule sched_inv_cong) simp_all

lemma sched_inv_phase:
  "sched_inv L b \<Longrightarrow> pend b = [] \<Longrightarrow> pend (b\<lparr>phase := ph\<rparr>) = [] \<Longrightarrow> sched_inv L (b\<lparr>phase := ph\<rparr>)"
  by (erule sched_inv_cong) simp_all

lemma sched_inv_tick_top:
  assumes "sched_inv L b" "pend b = []"
  shows "sched_inv L (tick_top L b)"
proof -
  have "sched_inv L (b\<lparr>work := False, phase := Sleeping\<rparr>)"
    by (rule sched_inv_cong [OF assms(1)]) (simp_all add: assms(2))
  moreover have "sched_inv L (b\<lparr>bworld := (bworld b)\<lparr>clock_reads := c\<rparr>, phase := Gathering d\<rparr>)" for c d
    by (rule sched_inv_cong [OF assms(1)]) (simp_all add: assms(2))
  ultimately show ?thesis
    using sched_inv_tick_take [OF assms] by (simp add: tick_top_def monotonic_def Let_def)
qed

lemma sched_inv_tick_gather:
  assumes "sched_inv L b" "pend b = []"
  shows "sched_inv L (tick_gather L d b)"
  using sched_inv_tick_take [OF assms] sched_inv_clock [OF assms(1)]
    sched_inv_tick_take [OF sched_inv_clock [OF assms(1)]] assms(2)
  by (auto simp: tick_gather_def monotonic_def)

lemma sched_inv_fail_all: "sched_inv L b \<Longrightarrow> sched_inv L (fail_all ex b)"
  by (rule sched_inv_cleared [of L b]) (simp_all add: frame_simps)

lemma after_step_frame [frame_simps]:
  "completed (after_step e new st w b) = completed b"
  "alive (after_step e new st w b) = alive b"
  "queue (after_step e new st w b) = queue b" "running (after_step e new st w b) = running b"
  "bstate (after_step e new st w b) = st" "bworld (after_step e new st w b) = w"
  "phase (after_step e new st w b) = Evicting" "steps (after_step e new st w b) = Suc (steps b)"
  "batched_rows (after_step e new st w b) = batched_rows b + length (seqs st)"
  by (simp_all add: after_step_def Let_def publish_deltas_def observe_def frame_simps)

context engine_contract begin

lemma sched_inv_tick_admit:
  assumes inv: "sched_inv L b" and ok: "ok (bworld b) (bstate b)" and ph: "phase b = Admitting new"
  shows "sched_inv L (tick_admit e new b) \<and> ok (bworld (tick_admit e new b)) (bstate (tick_admit e new b))"
proof (cases "admit e (bstate b) new (bworld b)")
  case (Inl ex)
  then show ?thesis
    using sched_inv_fail_all [OF inv] ok_reset [OF ok] by (simp add: tick_admit_def frame_simps)
next
  case (Inr r)
  obtain st w where adm: "admit e (bstate b) new (bworld b) = Inr (st, w)" using Inr by (cases r) simp
  have p: "pend b = new" using ph by simp
  have Q: "queue_inv (queue b) (seqs (bstate b)) new (bworld b)" using inv p by (simp add: sched_inv_def)
  then have new: "distinct new" "set new \<subseteq> issued (bworld b) - set (seqs (bstate b))"
    "\<forall>j\<in>set new. output_ids (heap (bworld b) j) = []" by (auto simp: queue_inv_def)
  note A = ok_admit [OF ok new adm]
  have eq: "tick_admit e new b = after_step e new st w b" using adm by (simp add: tick_admit_def)
  have T: "table_inv (running b) (seqs st) [] (heap w)"
    using inv p A by (auto simp: sched_inv_def table_inv_def evolves_def)
  have same: "heap w i = heap (bworld b) i" if "i \<in> set (queue b)" for i
    using A Q that by (force simp: queue_inv_def)
  have "queue_inv (queue b) (seqs st) [] w"
    using Q A same by (auto simp: queue_inv_def issued_def)
  then show ?thesis
    using T A inv p unfolding eq by (auto simp: sched_inv_def size_inv_def frame_simps)
qed

lemma sched_inv_tick_decode:
  assumes inv: "sched_inv L b" and ok: "ok (bworld b) (bstate b)" and ph: "phase b = Decoding"
  shows "sched_inv L (tick_decode e b) \<and> ok (bworld (tick_decode e b)) (bstate (tick_decode e b))"
proof (cases "decode_step e (bstate b) (bworld b)")
  case (Inl ex)
  then show ?thesis
    using sched_inv_fail_all [OF inv] ok_reset [OF ok] by (simp add: tick_decode_def frame_simps)
next
  case (Inr r)
  obtain st w where dec: "decode_step e (bstate b) (bworld b) = Inr (st, w)" using Inr by (cases r) simp
  have p: "pend b = []" using ph by simp
  note D = ok_decode [OF ok dec]
  have Q: "queue_inv (queue b) (seqs (bstate b)) [] (bworld b)" using inv p by (simp add: sched_inv_def)
  have eq: "tick_decode e b = after_step e [] st w b" using dec by (simp add: tick_decode_def)
  have same: "heap w i = heap (bworld b) i" if "i \<in> set (queue b)" for i
    using D Q that by (force simp: queue_inv_def)
  have "table_inv (running b) (seqs st) [] (heap w)"
    using inv p D by (auto simp: sched_inv_def table_inv_def evolves_def)
  moreover have "queue_inv (queue b) (seqs st) [] w"
    using Q D same by (auto simp: queue_inv_def issued_def)
  ultimately show ?thesis
    using D inv p unfolding eq by (auto simp: sched_inv_def size_inv_def frame_simps)
qed

lemma tick_evict_eq:
  assumes "ok (bworld b) (bstate b)"
  obtains A st gone where "heap (bworld (leave_all is b)) = abandon A (heap (bworld b))"
    "tick_evict e is b = (complete_all e gone ((leave_all is b)\<lparr>bstate := st\<rparr>))\<lparr>phase := Top\<rparr>"
    "ok (bworld (leave_all is b)) st"
    "gone = filter (\<lambda>j. finished (heap (bworld (leave_all is b)) j)) (seqs (bstate b))"
    "seqs st = (if gone = [] then seqs (bstate b) else filter (\<lambda>j. \<not> finished (heap (bworld b) j)) (seqs (bstate b)))"
proof -
  obtain A where w: "bworld (leave_all is b) = (bworld b)\<lparr>heap := abandon A (heap (bworld b))\<rparr>"
    using leave_all_world by blast
  obtain st gone where ev: "evict_scan e (bstate b) (heap (bworld b)) (abandon A (heap (bworld b))) = Inr (st, gone)"
    using evict_returns [OF assms] by (metis surj_pair)
  note E = ok_evict [OF assms refl ev]
  show thesis
    by (rule that [of A gone st]) (use E ev w in \<open>auto simp: tick_evict_def Let_def\<close>)
qed

lemma sched_inv_tick_evict:
  assumes inv: "sched_inv L b" and ok: "ok (bworld b) (bstate b)" and ph: "phase b = Evicting"
  shows "sched_inv L (tick_evict e is b) \<and> ok (bworld (tick_evict e is b)) (bstate (tick_evict e is b))"
proof -
  define b0 where "b0 = leave_all is b"
  obtain A st gone where E: "heap (bworld b0) = abandon A (heap (bworld b))"
    "tick_evict e is b = (complete_all e gone (b0\<lparr>bstate := st\<rparr>))\<lparr>phase := Top\<rparr>"
    "ok (bworld b0) st" "gone = filter (\<lambda>j. finished (heap (bworld b0) j)) (seqs (bstate b))"
    "seqs st = (if gone = [] then seqs (bstate b) else filter (\<lambda>j. \<not> finished (heap (bworld b) j)) (seqs (bstate b)))"
    unfolding b0_def by (rule tick_evict_eq [OF ok])
  have inv0: "sched_inv L b0" using inv by (simp add: b0_def sched_inv_leave_all)
  have f0: "pend b0 = []" "seqs (bstate b0) = seqs (bstate b)"
    using ph by (simp_all add: b0_def pend_def frame_simps)
  have d: "distinct (running (b0\<lparr>bstate := st\<rparr>))" using inv0 by (simp add: sched_inv_def table_inv_def)
  let ?r = "running (complete_all e gone (b0\<lparr>bstate := st\<rparr>))"
  have run: "distinct ?r" "set ?r = set (running b0) - set gone"
    using complete_all_running [OF d, of e gone] by simp_all
  have T: "table_inv ?r (seqs st) [] (heap (bworld b0))"
    using inv0 f0 E run
    by (auto simp: sched_inv_def table_inv_def abandon_finished filter_empty_conv split: if_splits)
  have sub: "set (seqs st) \<subseteq> set (seqs (bstate b))" "length (seqs st) \<le> length (seqs (bstate b))"
    using E(5) by auto
  have Q: "queue_inv (queue b0) (seqs st) [] (bworld b0)"
    using inv0 f0 sub by (auto simp: sched_inv_def queue_inv_def)
  have S: "size_inv L (queue b0) (seqs st) []"
    using inv0 f0 sub by (auto simp: sched_inv_def intro: size_inv_shrink)
  obtain c where w: "bworld (complete_all e gone (b0\<lparr>bstate := st\<rparr>)) = (bworld b0)\<lparr>clock_reads := c\<rparr>"
    using complete_all_world [of e gone "b0\<lparr>bstate := st\<rparr>"] by auto
  have "ok ((bworld b0)\<lparr>clock_reads := c, rng := rng (bworld b0)\<rparr>) st" using E(3) by (rule ok_elapse)
  then show ?thesis
    unfolding E(2) using T Q S w
    by (simp add: sched_inv_def frame_simps pend_def queue_inv_def)
qed

end

section \<open>Every reachable scheduler state\<close>

lemma stop_frame [frame_simps]:
  "alive (stop b) = False"
  "queue (stop b) = []" "running (stop b) = []" "bstate (stop b) = empty_state" "bworld (stop b) = bworld b"
  "phase (stop b) = NoTask" "registry (stop b) = registry b" "steps (stop b) = steps b"
  "completed (stop b) = completed b" "tokens_generated (stop b) = tokens_generated b"
  "batched_rows (stop b) = batched_rows b"
  by (simp_all add: stop_def Let_def frame_simps)

lemma tick_take_frame [frame_simps]:
  "alive (tick_take L b) = alive b"
  "bstate (tick_take L b) = bstate b" "registry (tick_take L b) = registry b" "steps (tick_take L b) = steps b"
  "completed (tick_take L b) = completed b" "tokens_generated (tick_take L b) = tokens_generated b"
  "batched_rows (tick_take L b) = batched_rows b" "heap (bworld (tick_take L b)) = heap (bworld b)"
  "next_seq_id (bworld (tick_take L b)) = next_seq_id (bworld b)"
  by (simp_all add: tick_take_def take_admissions_def Let_def frame_simps)

lemma tick_take_world: "\<exists>c. bworld (tick_take L b) = (bworld b)\<lparr>clock_reads := c\<rparr>"
proof -
  obtain new b1 where t: "take_admissions L b = (new, b1)" by fastforce
  have b1: "bworld b1 = bworld b" using take_admissions_spec(1) [OF t] by simp
  show ?thesis
  proof (cases "new = []")
    case True
    then have "bworld (tick_take L b) = (bworld b)\<lparr>clock_reads := clock_reads (bworld b)\<rparr>"
      using t b1 by (simp add: tick_take_def)
    then show ?thesis by blast
  next
    case False
    then show ?thesis using begin_running_world [of new b1] t b1 by (auto simp: tick_take_def)
  qed
qed

lemma tick_top_frame [frame_simps]:
  "alive (tick_top L b) = alive b"
  "bstate (tick_top L b) = bstate b" "registry (tick_top L b) = registry b" "steps (tick_top L b) = steps b"
  "completed (tick_top L b) = completed b" "tokens_generated (tick_top L b) = tokens_generated b"
  "batched_rows (tick_top L b) = batched_rows b" "heap (bworld (tick_top L b)) = heap (bworld b)"
  "next_seq_id (bworld (tick_top L b)) = next_seq_id (bworld b)"
  by (simp_all add: tick_top_def Let_def monotonic_def frame_simps)

lemma tick_gather_frame [frame_simps]:
  "alive (tick_gather L d b) = alive b"
  "bstate (tick_gather L d b) = bstate b" "registry (tick_gather L d b) = registry b"
  "steps (tick_gather L d b) = steps b"
  "completed (tick_gather L d b) = completed b" "tokens_generated (tick_gather L d b) = tokens_generated b" "batched_rows (tick_gather L d b) = batched_rows b"
  "heap (bworld (tick_gather L d b)) = heap (bworld b)"
  "next_seq_id (bworld (tick_gather L d b)) = next_seq_id (bworld b)"
  by (simp_all add: tick_gather_def Let_def monotonic_def frame_simps)

text \<open>Readings of the clock are all the selection steps do to the world.\<close>

lemma world_eq_clock:
  "w' = w\<lparr>clock_reads := c\<rparr> \<Longrightarrow> w' = w\<lparr>clock_reads := c, rng := rng w\<rparr>"
  by simp

lemma tick_top_world: "\<exists>c. bworld (tick_top L b) = (bworld b)\<lparr>clock_reads := c\<rparr>"
proof -
  have "bworld b = (bworld b)\<lparr>clock_reads := clock_reads (bworld b)\<rparr>" by simp
  then have "\<exists>c. bworld b = (bworld b)\<lparr>clock_reads := c\<rparr>" by blast
  then show ?thesis using tick_take_world [of L b] by (auto simp: tick_top_def monotonic_def)
qed

lemma tick_gather_world: "\<exists>c. bworld (tick_gather L d b) = (bworld b)\<lparr>clock_reads := c\<rparr>"
proof -
  have "\<exists>c. bworld (tick_take L (b\<lparr>bworld := (bworld b)\<lparr>clock_reads := k\<rparr>\<rparr>)) = (bworld b)\<lparr>clock_reads := c\<rparr>" for k
    using tick_take_world [of L "b\<lparr>bworld := (bworld b)\<lparr>clock_reads := k\<rparr>\<rparr>"] by auto
  then show ?thesis using tick_take_world [of L b] by (auto simp: tick_gather_def monotonic_def)
qed

lemma enqueue_phase: "enqueue e L prompt ps rid uuid streaming b = (res, b') \<Longrightarrow>
    alive b' = alive b \<and> phase b' = phase b"
  by (auto simp: enqueue_def make_request_def add_def frame_simps split: prod.splits if_splits)

lemma idle_no_task: "batch_reach e L b \<Longrightarrow> alive b \<or> phase b = NoTask"
proof (induction rule: batch_reach.induct)
  case (enqueue b prompt ps rid uuid streaming res b')
  then show ?case using enqueue_phase [OF enqueue(2)] by simp
next
  case (stop b)
  then show ?case by (simp add: frame_simps)
next
  case (start b)
  then show ?case by (auto simp: start_def)
qed (auto simp: new_batcher_def submit_timeout_def submit_cancelled_def stream_left_def stream_closed_def tick_admit_def
    tick_decode_def tick_evict_def Let_def frame_simps split: sum.splits)

context engine_contract begin

lemma ok_clock: "ok w st \<Longrightarrow> ok (w\<lparr>clock_reads := c\<rparr>) st"
  using ok_elapse [of w st "rng w" c] by simp

lemma ok_enqueue:
  assumes "ok (bworld b) (bstate b)" and "enqueue e L prompt ps rid uuid streaming b = (res, b')"
  shows "ok (bworld b') (bstate b')"
proof -
  obtain i w where mk: "make_sequence e prompt ps (if rid = '''' then uuid else rid) (bworld b) = (i, w)"
    by fastforce
  have "bworld b' = w\<lparr>clock_reads := Suc (clock_reads w)\<rparr>" "bstate b' = bstate b"
    using assms(2) mk
    by (auto simp: enqueue_def make_request_def monotonic_def add_def frame_simps split: if_splits)
  then show ?thesis using ok_clock [OF ok_submit [OF assms(1) mk]] by simp
qed

lemma ok_abandon_req: "ok (bworld b) (bstate b) \<Longrightarrow> ok (bworld (abandon_req i b)) (bstate (abandon_req i b))"
  using abandon_req_world [of i b] ok_abandon by (auto simp: frame_simps)

lemma reach_inv:
  assumes "batch_reach e L b"
  shows "sched_inv L b \<and> ok (bworld b) (bstate b)"
  using assms
proof (induction rule: batch_reach.induct)
  case (init w st rs)
  then show ?case
    using ok_start [OF init(1)] by (simp add: new_batcher_def sched_inv_def table_inv_def queue_inv_def size_inv_def)
next
  case (start b)
  then show ?case
    using idle_no_task [OF start(1)] by (auto simp: start_def pend_def intro!: sched_inv_cong [of L b])
next
  case (stop b)
  then show ?case
    using ok_reset by (auto intro: sched_inv_cleared [of L b] simp: frame_simps)
next
  case (enqueue b prompt ps rid uuid streaming res b')
  then show ?case
    using sched_inv_enqueue [OF _ _ _ enqueue(2)] ok_enqueue [OF _ enqueue(2)] ok_seqs by blast
next
  case (submit_timeout b i)
  then show ?case
    unfolding submit_timeout_def
    by (intro conjI sched_inv_abandon_req ok_abandon_req sched_inv_set_req) (simp_all add: frame_simps)
next
  case (submit_cancelled b i)
  then show ?case
    unfolding submit_cancelled_def by (auto intro!: sched_inv_set_req simp: frame_simps)
next
  case (stream_left b i)
  then show ?case
    unfolding stream_left_def
    by (intro conjI sched_inv_abandon_req ok_abandon_req sched_inv_set_req) (simp_all add: frame_simps)
next
  case (stream_closed b i)
  then show ?case
    unfolding stream_closed_def by (auto intro!: sched_inv_set_req simp: frame_simps)
next
  case (stream_get b i x r)
  then show ?case by (auto intro!: sched_inv_set_req simp: frame_simps)
next
  case (wake b)
  then show ?case by (auto intro!: sched_inv_phase)
next
  case (top b)
  then show ?case
    using sched_inv_tick_top [of L b] tick_top_world [of L b] ok_clock by (fastforce simp: frame_simps)
next
  case (gather b d)
  then show ?case
    using sched_inv_tick_gather [of L b d] tick_gather_world [of L d b] ok_clock
    by (fastforce simp: frame_simps)
next
  case (admit b new)
  then show ?case using sched_inv_tick_admit by blast
next
  case (decode b)
  then show ?case using sched_inv_tick_decode by blast
next
  case (evict b "is")
  then show ?case using sched_inv_tick_evict by blast
next
  case (elapse b c g)
  then show ?case using ok_elapse by (auto intro: sched_inv_cong)
next
  case (scrape b)
  then show ?case by (auto intro: sched_inv_cong)
next
  case (failed_call b status)
  then show ?case by (auto intro: sched_inv_cong)
next
  case (model_info b model dev)
  then show ?case by (auto intro: sched_inv_cong)
qed

end

end
