(* ===== verification/BatcherReq.thy ===== *)
theory BatcherReq
  imports BatcherInv
begin

text \<open>
  What happens to one request, in every reachable scheduler state.

  The locale \<open>request_invariant\<close> takes a predicate of a request, its sequence and whether the
  scheduler still holds it, with one law per thing the program does to a request, and proves once
  that the predicate holds of every request. It is interpreted for the outcome of a request
  (\<open>outcome_ok\<close>) and for the text of its stream (\<open>text_ok\<close>).
\<close>

section \<open>One request\<close>

definition held :: "('f, 'i, 'r) batcher \<Rightarrow> nat \<Rightarrow> bool" where
  "held b i \<longleftrightarrow> i \<in> set (queue b) \<or> i \<in> set (running b)"

definition grows :: "seq \<Rightarrow> seq \<Rightarrow> bool" where
  "grows s s' \<longleftrightarrow> prompt_ids s' = prompt_ids s \<and> seq.request_id s' = seq.request_id s \<and>
     params s' = params s \<and> (\<exists>more. output_ids s' = output_ids s @ more) \<and> (finished s \<longrightarrow> s' = s) \<and>
     (finish_reason s' = Some ''abandoned'' \<longrightarrow> finish_reason s = Some ''abandoned'')"

lemma grows_refl [simp]: "grows s s"
  by (simp add: grows_def)

lemma evolves_grows: "evolves h h' \<Longrightarrow> grows (h j) (h' j)"
  by (auto simp: evolves_def grows_def)

text \<open>What the loops over requests do to one of them.\<close>

lemma reqs_fail_requests:
  "distinct is \<Longrightarrow> reqs (fail_requests ex is b) j =
    (if j \<in> set is then put_nowait None (settle (Failed ex) (reqs b j)) else reqs b j)"
  by (induction "is" arbitrary: b) auto

lemma settle_idem [simp]: "settle f (settle f r) = settle f r"
  by (simp add: settle_def)

lemma reqs_cancel_futures:
  "reqs (cancel_futures is b) j = (if j \<in> set is then settle Cancelled (reqs b j) else reqs b j)"
  by (induction "is" arbitrary: b) auto

lemma reqs_begin_running:
  "distinct is \<Longrightarrow> \<exists>t. reqs (begin_running is b) j = (if j \<in> set is then (reqs b j)\<lparr>started_at := t\<rparr> else reqs b j)"
proof (induction "is" arbitrary: b)
  case Nil
  then show ?case by simp
next
  case (Cons i "is")
  obtain b1 t1 where b1: "begin_running (i # is) b = begin_running is b1"
    "reqs b1 = (reqs b)(i := (reqs b i)\<lparr>started_at := t1\<rparr>)"
    by (auto simp: Let_def monotonic_def frame_simps)
  obtain t where "reqs (begin_running is b1) j = (if j \<in> set is then (reqs b1 j)\<lparr>started_at := t\<rparr> else reqs b1 j)"
    using Cons.IH [of b1] Cons.prems by auto
  then show ?case
    using Cons.prems unfolding b1(1) by (auto simp: b1(2))
qed

locale request_invariant =
  fixes e :: "('f, 'i, 'b, 'd, 'r) engine" and P :: "bool \<Rightarrow> request \<Rightarrow> seq \<Rightarrow> bool"
  assumes P_new: "future r = Pending \<Longrightarrow> caller r = Waiting \<Longrightarrow>
      stream r = None \<or> stream r = Some \<lparr>items = [], taken = 0\<rparr> \<Longrightarrow> published_text r = [] \<Longrightarrow>
      finish_reason s = None \<Longrightarrow> P True r s"
    and P_foreign: "caller r = GaveUp \<Longrightarrow> future r = Cancelled \<Longrightarrow> stream r = None \<Longrightarrow> P False r s"
    and P_reject: "P True r s \<Longrightarrow> P False (r\<lparr>caller := GaveUp\<rparr>) s"
    and P_grows: "P h r s \<Longrightarrow> grows s s' \<Longrightarrow> P h r s'"
    and P_abandon: "P True r s \<Longrightarrow> caller r = GaveUp \<Longrightarrow> P True r (s\<lparr>finish_reason := Some ''abandoned''\<rparr>)"
    and P_started: "P h r s \<Longrightarrow> P h (r\<lparr>started_at := t\<rparr>) s"
    and P_submit_left: "P h r s \<Longrightarrow> stream r = None \<Longrightarrow> (h' \<longrightarrow> h) \<Longrightarrow>
      P h' ((settle Cancelled r)\<lparr>caller := GaveUp\<rparr>) s"
    and P_stream_left: "P h r s \<Longrightarrow> stream r \<noteq> None \<Longrightarrow> (h' \<longrightarrow> h) \<Longrightarrow> P h' (r\<lparr>caller := GaveUp\<rparr>) s"
    and P_get: "P h r s \<Longrightarrow> stream_get r = Some (x, r') \<Longrightarrow> P h r' s"
    and P_publish: "P True r s \<Longrightarrow> stream r \<noteq> None \<Longrightarrow> P True (publish_req e s r) s"
    and P_complete: "P True r s \<Longrightarrow> finished s \<Longrightarrow> P False (deliver (make_result e s r now) r) s"
    and P_fail: "P True r s \<Longrightarrow> P False (put_nowait None (settle (Failed ex) r)) s"
    and P_stop: "P True r s \<Longrightarrow> P False (settle Cancelled r) s"
begin

definition all_P :: "('f, 'i, 'r) batcher \<Rightarrow> bool" where
  "all_P b \<longleftrightarrow> (\<forall>i\<in>issued (bworld b). P (held b i) (reqs b i) (heap (bworld b) i))"

lemma all_P_cong:
  assumes "all_P b" "queue b' = queue b" "running b' = running b" "reqs b' = reqs b"
    "heap (bworld b') = heap (bworld b)" "next_seq_id (bworld b') = next_seq_id (bworld b)"
  shows "all_P b'"
  using assms by (simp add: all_P_def held_def issued_def)

lemma all_P_set_req:
  assumes "all_P b" and "P (held b i) (reqs b i) (seq_of b i) \<Longrightarrow> P (held b i) (f (reqs b i)) (seq_of b i)"
  shows "all_P (set_req i f b)"
  using assms by (simp add: all_P_def held_def frame_simps)

lemma all_P_publish_rows: "all_P b \<Longrightarrow> all_P (publish_rows e is b)"
proof (induction "is" arbitrary: b)
  case Nil
  then show ?case by simp
next
  case (Cons i "is")
  have "all_P (publish_row e i b)"
    unfolding publish_row_def using Cons.prems
    by (auto intro!: all_P_set_req P_publish simp: held_def)
  then show ?case using Cons.IH by simp
qed

lemma all_P_complete_all:
  assumes "all_P b" "distinct (running b)" "set (running b) \<inter> set (queue b) = {}"
    "\<forall>i\<in>set is. finished (seq_of b i)"
  shows "all_P (complete_all e is b)"
  using assms
proof (induction "is" arbitrary: b)
  case Nil
  then show ?case by simp
next
  case (Cons i "is")
  have "all_P (complete e i b)"
  proof (cases "i \<in> set (running b)")
    case True
    then obtain now where r: "reqs (complete e i b) = (reqs b)(i := deliver (make_result e (seq_of b i) (reqs b i) now) (reqs b i))"
      by (auto simp: complete_def Let_def monotonic_def frame_simps)
    have h: "held (complete e i b) j = (held b j \<and> j \<noteq> i)" for j
      using Cons.prems(2,3) True by (auto simp: held_def frame_simps)
    have hi: "held b i" using True by (simp add: held_def)
    show ?thesis
      unfolding all_P_def
    proof
      fix j assume "j \<in> issued (bworld (complete e i b))"
      then have p: "P (held b j) (reqs b j) (seq_of b j)"
        using Cons.prems(1) by (simp add: all_P_def frame_simps issued_def)
      show "P (held (complete e i b) j) (reqs (complete e i b) j) (seq_of (complete e i b) j)"
      proof (cases "j = i")
        case True
        have "P False (deliver (make_result e (seq_of b i) (reqs b i) now) (reqs b i)) (seq_of b i)"
          by (rule P_complete) (use p hi Cons.prems(4) True in simp_all)
        then show ?thesis by (simp add: True h frame_simps r)
      next
        case False
        then show ?thesis using p by (simp add: h frame_simps r)
      qed
    qed
  next
    case False
    then show ?thesis
      using Cons.prems(1) by (auto simp: complete_def remove1_idem intro: all_P_cong)
  qed
  moreover have "set (running (complete e i b)) \<subseteq> set (running b)"
    using set_remove1_subset by (simp add: frame_simps)
  ultimately show ?case
    using Cons.IH [of "complete e i b"] Cons.prems by (auto simp: frame_simps)
qed

lemma all_P_fail_all:
  assumes "all_P b" "distinct (running b)" "set (running b) \<inter> set (queue b) = {}"
  shows "all_P (fail_all ex b)"
  unfolding all_P_def
proof
  fix i assume "i \<in> issued (bworld (fail_all ex b))"
  then have p: "P (held b i) (reqs b i) (seq_of b i)"
    using assms(1) by (simp add: all_P_def frame_simps)
  show "P (held (fail_all ex b) i) (reqs (fail_all ex b) i) (seq_of (fail_all ex b) i)"
  proof (cases "i \<in> set (running b)")
    case True
    then have "i \<notin> set (queue b)" using assms(3) by blast
    moreover have "P False (put_nowait None (settle (Failed ex) (reqs b i))) (seq_of b i)"
      by (rule P_fail) (use p True in \<open>simp add: held_def\<close>)
    ultimately show ?thesis
      using assms(2) True by (simp add: fail_all_def held_def frame_simps reqs_fail_requests)
  next
    case False
    then show ?thesis
      using p assms(2) by (simp add: fail_all_def held_def frame_simps reqs_fail_requests)
  qed
qed

lemma all_P_stop: "all_P b \<Longrightarrow> all_P (stop b)"
  unfolding all_P_def
proof
  fix i assume all: "\<forall>i\<in>issued (bworld b). P (held b i) (reqs b i) (seq_of b i)" and "i \<in> issued (bworld (stop b))"
  then have p: "P (held b i) (reqs b i) (seq_of b i)" by (simp add: frame_simps)
  show "P (held (stop b) i) (reqs (stop b) i) (seq_of (stop b) i)"
    using p P_stop by (auto simp: stop_def Let_def held_def frame_simps reqs_cancel_futures)
qed

lemma all_P_tick_take:
  assumes "all_P b" "distinct (queue b)" "distinct (running b)"
  shows "all_P (tick_take L b)"
proof -
  obtain new b1 where t: "take_admissions L b = (new, b1)" by fastforce
  note T = take_admissions_spec [OF t]
  show ?thesis
  proof (cases "new = []")
    case True
    then show ?thesis
      using t T(1) assms(1) by (auto simp: tick_take_def intro: all_P_cong)
  next
    case False
    have d: "distinct new" using T(2) assms(2) by (metis distinct_take)
    have eq: "tick_take L b = (begin_running new b1)\<lparr>phase := Admitting new\<rparr>"
      using t False by (simp add: tick_take_def)
    have run: "set (running (begin_running new b1)) = set (running b) \<union> set new"
      using begin_running_running [of b1 new] T(1) assms(3) by simp
    have "queue b = new @ queue b1"
      using T(2) arg_cong [OF T(1), of queue] append_take_drop_id [of "length new" "queue b"] by simp
    then have qb: "set (queue b) = set new \<union> set (queue b1)" by simp
    have h: "held (tick_take L b) i = held b i" for i
      using run qb by (auto simp: eq held_def frame_simps)
    have "P (held b i) (reqs (tick_take L b) i) (seq_of b i)" if "P (held b i) (reqs b i) (seq_of b i)" for i
      using reqs_begin_running [OF d, of b1 i] that P_started T(1) by (auto simp: eq)
    then show ?thesis
      using assms(1) h by (auto simp: all_P_def frame_simps issued_def)
  qed
qed

lemma all_P_enqueue:
  assumes all: "all_P b" and start: "1 \<le> next_seq_id (bworld b)"
    and old: "set (queue b) \<union> set (running b) \<subseteq> issued (bworld b)"
    and enq: "enqueue e L prompt ps rid uuid streaming b = (res, b')"
  shows "all_P b'"
proof -
  obtain i b1 where mk: "make_request e prompt ps rid uuid streaming b = (i, b1)" by fastforce
  note M = make_request_effect [OF mk start]
  have new: "P True (reqs b1 i) (seq_of b1 i)"
    by (rule P_new) (use M in auto)
  have i: "i \<notin> set (queue b)" "i \<notin> set (running b)" using old M(6) by auto
  have rest: "P (held b j) (reqs b1 j) (seq_of b1 j)" if "j \<in> issued (bworld b)" for j
  proof -
    have "j \<noteq> i" using that M(6) by blast
    then show ?thesis using all that M(8,11) by (simp add: all_P_def)
  qed
  show ?thesis
  proof (cases "lim_queue L \<le> int (length (queue b1))")
    case True
    then have "b' = set_req i (\<lambda>r. r\<lparr>caller := GaveUp\<rparr>) (b1\<lparr>rejected := Suc (rejected b1)\<rparr>)"
      using enq mk by (simp add: enqueue_def add_def)
    then have eq: "queue b' = queue b" "running b' = running b" "reqs b' = (reqs b1)(i := (reqs b1 i)\<lparr>caller := GaveUp\<rparr>)"
      "bworld b' = bworld b1" using M by (simp_all add: frame_simps)
    show ?thesis
      unfolding all_P_def
    proof
      fix j assume "j \<in> issued (bworld b')"
      then have "j = i \<or> j \<in> issued (bworld b)" using M(5) eq by simp
      then show "P (held b' j) (reqs b' j) (seq_of b' j)"
        using P_reject [OF new] rest i M(6) eq by (cases "j = i") (simp_all add: held_def)
    qed
  next
    case False
    then have b': "b' = b1\<lparr>queue := queue b1 @ [i], work := True\<rparr>"
      using enq mk by (simp add: enqueue_def add_def)
    show ?thesis
      unfolding all_P_def
    proof
      fix j assume "j \<in> issued (bworld b')"
      then have "j = i \<or> j \<in> issued (bworld b)" using M(5) b' by simp
      then show "P (held b' j) (reqs b' j) (seq_of b' j)"
        using new rest i M(1,2,6) b' by (cases "j = i") (simp_all add: held_def)
    qed
  qed
qed

lemma all_P_leaves:
  assumes "all_P b" and "P (held b i) (reqs b i) (seq_of b i) \<Longrightarrow> P (held b i) (f (reqs b i)) (seq_of b i)"
    and "\<And>h'. P (held b i) (reqs b i) (seq_of b i) \<Longrightarrow> h' \<longrightarrow> held b i \<Longrightarrow> P h' (f (reqs b i)) (seq_of b i)"
    and "distinct (queue b)" and "caller (f (reqs b i)) = GaveUp"
  shows "all_P (abandon_req i (set_req i f b))"
  unfolding all_P_def
proof
  let ?b = "abandon_req i (set_req i f b)"
  fix j assume "j \<in> issued (bworld ?b)"
  then have p: "P (held b j) (reqs b j) (seq_of b j)"
    using assms(1) by (simp add: all_P_def frame_simps issued_def)
  have h: "held ?b j \<longleftrightarrow> (if j = i then i \<in> set (running b) else held b j)"
    using assms(4) by (auto simp: held_def frame_simps)
  show "P (held ?b j) (reqs ?b j) (seq_of ?b j)"
  proof (cases "j = i")
    case False
    then show ?thesis
      using p h by (simp add: frame_simps abandon_req_heap abandon_def)
  next
    case True
    have q: "P (i \<in> set (running b)) (f (reqs b i)) (seq_of b i)"
      using assms(3) p True by (simp add: held_def)
    show ?thesis
      using q P_abandon [of "f (reqs b i)" "seq_of b i"] h True assms(5)
      by (auto simp: frame_simps abandon_req_heap abandon_def)
  qed
qed

lemma all_P_submit_timeout:
  assumes "all_P b" "distinct (queue b)" "stream (reqs b i) = None"
  shows "all_P (submit_timeout i b)"
  unfolding submit_timeout_def using assms P_submit_left
  by (intro all_P_leaves) auto

lemma all_P_stream_left:
  assumes "all_P b" "distinct (queue b)" "stream (reqs b i) \<noteq> None"
  shows "all_P (stream_left i b)"
  unfolding stream_left_def using assms P_stream_left
  by (intro all_P_leaves) auto

lemma all_P_leave_all:
  "all_P b \<Longrightarrow> distinct (queue b) \<Longrightarrow> all_P (leave_all is b)"
proof (induction "is" arbitrary: b)
  case Nil
  then show ?case by simp
next
  case (Cons i "is")
  have "all_P (leave i b)"
    using Cons.prems all_P_submit_timeout all_P_stream_left by (simp add: leave_def)
  moreover have "distinct (queue (leave i b))"
    using Cons.prems by (simp add: leave_def submit_timeout_def stream_left_def frame_simps)
  ultimately show ?case using Cons.IH by simp
qed

lemma all_P_after_step:
  assumes "all_P b" "\<And>j. grows (seq_of b j) (heap w j)" "next_seq_id w = next_seq_id (bworld b)"
  shows "all_P (after_step e new st w b)"
proof -
  define b1 where "b1 = observe e new (b\<lparr>bstate := st, bworld := w, steps := Suc (steps b),
    batched_rows := batched_rows b + length (seqs st)\<rparr>)"
  have "all_P b1"
    using assms P_grows by (auto simp: b1_def observe_def Let_def all_P_def held_def issued_def)
  then have "all_P (publish_deltas e b1)" by (simp add: publish_deltas_def all_P_publish_rows)
  moreover have "after_step e new st w b = (publish_deltas e b1)\<lparr>phase := Evicting\<rparr>"
    by (simp add: after_step_def b1_def Let_def)
  ultimately show ?thesis by (auto intro: all_P_cong)
qed

end

lemma sched_inv_members:
  assumes "sched_inv L b"
  shows "distinct (queue b)" "distinct (running b)" "set (running b) \<inter> set (queue b) = {}"
proof -
  show "distinct (queue b)" "distinct (running b)"
    using assms by (auto simp: sched_inv_def queue_inv_def table_inv_def strict_sorted_iff)
  have "j < i" if "i \<in> set (queue b)" "j \<in> set (running b)" for i j
    using assms that by (auto simp: sched_inv_def queue_inv_def table_inv_def)
  then show "set (running b) \<inter> set (queue b) = {}" by fastforce
qed

text \<open>The scheduler over an engine, with an invariant of its requests.\<close>

locale scheduled = engine_contract e ok + request_invariant e P
  for e :: "('f, 'i, 'b, 'd, 'r) engine" and ok :: "'r world \<Rightarrow> ('f, 'i) batch_state \<Rightarrow> bool"
    and P :: "bool \<Rightarrow> request \<Rightarrow> seq \<Rightarrow> bool"
begin

lemma held_issued:
  assumes "sched_inv L b" "ok (bworld b) (bstate b)"
  shows "set (queue b) \<union> set (running b) \<subseteq> issued (bworld b)"
  using assms(1) ok_seqs [OF assms(2)] by (auto simp: sched_inv_def queue_inv_def table_inv_def)

lemma all_P_tick_admit:
  assumes "all_P b" "sched_inv L b" "ok (bworld b) (bstate b)" "phase b = Admitting new"
  shows "all_P (tick_admit e new b)"
proof (cases "admit e (bstate b) new (bworld b)")
  case (Inl ex)
  then show ?thesis
    using all_P_fail_all [OF assms(1) sched_inv_members(2,3) [OF assms(2)]] by (simp add: tick_admit_def)
next
  case (Inr r)
  obtain st w where adm: "admit e (bstate b) new (bworld b) = Inr (st, w)" using Inr by (cases r) simp
  have Q: "queue_inv (queue b) (seqs (bstate b)) new (bworld b)"
    using assms(2,4) by (simp add: sched_inv_def)
  have "distinct new" "set new \<subseteq> issued (bworld b) - set (seqs (bstate b))"
    "\<forall>j\<in>set new. output_ids (heap (bworld b) j) = []" using Q by (auto simp: queue_inv_def)
  note A = ok_admit [OF assms(3) this adm]
  have "grows (seq_of b j) (heap w j)" for j using A evolves_grows by blast
  then have "all_P (after_step e new st w b)" using assms(1) A by (blast intro: all_P_after_step)
  then show ?thesis using adm by (simp add: tick_admit_def)
qed

lemma all_P_tick_decode:
  assumes "all_P b" "sched_inv L b" "ok (bworld b) (bstate b)"
  shows "all_P (tick_decode e b)"
proof (cases "decode_step e (bstate b) (bworld b)")
  case (Inl ex)
  then show ?thesis
    using all_P_fail_all [OF assms(1) sched_inv_members(2,3) [OF assms(2)]] by (simp add: tick_decode_def)
next
  case (Inr r)
  obtain st w where dec: "decode_step e (bstate b) (bworld b) = Inr (st, w)" using Inr by (cases r) simp
  note D = ok_decode [OF assms(3) dec]
  have "grows (seq_of b j) (heap w j)" for j using D evolves_grows by blast
  then have "all_P (after_step e [] st w b)" using assms(1) D by (blast intro: all_P_after_step)
  then show ?thesis using dec by (simp add: tick_decode_def)
qed

lemma all_P_tick_evict:
  assumes "all_P b" "sched_inv L b" "ok (bworld b) (bstate b)"
  shows "all_P (tick_evict e is b)"
proof -
  define b0 where "b0 = leave_all is b"
  obtain A st gone where E: "heap (bworld b0) = abandon A (heap (bworld b))"
    "tick_evict e is b = (complete_all e gone (b0\<lparr>bstate := st\<rparr>))\<lparr>phase := Top\<rparr>"
    "gone = filter (\<lambda>j. finished (heap (bworld b0) j)) (seqs (bstate b))"
    unfolding b0_def by (rule tick_evict_eq [OF assms(3)])
  have inv: "sched_inv L b0" using assms(2) by (simp add: b0_def sched_inv_leave_all)
  have "all_P (b0\<lparr>bstate := st\<rparr>)"
    using all_P_leave_all [OF assms(1) sched_inv_members(1) [OF assms(2)], of "is"]
    by (auto simp: b0_def intro: all_P_cong)
  then have "all_P (complete_all e gone (b0\<lparr>bstate := st\<rparr>))"
    by (rule all_P_complete_all) (use sched_inv_members [OF inv] E(3) in simp_all)
  then show ?thesis unfolding E(2) by (auto intro: all_P_cong)
qed

lemma all_P_tick_gather:
  assumes "all_P b" "sched_inv L b"
  shows "all_P (tick_gather L d b)" "all_P (tick_top L b)"
proof -
  have "all_P (tick_take L b)" by (rule all_P_tick_take) (use assms sched_inv_members in auto)
  moreover have "all_P (b\<lparr>bworld := (bworld b)\<lparr>clock_reads := c\<rparr>\<rparr>)" for c
    by (rule all_P_cong [OF assms(1)]) simp_all
  moreover have "all_P (tick_take L (b\<lparr>bworld := (bworld b)\<lparr>clock_reads := c\<rparr>\<rparr>))" for c
    by (rule all_P_tick_take) (use calculation sched_inv_members [OF assms(2)] in auto)
  moreover have "all_P (b\<lparr>bworld := (bworld b)\<lparr>clock_reads := c\<rparr>, phase := ph\<rparr>)"
    "all_P (b\<lparr>work := False, phase := ph\<rparr>)" for c ph
    by (rule all_P_cong [OF assms(1)]; simp)+
  ultimately show "all_P (tick_gather L d b)" "all_P (tick_top L b)"
    by (simp_all add: tick_gather_def tick_top_def monotonic_def Let_def)
qed

text \<open>The predicate holds of every request in every reachable state.\<close>

lemma reach_P:
  assumes "batch_reach e L b"
  shows "all_P b"
  using assms
proof (induction rule: batch_reach.induct)
  case (init w st rs)
  then show ?case by (simp add: all_P_def held_def new_batcher_def foreign_def P_foreign)
next
  case (start b)
  then show ?case by (auto simp: start_def intro: all_P_cong)
next
  case (stop b)
  then show ?case by (intro all_P_stop)
next
  case (enqueue b prompt ps rid uuid streaming res b')
  note R = reach_inv [OF enqueue(1)]
  show ?case
    using all_P_enqueue [OF enqueue(3) _ _ enqueue(2)] held_issued R ok_seqs by blast
next
  case (submit_timeout b i)
  then show ?case
    by (blast intro: all_P_submit_timeout sched_inv_members(1) conjunct1 [OF reach_inv])
next
  case (submit_cancelled b i)
  then show ?case
    unfolding submit_cancelled_def using P_submit_left by (intro all_P_set_req) auto
next
  case (stream_left b i)
  then show ?case
    by (blast intro: all_P_stream_left sched_inv_members(1) conjunct1 [OF reach_inv])
next
  case (stream_closed b i)
  then show ?case
    unfolding stream_closed_def using P_stream_left by (intro all_P_set_req) auto
next
  case (stream_get b i x r)
  then show ?case using P_get by (intro all_P_set_req) auto
next
  case (wake b)
  then show ?case by (auto intro: all_P_cong)
next
  case (top b)
  then show ?case using all_P_tick_gather(2) reach_inv by blast
next
  case (gather b d)
  then show ?case using all_P_tick_gather(1) reach_inv by blast
next
  case (admit b new)
  then show ?case using all_P_tick_admit reach_inv by blast
next
  case (decode b)
  then show ?case using all_P_tick_decode reach_inv by blast
next
  case (evict b "is")
  then show ?case using all_P_tick_evict reach_inv by blast
next
  case (elapse b c g)
  then show ?case by (auto intro: all_P_cong)
next
  case (scrape b)
  then show ?case by (auto intro: all_P_cong)
next
  case (failed_call b status)
  then show ?case by (auto intro: all_P_cong)
next
  case (model_info b model dev)
  then show ?case by (auto intro: all_P_cong)
qed

end

section \<open>The outcome of a request\<close>

text \<open>Closed by the sentinel, which nothing follows.\<close>

definition sentinel_last :: "stream_queue \<Rightarrow> bool" where
  "sentinel_last q \<longleftrightarrow> items q \<noteq> [] \<and> last (items q) = None \<and> None \<notin> set (butlast (items q))"

definition result_of :: "('f, 'i, 'b, 'd, 'r) engine \<Rightarrow> seq \<Rightarrow> result \<Rightarrow> bool" where
  "result_of e s res \<longleftrightarrow> finished s \<and> res_text res = decode e (output_ids s) \<and>
     res_prompt_tokens res = length (prompt_ids s) \<and> res_completion_tokens res = length (output_ids s) \<and>
     res_finish_reason res = reason_or_stop (finish_reason s) \<and> res_request_id res = seq.request_id s"

definition outcome_ok :: "('f, 'i, 'b, 'd, 'r) engine \<Rightarrow> bool \<Rightarrow> request \<Rightarrow> seq \<Rightarrow> bool" where
  "outcome_ok e h r s \<longleftrightarrow>
     (h \<longrightarrow> future r = Pending \<or> future r = Cancelled \<and> caller r = GaveUp \<and> stream r = None) \<and>
     (\<not> h \<and> caller r = Waiting \<longrightarrow> future r \<noteq> Pending) \<and>
     (caller r = Waiting \<longrightarrow> finish_reason s \<noteq> Some ''abandoned'') \<and>
     (case future r of Resolved res \<Rightarrow> result_of e s res | _ \<Rightarrow> True) \<and>
     (case stream r of None \<Rightarrow> True
      | Some q \<Rightarrow> if future r = Pending \<or> future r = Cancelled then None \<notin> set (items q) else sentinel_last q)"

lemma grows_result_of: "result_of e s res \<Longrightarrow> grows s s' \<Longrightarrow> result_of e s' res"
  by (auto simp: result_of_def grows_def)

lemma make_result_of: "finished s \<Longrightarrow> result_of e s (make_result e s r now)"
  by (simp add: result_of_def make_result_def)

lemma stream_get_frame:
  assumes "stream_get r = Some (x, r')"
  shows "future r' = future r" "caller r' = caller r" "published_text r' = published_text r"
    "\<exists>q. stream r = Some q \<and> stream r' = Some (q\<lparr>taken := Suc (taken q)\<rparr>)"
  using assms by (auto simp: stream_get_def split: option.splits if_splits)

lemma put_nowait_frame [simp]:
  "future (put_nowait x r) = future r" "caller (put_nowait x r) = caller r"
  "published_text (put_nowait x r) = published_text r"
  "stream (put_nowait x r) = map_option (\<lambda>q. q\<lparr>items := items q @ [x]\<rparr>) (stream r)"
  by (simp_all add: put_nowait_def split: option.split)

lemma settle_frame [simp]:
  "future (settle f r) = (if future r = Pending then f else future r)" "caller (settle f r) = caller r"
  "published_text (settle f r) = published_text r" "stream (settle f r) = stream r"
  by (simp_all add: settle_def)

lemma publish_req_frame:
  "future (publish_req e s r) = future r" "caller (publish_req e s r) = caller r"
  "published_text (publish_req e s r) = decode e (output_ids s)"
  "stream (publish_req e s r) =
    (if drop (length (published_text r)) (decode e (output_ids s)) = [] then stream r
     else map_option (\<lambda>q. q\<lparr>items := items q @ [Some (drop (length (published_text r)) (decode e (output_ids s)))]\<rparr>) (stream r))"
  by (simp_all add: publish_req_def Let_def)

lemma publish_final_frame:
  "future (publish_final res r) = future r" "caller (publish_final res r) = caller r"
  "published_text (publish_final res r) =
    (if drop (length (published_text r)) (res_text res) = [] then published_text r else res_text res)"
  "stream (publish_final res r) =
    (if drop (length (published_text r)) (res_text res) = [] then stream r
     else map_option (\<lambda>q. q\<lparr>items := items q @ [Some (drop (length (published_text r)) (res_text res))]\<rparr>) (stream r))"
  by (simp_all add: publish_final_def Let_def)

lemma deliver_frame:
  "future (deliver res r) = (if future r = Pending then Resolved res else future r)"
  "caller (deliver res r) = caller r"
  "stream (deliver res r) =
    map_option (\<lambda>q. q\<lparr>items := items q @ [None]\<rparr>) (stream (publish_final res r))"
  "stream r \<noteq> None \<Longrightarrow> published_text (deliver res r) = published_text (publish_final res r)"
  by (auto simp: deliver_def publish_final_frame)

lemmas delivery_frames = publish_req_frame publish_final_frame deliver_frame

lemma closed_snoc: "None \<notin> set xs \<Longrightarrow> sentinel_last \<lparr>items = xs @ [None], taken = n\<rparr>"
  by (simp add: sentinel_last_def)

interpretation outcome: request_invariant e "outcome_ok e" for e :: "('f, 'i, 'b, 'd, 'r) engine"
proof (unfold_locales, goal_cases)
  case (1 r s)
  then show ?case by (auto simp: outcome_ok_def)
next
  case (2 r s)
  then show ?case by (simp add: outcome_ok_def)
next
  case (3 r s)
  then show ?case by (auto simp: outcome_ok_def split: future_state.splits option.splits)
next
  case (4 h r s s')
  then have "finish_reason s' = Some ''abandoned'' \<longrightarrow> finish_reason s = Some ''abandoned''"
    by (simp add: grows_def)
  with 4 show ?case
    by (auto simp: outcome_ok_def intro: grows_result_of split: future_state.splits)
next
  case (5 r s)
  then show ?case by (auto simp: outcome_ok_def)
next
  case (6 h r s t)
  then show ?case by (auto simp: outcome_ok_def split: option.splits future_state.splits)
next
  case (7 h r s h')
  then show ?case by (auto simp: outcome_ok_def split: future_state.splits)
next
  case (8 h r s h')
  then show ?case by (auto simp: outcome_ok_def)
next
  case (9 h r s x r')
  then show ?case
    using stream_get_frame [OF 9(2)] by (auto simp: outcome_ok_def sentinel_last_def split: if_splits)
next
  case (10 r s)
  then show ?case
    by (auto simp: outcome_ok_def publish_req_frame split: option.splits)
next
  case (11 r s now)
  then show ?case
    by (auto simp: outcome_ok_def deliver_frame publish_final_frame sentinel_last_def make_result_of butlast_append
        split: option.splits)
next
  case (12 r s ex)
  then show ?case
    by (auto simp: outcome_ok_def sentinel_last_def split: option.splits)
next
  case (13 r s)
  then show ?case by (auto simp: outcome_ok_def split: option.splits)
qed

section \<open>The text of a stream\<close>

definition stream_text :: "string option list \<Rightarrow> string" where
  "stream_text xs = concat (map (\<lambda>x. case x of None \<Rightarrow> [] | Some t \<Rightarrow> t) xs)"

lemma stream_text_simps [simp]:
  "stream_text [] = []" "stream_text (xs @ ys) = stream_text xs @ stream_text ys"
  "stream_text (Some t # xs) = t @ stream_text xs" "stream_text (None # xs) = stream_text xs"
  by (simp_all add: stream_text_def)

text \<open>Decoding one more token only appends to the text.\<close>

definition decode_extends :: "('f, 'i, 'b, 'd, 'r) engine \<Rightarrow> bool" where
  "decode_extends e \<longleftrightarrow> (\<forall>ids more. \<exists>d. decode e (ids @ more) = decode e ids @ d)"

definition text_ok :: "('f, 'i, 'b, 'd, 'r) engine \<Rightarrow> bool \<Rightarrow> request \<Rightarrow> seq \<Rightarrow> bool" where
  "text_ok e h r s \<longleftrightarrow>
     (case stream r of None \<Rightarrow> True
      | Some q \<Rightarrow> stream_text (items q) = published_text r \<and>
          (\<exists>d. decode e (output_ids s) = published_text r @ d) \<and>
          (case future r of Resolved res \<Rightarrow> \<not> h \<and> res_text res = published_text r | _ \<Rightarrow> True))"

locale incremental =
  fixes e :: "('f, 'i, 'b, 'd, 'r) engine"
  assumes extends: "decode_extends e"

sublocale incremental \<subseteq> delivered: request_invariant e "text_ok e"
proof (unfold_locales, goal_cases)
  case (1 r s)
  then show ?case by (auto simp: text_ok_def)
next
  case (2 r s)
  then show ?case by (simp add: text_ok_def)
next
  case (3 r s)
  then show ?case by (auto simp: text_ok_def split: option.splits future_state.splits)
next
  case (4 h r s s')
  obtain more d where "output_ids s' = output_ids s @ more" "decode e (output_ids s @ more) = decode e (output_ids s) @ d"
    using 4(2) extends unfolding grows_def decode_extends_def by metis
  then show ?case using 4(1) by (auto simp: text_ok_def split: option.splits future_state.splits)
next
  case (5 r s)
  then show ?case by (auto simp: text_ok_def split: option.splits future_state.splits)
next
  case (6 h r s t)
  then show ?case by (auto simp: text_ok_def split: option.splits future_state.splits)
next
  case (7 h r s h')
  then show ?case by (auto simp: text_ok_def split: option.splits future_state.splits)
next
  case (8 h r s h')
  then show ?case by (auto simp: text_ok_def split: option.splits future_state.splits)
next
  case (9 h r s x r')
  then show ?case
    using stream_get_frame [OF 9(2)] by (auto simp: text_ok_def split: future_state.splits)
next
  case (10 r s)
  then show ?case by (auto simp: text_ok_def publish_req_frame split: option.splits future_state.splits)
next
  case (11 r s now)
  then show ?case
    by (auto simp: text_ok_def deliver_frame publish_final_frame make_result_def
        split: option.splits future_state.splits)
next
  case (12 r s ex)
  then show ?case by (auto simp: text_ok_def split: option.splits future_state.splits)
next
  case (13 r s)
  then show ?case by (auto simp: text_ok_def split: option.splits future_state.splits)
qed

section \<open>The engine's scheduler\<close>

text \<open>Both invariants hold for the scheduler that drives the engine of \<open>Engine\<close>.\<close>

sublocale windowed \<subseteq> outcomes: scheduled e "engine_reach e" "outcome_ok e"
  by unfold_locales

locale incremental_serving = windowed + incremental

sublocale incremental_serving \<subseteq> texts: scheduled e "engine_reach e" "text_ok e"
  by unfold_locales

context windowed begin

lemma reach_sched:
  assumes "batch_reach e L b"
  shows "sched_inv L b" and "engine_reach e (bworld b) (bstate b)"
    and "engine_inv e dims amax lm (bworld b) (bstate b)"
  using contract.reach_inv [OF assms] engine_reach_inv [OF _ window] by blast+

lemma reach_issued: "batch_reach e L b \<Longrightarrow> set (queue b) \<union> set (running b) \<subseteq> issued (bworld b)"
  using contract.reach_inv outcomes.held_issued by blast

lemma reach_outcome:
  "batch_reach e L b \<Longrightarrow> i \<in> issued (bworld b) \<Longrightarrow> outcome_ok e (held b i) (reqs b i) (seq_of b i)"
  using outcomes.reach_P by (simp add: outcome.all_P_def)

end

context incremental_serving begin

lemma reach_text:
  "batch_reach e L b \<Longrightarrow> i \<in> issued (bworld b) \<Longrightarrow> text_ok e (held b i) (reqs b i) (seq_of b i)"
  using texts.reach_P by (simp add: delivered.all_P_def)

end

end
