(* ===== verification/BatcherLive.thy ===== *)
theory BatcherLive
  imports BatcherReq Generation
begin

text \<open>
  The scheduler answers everybody: left alone, its loop empties the queue and the batch, whether
  the engine's calls succeed or raise, and then no caller is left waiting.

  \<open>sched_step\<close> is the loop's next step when no caller moves. A round is what happens between two
  visits of the top of the loop; each round with work to do shrinks the queue, or else the tokens
  left to generate.
\<close>

section \<open>The loop alone\<close>

definition sched_step :: "('f, 'i, 'b, 'd, 'r) engine \<Rightarrow> limits \<Rightarrow> ('f, 'i, 'r) batcher \<Rightarrow>
    ('f, 'i, 'r) batcher" where
  "sched_step e L b = (case phase b of
       Top \<Rightarrow> tick_top L b
     | Sleeping \<Rightarrow> if work b then b\<lparr>phase := Top\<rparr> else b
     | Gathering d \<Rightarrow> tick_gather L d b
     | Admitting new \<Rightarrow> tick_admit e new b
     | Decoding \<Rightarrow> tick_decode e b
     | Evicting \<Rightarrow> tick_evict e [] b
     | NoTask \<Rightarrow> b)"

fun sched_run :: "('f, 'i, 'b, 'd, 'r) engine \<Rightarrow> limits \<Rightarrow> nat \<Rightarrow> ('f, 'i, 'r) batcher \<Rightarrow>
    ('f, 'i, 'r) batcher" where
  "sched_run e L 0 b = b"
| "sched_run e L (Suc n) b = sched_run e L n (sched_step e L b)"

lemma sched_run_add: "sched_run e L (m + n) b = sched_run e L n (sched_run e L m b)"
  by (induction m arbitrary: b) simp_all

section \<open>Where the loop waits\<close>

text \<open>
  A loop that runs is at one of its awaits, it sleeps and gathers only over an empty batch, and it
  never sleeps through a submission.
\<close>

definition idle_inv :: "('f, 'i, 'r) batcher \<Rightarrow> bool" where
  "idle_inv b \<longleftrightarrow> (alive b \<longleftrightarrow> phase b \<noteq> NoTask) \<and>
     (phase b = Sleeping \<longrightarrow> seqs (bstate b) = [] \<and> (queue b \<noteq> [] \<longrightarrow> work b)) \<and>
     ((\<exists>d. phase b = Gathering d) \<longrightarrow> seqs (bstate b) = []) \<and>
     (phase b = Decoding \<longrightarrow> seqs (bstate b) \<noteq> [])"

lemma tick_take_phase:
  "phase (tick_take L b) = Top \<or> (\<exists>new. phase (tick_take L b) = Admitting new) \<or>
   phase (tick_take L b) = Decoding \<and> seqs (bstate b) \<noteq> []"
  using take_admissions_spec(1) [of L b]
  by (cases "take_admissions L b") (auto simp: tick_take_def)

lemma idle_inv_tick_take: "alive b \<Longrightarrow> idle_inv (tick_take L b)"
  using tick_take_phase [of L b] by (auto simp: idle_inv_def frame_simps)

lemma idle_inv_cong:
  assumes "idle_inv b" "alive b' = alive b" "phase b' = phase b" "seqs (bstate b') = seqs (bstate b)"
    "queue b' \<noteq> [] \<longrightarrow> queue b \<noteq> []" "work b' = work b"
  shows "idle_inv b'"
  using assms by (auto simp: idle_inv_def)

lemma abandon_req_work [simp]: "work (abandon_req i b) = work b"
  by (simp add: abandon_req_def Let_def)

lemma idle_inv_leave: "idle_inv b \<Longrightarrow> idle_inv (leave i b)"
  by (erule idle_inv_cong) (auto simp: leave_def submit_timeout_def stream_left_def frame_simps)

lemma idle_inv_enqueue:
  assumes "idle_inv b" and "enqueue e L prompt ps rid uuid streaming b = (res, b')"
  shows "idle_inv b'"
proof -
  obtain i b1 where mk: "make_request e prompt ps rid uuid streaming b = (i, b1)" by fastforce
  then have b1: "alive b1 = alive b" "phase b1 = phase b" "bstate b1 = bstate b" "queue b1 = queue b"
    "work b1 = work b"
    by (auto simp: make_request_def split: prod.splits)
  have "b' = set_req i (caller_update (\<lambda>_. GaveUp)) (b1\<lparr>rejected := Suc (rejected b1)\<rparr>) \<or>
      b' = b1\<lparr>queue := queue b1 @ [i], work := True\<rparr>"
    using assms(2) mk by (auto simp: enqueue_def add_def split: if_splits)
  then show ?thesis
    using assms(1) b1 by (elim disjE) (auto simp: idle_inv_def frame_simps)
qed

lemma tick_admit_phase: "phase (tick_admit e new b) = Evicting \<or> phase (tick_admit e new b) = Top"
  by (auto simp: tick_admit_def frame_simps split: sum.splits)

lemma tick_decode_phase: "phase (tick_decode e b) = Evicting \<or> phase (tick_decode e b) = Top"
  by (auto simp: tick_decode_def frame_simps split: sum.splits)

lemma tick_evict_phase [simp]: "phase (tick_evict e is b) = Top"
  by (auto simp: tick_evict_def Let_def frame_simps split: sum.splits)

lemma tick_alive [simp]:
  "alive (tick_admit e new b) = alive b" "alive (tick_decode e b) = alive b" "alive (tick_evict e is b) = alive b"
  by (auto simp: tick_admit_def tick_decode_def tick_evict_def Let_def frame_simps split: sum.splits)

lemma reach_idle: "batch_reach e L b \<Longrightarrow> idle_inv b"
proof (induction rule: batch_reach.induct)
  case (init w st rs)
  then show ?case by (simp add: idle_inv_def new_batcher_def)
next
  case (start b)
  then show ?case by (auto simp: idle_inv_def start_def)
next
  case (stop b)
  then show ?case by (simp add: idle_inv_def stop_def Let_def frame_simps)
next
  case (enqueue b prompt ps rid uuid streaming res b')
  then show ?case using idle_inv_enqueue by blast
next
  case (submit_timeout b i)
  then show ?case using idle_inv_leave [of b i] by (auto simp: leave_def)
next
  case (submit_cancelled b i)
  then show ?case by (auto intro: idle_inv_cong simp: submit_cancelled_def frame_simps)
next
  case (stream_left b i)
  then show ?case using idle_inv_leave [of b i] by (auto simp: leave_def)
next
  case (stream_closed b i)
  then show ?case by (auto intro: idle_inv_cong simp: stream_closed_def frame_simps)
next
  case (stream_get b i x r)
  then show ?case by (auto intro: idle_inv_cong simp: frame_simps)
next
  case (wake b)
  then show ?case by (auto simp: idle_inv_def)
next
  case (top b)
  then show ?case
    using idle_inv_tick_take [of b L] by (auto simp: tick_top_def idle_inv_def monotonic_def)
next
  case (gather b d)
  then have "alive b" by (simp add: idle_inv_def)
  then show ?case
    using gather idle_inv_tick_take [of _ L] by (auto simp: tick_gather_def idle_inv_def monotonic_def)
next
  case (admit b new)
  then show ?case using tick_admit_phase [of e new b] by (auto simp: idle_inv_def)
next
  case (decode b)
  then show ?case using tick_decode_phase [of e b] by (auto simp: idle_inv_def)
next
  case (evict b "is")
  then show ?case by (simp add: idle_inv_def)
qed (auto intro: idle_inv_cong)

lemma reach_sched_step: "batch_reach e L b \<Longrightarrow> batch_reach e L (sched_step e L b)"
proof -
  assume r: "batch_reach e L b"
  have "phase b = Top \<Longrightarrow> alive b" using reach_idle [OF r] by (auto simp: idle_inv_def)
  then show ?thesis
    using r by (auto simp: sched_step_def split: phase.splits intro: batch_reach.intros)
qed

lemma reach_sched_run: "batch_reach e L b \<Longrightarrow> batch_reach e L (sched_run e L n b)"
  by (induction n arbitrary: b) (simp_all add: reach_sched_step)

lemma sched_step_alive: "idle_inv b \<Longrightarrow> alive (sched_step e L b) = alive b"
  by (simp add: sched_step_def frame_simps split: phase.splits)

section \<open>Rounds\<close>

lemma sum_list_less:
  fixes f g :: "'a \<Rightarrow> nat"
  assumes "\<forall>x\<in>set xs. f x \<le> g x" "\<exists>x\<in>set xs. f x < g x"
  shows "sum_list (map f xs) < sum_list (map g xs)"
  using assms
proof (induction xs)
  case Nil
  then show ?case by simp
next
  case (Cons x xs)
  have "sum_list (map f xs) \<le> sum_list (map g xs)" using Cons.prems(1) by (intro sum_list_mono) simp
  then show ?case using Cons by (cases "\<exists>x\<in>set xs. f x < g x") (auto intro: add_less_le_mono add_le_less_mono)
qed

lemma sum_list_filter_le: "sum_list (map (f :: 'a \<Rightarrow> nat) (filter p xs)) \<le> sum_list (map f xs)"
  by (induction xs) auto

text \<open>The tokens the batch may still generate, and one for each row to be evicted.\<close>

definition work_left :: "('f, 'i, 'r) batcher \<Rightarrow> nat" where
  "work_left b = sum_list (map (\<lambda>j. Suc (remaining (seq_of b j))) (seqs (bstate b)))"

definition unbounded_clock :: "(nat \<Rightarrow> rat) \<Rightarrow> bool" where
  "unbounded_clock c \<longleftrightarrow> (\<forall>t k. \<exists>n\<ge>k. t \<le> c n)"

lemma evolves_remaining: "evolves h h' \<Longrightarrow> remaining (h' j) \<le> remaining (h j)"
proof -
  assume "evolves h h'"
  then obtain more where "params (h' j) = params (h j)" "output_ids (h' j) = output_ids (h j) @ more"
    unfolding evolves_def by blast
  then show ?thesis by (simp add: remaining_def)
qed

locale progressing = engine_contract e ok
  for e :: "('f, 'i, 'b, 'd, 'r) engine" and ok :: "'r world \<Rightarrow> ('f, 'i) batch_state \<Rightarrow> bool" +
  assumes admit_clock: "admit e st new w = Inr (st', w') \<Longrightarrow> clock w' = clock w"
    and decode_clock: "decode_step e st w = Inr (st', w') \<Longrightarrow> clock w' = clock w"
    and decode_shrinks: "ok w st \<Longrightarrow> decode_step e st w = Inr (st', w') \<Longrightarrow> j \<in> set (seqs st) \<Longrightarrow>
      \<not> finished (heap w j) \<Longrightarrow> remaining (heap w' j) < remaining (heap w j)"
begin

lemma evict_round:
  assumes "batch_reach e L b" "phase b = Evicting"
  obtains b' where "sched_step e L b = b'" "phase b' = Top" "queue b' = queue b"
    "heap (bworld b') = heap (bworld b)" "clock (bworld b') = clock (bworld b)"
    "seqs (bstate b') = filter (\<lambda>j. \<not> finished (seq_of b j)) (seqs (bstate b))"
proof -
  have ok: "ok (bworld b) (bstate b)" using reach_inv [OF assms(1)] by simp
  obtain A st gone where E: "heap (bworld (leave_all [] b)) = abandon A (heap (bworld b))"
    "tick_evict e [] b = (complete_all e gone ((leave_all [] b)\<lparr>bstate := st\<rparr>))\<lparr>phase := Top\<rparr>"
    "gone = filter (\<lambda>j. finished (heap (bworld (leave_all [] b)) j)) (seqs (bstate b))"
    "seqs st = (if gone = [] then seqs (bstate b) else filter (\<lambda>j. \<not> finished (heap (bworld b) j)) (seqs (bstate b)))"
    by (rule tick_evict_eq [OF ok])
  obtain c where w: "bworld (complete_all e gone (b\<lparr>bstate := st\<rparr>)) = (bworld b)\<lparr>clock_reads := c\<rparr>"
    using complete_all_world [of e gone "b\<lparr>bstate := st\<rparr>"] by auto
  show thesis
    by (rule that [of "tick_evict e [] b"])
      (use E assms(2) w in \<open>auto simp: sched_step_def frame_simps filter_empty_conv intro!: filter_True [symmetric]\<close>)
qed

lemma decode_round:
  assumes reach: "batch_reach e L b" and ph: "phase b = Decoding" and ne: "seqs (bstate b) \<noteq> []"
  obtains n b' where "sched_run e L n b = b'" "phase b' = Top" "queue b' = queue b" "work_left b' < work_left b"
    "clock (bworld b') = clock (bworld b)"
proof (cases "decode_step e (bstate b) (bworld b)")
  case (Inl ex)
  have "0 < work_left b" using ne by (cases "seqs (bstate b)") (simp_all add: work_left_def)
  then show thesis
    using that [of 1 "fail_all ex b"] Inl ph
    by (simp add: sched_step_def tick_decode_def frame_simps work_left_def)
next
  case (Inr r)
  obtain st w where dec: "decode_step e (bstate b) (bworld b) = Inr (st, w)" using Inr by (cases r) simp
  have ok: "ok (bworld b) (bstate b)" using reach_inv [OF reach] by simp
  note D = ok_decode [OF ok dec]
  define b1 where "b1 = sched_step e L b"
  have b1: "phase b1 = Evicting" "queue b1 = queue b" "bstate b1 = st" "bworld b1 = w"
    using ph dec by (simp_all add: b1_def sched_step_def tick_decode_def frame_simps)
  obtain b' where E: "sched_step e L b1 = b'" "phase b' = Top" "queue b' = queue b1"
    "heap (bworld b') = heap (bworld b1)" "clock (bworld b') = clock (bworld b1)"
    "seqs (bstate b') = filter (\<lambda>j. \<not> finished (seq_of b1 j)) (seqs (bstate b1))"
    by (rule evict_round [OF reach_sched_step [OF reach] b1(1) [unfolded b1_def]]) (simp add: b1_def)
  have "work_left b' < work_left b"
  proof (cases "\<forall>j\<in>set (seqs (bstate b)). finished (seq_of b j)")
    case True
    then have "\<forall>j\<in>set (seqs (bstate b)). finished (heap w j)" using D by (metis evolves_def)
    then have "seqs (bstate b') = []" using E(6) b1 D by (simp add: filter_empty_conv)
    then show ?thesis using ne by (cases "seqs (bstate b)") (simp_all add: work_left_def)
  next
    case False
    have "work_left b' \<le> sum_list (map (\<lambda>j. Suc (remaining (heap w j))) (seqs (bstate b)))"
      using E(4,6) b1 D by (simp add: work_left_def sum_list_filter_le)
    also have "\<dots> < work_left b"
      unfolding work_left_def
    proof (rule sum_list_less)
      show "\<forall>j\<in>set (seqs (bstate b)). Suc (remaining (heap w j)) \<le> Suc (remaining (seq_of b j))"
        using D evolves_remaining by auto
      obtain j where "j \<in> set (seqs (bstate b))" "\<not> finished (seq_of b j)" using False by blast
      then show "\<exists>j\<in>set (seqs (bstate b)). Suc (remaining (heap w j)) < Suc (remaining (seq_of b j))"
        using decode_shrinks [OF ok dec] by auto
    qed
    finally show ?thesis .
  qed
  then show thesis
    using that [of 2 b'] E b1 decode_clock [OF dec] by (simp add: numeral_2_eq_2 b1_def)
qed

lemma admit_round:
  assumes reach: "batch_reach e L b" and ph: "phase b = Admitting new"
  obtains n b' where "sched_run e L n b = b'" "phase b' = Top" "queue b' = queue b"
    "clock (bworld b') = clock (bworld b)"
proof (cases "admit e (bstate b) new (bworld b)")
  case (Inl ex)
  then show thesis
    using that [of 1 "fail_all ex b"] ph by (simp add: sched_step_def tick_admit_def frame_simps)
next
  case (Inr r)
  obtain st w where adm: "admit e (bstate b) new (bworld b) = Inr (st, w)" using Inr by (cases r) simp
  define b1 where "b1 = sched_step e L b"
  have b1: "phase b1 = Evicting" "queue b1 = queue b" "bworld b1 = w"
    using ph adm by (simp_all add: b1_def sched_step_def tick_admit_def frame_simps)
  obtain b' where "sched_step e L b1 = b'" "phase b' = Top" "queue b' = queue b1"
    "clock (bworld b') = clock (bworld b1)"
    by (rule evict_round [OF reach_sched_step [OF reach] b1(1) [unfolded b1_def]]) (simp add: b1_def)
  then show thesis
    using that [of 2 b'] b1 admit_clock [OF adm] by (simp add: numeral_2_eq_2 b1_def)
qed

end

text \<open>Taking newcomers shortens the queue.\<close>

lemma tick_take_busy:
  assumes "1 \<le> lim_batch L" "queue b \<noteq> []" "seqs (bstate b) = []"
  shows "\<exists>new. phase (tick_take L b) = Admitting new" and "length (queue (tick_take L b)) < length (queue b)"
  using assms by (auto simp: tick_take_def take_admissions_def Let_def frame_simps)

lemma tick_take_queue: "phase (tick_take L b) = Admitting new \<Longrightarrow>
    length (queue (tick_take L b)) < length (queue b) \<or> phase b = Admitting new"
  by (auto simp: tick_take_def take_admissions_def Let_def frame_simps split: if_splits)

lemma tick_take_clock [simp]: "clock (bworld (tick_take L b)) = clock (bworld b)"
  using tick_take_world [of L b] by auto

text \<open>The admission window closes.\<close>

lemma gather_ends:
  assumes "phase b = Gathering d" "unbounded_clock (clock (bworld b))"
  shows "\<exists>n c. sched_run e L n b = tick_take L (b\<lparr>bworld := (bworld b)\<lparr>clock_reads := c\<rparr>\<rparr>)"
proof -
  obtain N where "clock_reads (bworld b) \<le> N" "d \<le> clock (bworld b) N"
    using assms(2) unfolding unbounded_clock_def by blast
  then show ?thesis
    using assms(1)
  proof (induction "N - clock_reads (bworld b)" arbitrary: b rule: less_induct)
    case less
    let ?b = "b\<lparr>bworld := (bworld b)\<lparr>clock_reads := Suc (clock_reads (bworld b))\<rparr>\<rparr>"
    have id: "b\<lparr>bworld := (bworld b)\<lparr>clock_reads := clock_reads (bworld b)\<rparr>\<rparr> = b" by simp
    show ?case
    proof (cases "alive b \<and> int (length (queue b)) < lim_batch L \<and> clock (bworld b) (clock_reads (bworld b)) < d")
      case True
      then have step: "sched_step e L b = ?b"
        using less.prems(3) by (simp add: sched_step_def tick_gather_def monotonic_def)
      have "clock_reads (bworld b) \<noteq> N" using True less.prems(2) by auto
      then have "\<exists>n c. sched_run e L n ?b = tick_take L (?b\<lparr>bworld := (bworld ?b)\<lparr>clock_reads := c\<rparr>\<rparr>)"
        using less.prems by (intro less.hyps) simp_all
      then obtain n c where "sched_run e L n ?b = tick_take L (?b\<lparr>bworld := (bworld ?b)\<lparr>clock_reads := c\<rparr>\<rparr>)"
        by blast
      then have "sched_run e L (Suc n) b = tick_take L (b\<lparr>bworld := (bworld b)\<lparr>clock_reads := c\<rparr>\<rparr>)"
        using step by simp
      then show ?thesis by blast
    next
      case False
      then have "sched_step e L b = tick_take L b \<or> sched_step e L b = tick_take L ?b"
        using less.prems(3) by (auto simp: sched_step_def tick_gather_def monotonic_def)
      then have "sched_run e L 1 b = tick_take L (b\<lparr>bworld := (bworld b)\<lparr>clock_reads := clock_reads (bworld b)\<rparr>\<rparr>)
          \<or> sched_run e L 1 b = tick_take L ?b" by simp
      then show ?thesis by blast
    qed
  qed
qed

context progressing begin

lemma sched_step_clock:
  assumes "batch_reach e L b"
  shows "clock (bworld (sched_step e L b)) = clock (bworld b)"
proof (cases "phase b")
  case (Gathering d)
  then show ?thesis using tick_gather_world [of L d b] by (auto simp: sched_step_def)
next
  case Top
  then show ?thesis using tick_top_world [of L b] by (auto simp: sched_step_def)
next
  case (Admitting new)
  then show ?thesis
    using admit_clock by (auto simp: sched_step_def tick_admit_def frame_simps split: sum.splits)
next
  case Decoding
  then show ?thesis
    using decode_clock by (auto simp: sched_step_def tick_decode_def frame_simps split: sum.splits)
next
  case Evicting
  obtain b' where "sched_step e L b = b'" "clock (bworld b') = clock (bworld b)"
    by (rule evict_round [OF assms Evicting])
  then show ?thesis by simp
qed (simp_all add: sched_step_def)

lemma sched_run_clock:
  "batch_reach e L b \<Longrightarrow> clock (bworld (sched_run e L n b)) = clock (bworld b)"
  by (induction n arbitrary: b) (simp_all add: reach_sched_step sched_step_clock)

lemma to_top:
  assumes reach: "batch_reach e L b" and al: "alive b" and lim: "1 \<le> lim_batch L"
    and clk: "unbounded_clock (clock (bworld b))"
  shows "\<exists>n. phase (sched_run e L n b) = Top \<or>
    phase (sched_run e L n b) = Sleeping \<and> queue (sched_run e L n b) = [] \<and> seqs (bstate (sched_run e L n b)) = []"
proof -
  have idle: "idle_inv b" by (rule reach_idle [OF reach])
  have admitting: "\<exists>n. phase (sched_run e L n c) = Top" if "batch_reach e L c" "phase c = Admitting new" for c new
    by (rule admit_round [OF that]) metis
  have decoding: "\<exists>n. phase (sched_run e L n c) = Top" if "batch_reach e L c" "phase c = Decoding" for c
  proof -
    have "seqs (bstate c) \<noteq> []" using reach_idle [OF that(1)] that(2) by (simp add: idle_inv_def)
    then show ?thesis by (rule decode_round [OF that]) metis
  qed
  have taken: "\<exists>m. phase (sched_run e L m c) = Top"
    if "batch_reach e L c" "phase c = Top \<or> (\<exists>new. phase c = Admitting new) \<or> phase c = Decoding" for c
  proof -
    have "phase c = Top \<Longrightarrow> phase (sched_run e L 0 c) = Top" by simp
    then show ?thesis using that admitting [OF that(1)] decoding [OF that(1)] by blast
  qed
  show ?thesis
  proof (cases "phase b")
    case (Gathering d)
    then obtain n c where n: "sched_run e L n b = tick_take L (b\<lparr>bworld := (bworld b)\<lparr>clock_reads := c\<rparr>\<rparr>)"
      using gather_ends clk by blast
    have "\<exists>m. phase (sched_run e L m (sched_run e L n b)) = Top"
      using tick_take_phase [of L "b\<lparr>bworld := (bworld b)\<lparr>clock_reads := c\<rparr>\<rparr>"]
      by (intro taken reach_sched_run [OF reach]) (auto simp: n)
    then show ?thesis by (metis sched_run_add)
  next
    case Sleeping
    show ?thesis
    proof (cases "queue b = []")
      case True
      then show ?thesis using idle Sleeping by (intro exI [of _ 0]) (simp add: idle_inv_def)
    next
      case False
      then have "phase (sched_run e L 1 b) = Top"
        using idle Sleeping by (simp add: idle_inv_def sched_step_def)
      then show ?thesis by blast
    qed
  next
    case Evicting
    then have "phase (sched_run e L 1 b) = Top" by (simp add: sched_step_def)
    then show ?thesis by blast
  next
    case NoTask
    then show ?thesis using idle al by (simp add: idle_inv_def)
  next
    case (Admitting new)
    then show ?thesis using admitting [OF reach] by blast
  next
    case Decoding
    then show ?thesis using decoding [OF reach] by blast
  next
    case Top
    then have "phase (sched_run e L 0 b) = Top" by simp
    then show ?thesis by blast
  qed
qed

text \<open>A round from the top, when there is work.\<close>

lemma busy_round:
  assumes reach: "batch_reach e L b" and ph: "phase b = Top" and lim: "1 \<le> lim_batch L"
    and clk: "unbounded_clock (clock (bworld b))" and busy: "queue b \<noteq> [] \<or> seqs (bstate b) \<noteq> []"
  obtains n b' where "sched_run e L n b = b'" "phase b' = Top"
    "length (queue b') < length (queue b) \<or> length (queue b') = length (queue b) \<and> work_left b' < work_left b"
proof -
  note round = that
  have shrunk: thesis if "sched_run e L n b = c" "phase c = Admitting new" "length (queue c) < length (queue b)" for n c new
  proof -
    note c = that
    have r: "batch_reach e L c" using reach_sched_run [OF reach, of n] c(1) by simp
    obtain m b' where "sched_run e L m c = b'" "phase b' = Top" "queue b' = queue c"
      by (rule admit_round [OF r c(2)])
    then show thesis
      using c by (intro round [of "n + m" b']) (simp_all add: sched_run_add)
  qed
  show thesis
  proof (cases "seqs (bstate b) = []")
    case True
    then have q: "queue b \<noteq> []" using busy by simp
    show thesis
    proof (cases "int (length (queue b)) < lim_batch L \<and> 0 < lim_window L")
      case True
      define b1 where "b1 = sched_step e L b"
      obtain d c where b1: "b1 = b\<lparr>bworld := (bworld b)\<lparr>clock_reads := c\<rparr>, phase := Gathering d\<rparr>"
        using True \<open>seqs (bstate b) = []\<close> q ph
        by (auto simp: b1_def sched_step_def tick_top_def monotonic_def)
      have "phase b1 = Gathering d" "unbounded_clock (clock (bworld b1))" using b1 clk by simp_all
      from gather_ends [OF this, of e L]
      obtain n c' where n: "sched_run e L n b1 = tick_take L (b1\<lparr>bworld := (bworld b1)\<lparr>clock_reads := c'\<rparr>\<rparr>)"
        by blast
      have "\<exists>new. phase (sched_run e L n b1) = Admitting new" "length (queue (sched_run e L n b1)) < length (queue b)"
        unfolding n using tick_take_busy [OF lim, of "b1\<lparr>bworld := (bworld b1)\<lparr>clock_reads := c'\<rparr>\<rparr>"]
          q \<open>seqs (bstate b) = []\<close> by (simp_all add: b1)
      then show thesis using shrunk [of "Suc n" "sched_run e L n b1"] by (auto simp: b1_def)
    next
      case False
      then have "sched_step e L b = tick_take L b"
        using \<open>seqs (bstate b) = []\<close> q ph by (auto simp: sched_step_def tick_top_def)
      then show thesis
        using tick_take_busy [OF lim q \<open>seqs (bstate b) = []\<close>] shrunk [of 1 "tick_take L b"] by auto
    qed
  next
    case False
    then have step: "sched_step e L b = tick_take L b" using ph by (simp add: sched_step_def tick_top_def)
    obtain new b1 where t: "take_admissions L b = (new, b1)" by fastforce
    note T = take_admissions_spec [OF t]
    show thesis
    proof (cases "new = []")
      case True
      then have b1: "b1 = b" "tick_take L b = b\<lparr>phase := Decoding\<rparr>"
        using T(1) t False by (simp_all add: tick_take_def)
      have r: "batch_reach e L (b\<lparr>phase := Decoding\<rparr>)" using reach_sched_step [OF reach] step b1 by simp
      have "phase (b\<lparr>phase := Decoding\<rparr>) = Decoding" "seqs (bstate (b\<lparr>phase := Decoding\<rparr>)) \<noteq> []"
        using False by simp_all
      then obtain n b' where "sched_run e L n (b\<lparr>phase := Decoding\<rparr>) = b'" "phase b' = Top"
        "queue b' = queue (b\<lparr>phase := Decoding\<rparr>)"
        "work_left b' < work_left (b\<lparr>phase := Decoding\<rparr>)"
        by (rule decode_round [OF r])
      then show thesis using step b1 by (intro round [of "Suc n" b']) (simp_all add: work_left_def)
    next
      case False
      then have "phase (tick_take L b) = Admitting new" using t by (simp add: tick_take_def)
      moreover from this have "length (queue (tick_take L b)) < length (queue b)"
        using tick_take_queue ph by fastforce
      ultimately show thesis using shrunk [of 1 "tick_take L b"] step by simp
    qed
  qed
qed

lemma drains_from_top:
  assumes "batch_reach e L b" "phase b = Top" "1 \<le> lim_batch L" "unbounded_clock (clock (bworld b))"
  shows "\<exists>n. queue (sched_run e L n b) = [] \<and> seqs (bstate (sched_run e L n b)) = [] \<and> phase (sched_run e L n b) = Top"
  using assms
proof (induction "(length (queue b), work_left b)" arbitrary: b
    rule: wf_induct_rule [OF wf_lex_prod [OF wf_less_than wf_less_than]])
  case less: 1
  show ?case
  proof (cases "queue b \<noteq> [] \<or> seqs (bstate b) \<noteq> []")
    case False
    then show ?thesis using less.prems(2) by (intro exI [of _ 0]) simp
  next
    case True
    obtain n b' where R: "sched_run e L n b = b'" "phase b' = Top"
      "length (queue b') < length (queue b) \<or> length (queue b') = length (queue b) \<and> work_left b' < work_left b"
      by (rule busy_round [OF less.prems True])
    have "batch_reach e L b'" "clock (bworld b') = clock (bworld b)"
      using reach_sched_run [OF less.prems(1)] sched_run_clock [OF less.prems(1)] R(1) by metis+
    then obtain m where "queue (sched_run e L m b') = [] \<and> seqs (bstate (sched_run e L m b')) = [] \<and>
        phase (sched_run e L m b') = Top"
      using less.hyps [of b'] R(2,3) less.prems(3,4) by auto
    then have "queue (sched_run e L (n + m) b) = [] \<and> seqs (bstate (sched_run e L (n + m) b)) = [] \<and>
        phase (sched_run e L (n + m) b) = Top"
      using R(1) by (simp add: sched_run_add)
    then show ?thesis by blast
  qed
qed

text \<open>The loop left alone empties everything.\<close>

lemma drains:
  assumes "batch_reach e L b" "alive b" "1 \<le> lim_batch L" "unbounded_clock (clock (bworld b))"
  shows "\<exists>n. queue (sched_run e L n b) = [] \<and> running (sched_run e L n b) = []"
proof -
  have empty: "running c = []"
    if "batch_reach e L c" "seqs (bstate c) = []" "phase c = Top \<or> phase c = Sleeping" for c
    using reach_inv [OF that(1)] that(2,3) by (auto simp: sched_inv_def table_inv_def)
  obtain n where "phase (sched_run e L n b) = Top \<or>
    phase (sched_run e L n b) = Sleeping \<and> queue (sched_run e L n b) = [] \<and> seqs (bstate (sched_run e L n b)) = []"
    using to_top [OF assms] by blast
  then show ?thesis
  proof
    assume top: "phase (sched_run e L n b) = Top"
    note r = reach_sched_run [OF assms(1), of n]
    obtain m where "queue (sched_run e L m (sched_run e L n b)) = []"
      "seqs (bstate (sched_run e L m (sched_run e L n b))) = []" "phase (sched_run e L m (sched_run e L n b)) = Top"
      using drains_from_top [OF r top assms(3)] assms(4) sched_run_clock [OF assms(1)] by auto
    then show ?thesis using empty reach_sched_run [OF r, of m] by (metis sched_run_add)
  next
    assume "phase (sched_run e L n b) = Sleeping \<and> queue (sched_run e L n b) = [] \<and>
      seqs (bstate (sched_run e L n b)) = []"
    then show ?thesis using empty reach_sched_run [OF assms(1), of n] by blast
  qed
qed

end

section \<open>The engine makes progress\<close>

lemma emit_keeps: "emit e st logits w = Inr (st', w') \<Longrightarrow> clock w' = clock w \<and> next_seq_id w' = next_seq_id w"
  by (auto simp: emit_def try_bind_def monotonic_def split: sum.splits prod.splits)

lemma prefill_keeps: "prefill e ss w = Inr (st', w') \<Longrightarrow> clock w' = clock w \<and> next_seq_id w' = next_seq_id w"
  by (auto simp: prefill_def try_bind_def split: if_splits sum.splits prod.splits dest: emit_keeps)

lemma admit_keeps: "admit e st new w = Inr (st', w') \<Longrightarrow> clock w' = clock w \<and> next_seq_id w' = next_seq_id w"
  by (auto simp: admit_def try_bind_def Let_def split: if_splits sum.splits prod.splits option.splits
      dest: prefill_keeps)

lemma decode_keeps: "decode_step e st w = Inr (st', w') \<Longrightarrow> clock w' = clock w \<and> next_seq_id w' = next_seq_id w"
  by (auto simp: decode_step_def try_bind_def Let_def split: if_splits sum.splits prod.splits option.splits
      dest: emit_keeps)

sublocale windowed \<subseteq> progress: progressing e "engine_reach e"
proof (unfold_locales, goal_cases)
  case (1 st new w st' w')
  then show ?case by (rule conjunct1 [OF admit_keeps])
next
  case (2 st w st' w')
  then show ?case by (rule conjunct1 [OF decode_keeps])
next
  case (3 w st st' w' j)
  note inv = engine_reach_inv [OF 3(1) window]
  have j: "j \<in> issued w" using engine_invD(2) [OF inv] 3(3) by blast
  show ?case
    by (rule remaining_advanced [OF engine_inv_decode(3) [OF inv 3(2)] 3(3,4)
          engine_invD(4) [OF inv j] engine_invD(3) [OF inv j]])
qed

context windowed begin

lemma reach_drains:
  "batch_reach e L b \<Longrightarrow> alive b \<Longrightarrow> 1 \<le> lim_batch L \<Longrightarrow> unbounded_clock (clock (bworld b)) \<Longrightarrow>
    \<exists>n. queue (sched_run e L n b) = [] \<and> running (sched_run e L n b) = []"
  by (rule progress.drains)

end

text \<open>The loop never speaks for a caller, nor reads a queue for one.\<close>

definition party :: "request \<Rightarrow> caller_state \<times> nat option" where
  "party r = (caller r, map_option taken (stream r))"

lemma party_simps [simp]:
  "party (put_nowait x r) = party r" "party (settle f r) = party r" "party (deliver res r) = party r"
  "party (publish_req e s r) = party r" "party (r\<lparr>started_at := t\<rparr>) = party r"
  by (simp_all add: party_def delivery_frames option.map_comp o_def)

lemma fail_requests_party [simp]: "party (reqs (fail_requests ex is b) j) = party (reqs b j)"
  by (induction "is" arbitrary: b) simp_all

lemma complete_all_party [simp]: "party (reqs (complete_all e is b) j) = party (reqs b j)"
  by (induction "is" arbitrary: b) (simp_all add: complete_def Let_def monotonic_def)

lemma publish_rows_party [simp]: "party (reqs (publish_rows e is b) j) = party (reqs b j)"
  by (induction "is" arbitrary: b) (simp_all add: publish_row_def)

lemma begin_running_party [simp]: "party (reqs (begin_running is b) j) = party (reqs b j)"
  by (induction "is" arbitrary: b) (simp_all add: Let_def monotonic_def)

lemma tick_take_party [simp]: "party (reqs (tick_take L b) j) = party (reqs b j)"
  by (simp add: tick_take_def take_admissions_def Let_def)

lemma fail_all_party [simp]: "party (reqs (fail_all ex b) j) = party (reqs b j)"
  by (simp add: fail_all_def)

lemma after_step_party [simp]: "party (reqs (after_step e new st w b) j) = party (reqs b j)"
  by (simp add: after_step_def Let_def publish_deltas_def observe_def)

lemma sched_step_party: "party (reqs (sched_step e L b) j) = party (reqs b j)"
  by (auto simp: sched_step_def tick_top_def tick_gather_def tick_admit_def tick_decode_def tick_evict_def
      monotonic_def split: phase.splits sum.splits)

lemma sched_run_party: "party (reqs (sched_run e L n b) j) = party (reqs b j)"
  by (induction n arbitrary: b) (simp_all add: sched_step_party)

lemma sched_run_issued: "issued (bworld (sched_run e L n b)) = issued (bworld b)"
proof (induction n arbitrary: b)
  case (Suc n)
  have "next_seq_id (bworld (sched_step e L b)) = next_seq_id (bworld b)"
    by (auto simp: sched_step_def tick_admit_def tick_decode_def tick_evict_def Let_def frame_simps
        dest!: admit_keeps decode_keeps split: phase.splits sum.splits)
  then show ?case using Suc by (simp add: issued_def)
qed simp

end
