(* ===== verification/BatcherDemo.thy ===== *)
theory BatcherDemo
  imports BatcherLive Demo
begin

text \<open>
  The scheduler over the engine of \<open>Demo\<close>: one streaming request is submitted, prefilled, decoded to
  its end and delivered. The witnesses of the scheduler's properties run on it.
\<close>

definition demo_limits :: limits where
  "demo_limits = init_limits demo_settings None (Some 0) None"

lemma demo_limits_simps [simp]: "lim_batch demo_limits = 2" "lim_window demo_limits = 0" "lim_queue demo_limits = 2"
  by (simp_all add: demo_limits_def init_limits_def int_or_def demo_settings_def)

lemma demo_window: "2 \<le> context_limit demo_engine"
  by simp

lemma demo_extends: "decode_extends demo_engine"
  by (auto simp: decode_extends_def decode_def demo_decode_def)

interpretation demo_sched: incremental_serving demo_engine ref_max ref_div ref_sorted ref_order ref_smax
    ref_csum ref_sub "[(1, 1)]" 3 demo_lm
  by unfold_locales (simp_all add: demo_extends)

definition demo_idle :: "(pyfloat ften, int ften, nat) batcher" where
  "demo_idle = start (new_batcher (\<lambda>_. undefined) demo_world)"

definition demo_queued :: "(pyfloat ften, int ften, nat) batcher" where
  "demo_queued = snd (enqueue demo_engine demo_limits ''a'' None ''r'' ''u'' True demo_idle)"

lemma demo_idle_reach: "batch_reach demo_engine demo_limits demo_idle"
  unfolding demo_idle_def by (intro batch_reach.start reach_fresh) (simp add: demo_world_def)

lemma demo_idle_simps [simp]:
  "queue demo_idle = []" "running demo_idle = []" "alive demo_idle" "phase demo_idle = Top"
  "bstate demo_idle = empty_state" "bworld demo_idle = demo_world" "rejected demo_idle = 0"
  by (simp_all add: demo_idle_def start_def new_batcher_def)

lemma demo_enqueue: "enqueue demo_engine demo_limits ''a'' None ''r'' ''u'' True demo_idle = (Inr 1, demo_queued)"
  by (simp add: demo_queued_def enqueue_def make_request_def make_sequence_eq monotonic_def add_def demo_world_def)

lemma demo_queued_reach: "batch_reach demo_engine demo_limits demo_queued"
  by (rule batch_reach.enqueue [OF demo_idle_reach demo_enqueue])

lemma demo_queued_simps [unfolded One_nat_def, simp]:
  "queue demo_queued = [1]" "running demo_queued = []" "alive demo_queued" "phase demo_queued = Top"
  "bstate demo_queued = empty_state" "issued (bworld demo_queued) = {1}"
  "clock (bworld demo_queued) = demo_time" "caller (reqs demo_queued 1) = Waiting"
  "stream (reqs demo_queued 1) = Some \<lparr>items = [], taken = 0\<rparr>" "future (reqs demo_queued 1) = Pending"
  "prompt_ids (seq_of demo_queued 1) = [97]" "output_ids (seq_of demo_queued 1) = []"
  "\<not> finished (seq_of demo_queued 1)" "greedy (seq_of demo_queued 1)"
  "max_tokens (params (seq_of demo_queued 1)) = 4" "completed demo_queued = 0"
  by (auto simp: demo_queued_def demo_idle_def new_batcher_def start_def enqueue_def make_request_def make_sequence_eq monotonic_def add_def
      demo_world_def issued_def demo_encode_a finished_def greedy_def clamp_def default_params_def
      demo_settings_def py_min_def fle_def)

text \<open>The same request, not streamed.\<close>

definition demo_blocking :: "(pyfloat ften, int ften, nat) batcher" where
  "demo_blocking = snd (enqueue demo_engine demo_limits ''a'' None ''r'' ''u'' False demo_idle)"

lemma demo_blocking_reach: "batch_reach demo_engine demo_limits demo_blocking"
  unfolding demo_blocking_def by (rule batch_reach.enqueue [OF demo_idle_reach prod.collapse [symmetric]])

lemma demo_blocking_simps [unfolded One_nat_def, simp]:
  "queue demo_blocking = [1]" "running demo_blocking = []" "issued (bworld demo_blocking) = {1}"
  "caller (reqs demo_blocking 1) = Waiting" "stream (reqs demo_blocking 1) = None"
  "future (reqs demo_blocking 1) = Pending"
  by (auto simp: demo_blocking_def enqueue_def make_request_def make_sequence_eq monotonic_def add_def
      demo_world_def issued_def)

lemma demo_clock: "unbounded_clock demo_time"
  unfolding unbounded_clock_def
proof (intro allI)
  fix t :: rat and k :: nat
  obtain n :: nat where "t \<le> of_nat n" using real_arch_simple by blast
  then have "t \<le> demo_time (max n k)"
    unfolding demo_time_def by (metis max.cobounded1 le_SucI of_nat_le_iff order_trans)
  then show "\<exists>n\<ge>k. t \<le> demo_time n" by (intro exI [of _ "max n k"]) simp
qed

text \<open>The run: \<open>b4\<close> is after the prefill, \<open>b8\<close> after the delivery.\<close>

lemma demo_batch:
  obtains b4 b8 res where
    "batch_reach demo_engine demo_limits b4" "phase b4 = Evicting" "running b4 = [1]" "queue b4 = []"
    "seqs (bstate b4) = [1]" "issued (bworld b4) = {1}" "\<not> finished (seq_of b4 1)"
    "output_ids (seq_of b4 1) = [1]" "caller (reqs b4 1) = Waiting" "completed b4 = 0"
    "stream (reqs b4 1) \<noteq> None" "greedy (seq_of b4 1)"
    "batch_reach demo_engine demo_limits b8" "phase b8 = Top" "running b8 = []" "queue b8 = []"
    "issued (bworld b8) = {1}" "future (reqs b8 1) = Resolved res" "caller (reqs b8 1) = Waiting"
    "prompt_ids (seq_of b8 1) = [97]" "output_ids (seq_of b8 1) = [1, 2]" "greedy (seq_of b8 1)"
    "finish_reason (seq_of b8 1) = Some ''stop''" "max_tokens (params (seq_of b8 1)) = 4"
    "map_option taken (stream (reqs b8 1)) = Some 0" "clock (bworld b8) = demo_time"
proof -
  define b3 where "b3 = sched_step demo_engine demo_limits demo_queued"
  have r3: "batch_reach demo_engine demo_limits b3"
    unfolding b3_def by (rule reach_sched_step [OF demo_queued_reach])
  define c where "c = Suc (clock_reads (bworld demo_queued))"
  have b3: "phase b3 = Admitting [1]" "running b3 = [1]" "queue b3 = []" "bstate b3 = empty_state"
    "bworld b3 = (bworld demo_queued)\<lparr>clock_reads := c\<rparr>" "completed b3 = 0"
    by (simp_all add: b3_def c_def sched_step_def tick_top_def tick_take_def take_admissions_def monotonic_def frame_simps)
  note R = demo_sched.contract.reach_inv
  have inv3: "engine_inv demo_engine [(1, 1)] ref_max demo_lm (bworld b3) empty_state"
    by (rule demo.engine_reach_inv) (use R [OF r3] b3(4) in simp_all)
  have s3: "heap (bworld b3) = heap (bworld demo_queued)" "issued (bworld b3) = {1}"
    using b3(5) by simp_all
  obtain st w where "prefill demo_engine [1] (bworld b3) = Inr (st, w)"
    using demo.prefill_total [of "[1]" "bworld b3"] s3 by (force simp: seq_ok_def)
  then have adm: "admit demo_engine (bstate b3) [1] (bworld b3) = Inr (st, w)"
    by (simp add: admit_def b3(4))
  have adv: "advanced demo_engine ref_max demo_lm {1} (heap (bworld b3)) (heap w)" "next_seq_id w = next_seq_id (bworld b3)"
    "seqs st = [1]" using demo.engine_inv_admit [OF inv3, of "[1]" st w] adm b3(4) s3 by simp_all
  obtain now where h4: "heap w 1 = emit_row demo_engine now 1 (seq_of demo_queued 1)"
    using adv(1) s3 by (auto simp: advanced_def demo_next)
  define b4 where "b4 = sched_step demo_engine demo_limits b3"
  have r4: "batch_reach demo_engine demo_limits b4" unfolding b4_def by (rule reach_sched_step [OF r3])
  have b4: "phase b4 = Evicting" "running b4 = [1]" "queue b4 = []" "seqs (bstate b4) = [1]" "bworld b4 = w"
    "completed b4 = 0"
    using adm adv b3 by (simp_all add: b4_def sched_step_def tick_admit_def frame_simps)
  have p4: "party (reqs b4 1) = (Waiting, Some 0)"
    unfolding b4_def b3_def sched_step_party by (simp add: party_def)
  have i4: "issued (bworld b4) = {1}" using s3 adv(2) b4(5) by (simp add: issued_def)
  have s4: "prompt_ids (heap w 1) = [97]" "output_ids (heap w 1) = [1]" "\<not> finished (heap w 1)"
    "greedy (heap w 1)" "max_tokens (params (heap w 1)) = 4"
  proof -
    have nf: "\<not> finished (seq_of demo_queued (Suc 0))" by simp
    show "prompt_ids (heap w 1) = [97]" "output_ids (heap w 1) = [1]" "\<not> finished (heap w 1)"
      "greedy (heap w 1)" "max_tokens (params (heap w 1)) = 4"
      using h4 emit_row_output [OF nf, of demo_engine now 1] emit_row_reason [OF nf, of demo_engine now 1]
      by (simp_all add: finished_def seq_verdict_def verdict_def)
  qed
  obtain b5 where b5: "sched_step demo_engine demo_limits b4 = b5" "phase b5 = Top" "queue b5 = []"
    "heap (bworld b5) = heap w" "seqs (bstate b5) = [1]"
    by (rule demo_sched.progress.evict_round [OF r4 b4(1)]) (use b4 s4 in simp)
  have r5: "batch_reach demo_engine demo_limits b5" using reach_sched_step [OF r4] b5(1) by simp
  define b6 where "b6 = sched_step demo_engine demo_limits b5"
  have r6: "batch_reach demo_engine demo_limits b6" unfolding b6_def by (rule reach_sched_step [OF r5])
  have b6: "b6 = b5\<lparr>phase := Decoding\<rparr>"
    using b5 by (simp add: b6_def sched_step_def tick_top_def tick_take_def take_admissions_def Let_def)
  have inv6: "engine_inv demo_engine [(1, 1)] ref_max demo_lm (bworld b6) (bstate b6)"
    by (rule demo.engine_reach_inv) (use R [OF r6] in simp_all)
  obtain st7 w7 where dec: "decode_step demo_engine (bstate b6) (bworld b6) = Inr (st7, w7)"
    using demo.decode_total [OF inv6] b5 b6 s4 by force
  note D = demo.engine_inv_decode [OF inv6 dec]
  obtain now' where h7: "heap w7 1 = emit_row demo_engine now' 2 (heap w 1)"
    using D(3) b5 b6 s4 by (auto simp: advanced_def demo_next)
  have s7: "prompt_ids (heap w7 1) = [97]" "output_ids (heap w7 1) = [1, 2]"
    "finish_reason (heap w7 1) = Some ''stop''" "greedy (heap w7 1)" "max_tokens (params (heap w7 1)) = 4"
    using s4 h7 by (auto simp: emit_row_output emit_row_reason seq_verdict_def verdict_def)
  define b7 where "b7 = sched_step demo_engine demo_limits b6"
  have r7: "batch_reach demo_engine demo_limits b7" unfolding b7_def by (rule reach_sched_step [OF r6])
  have b7: "phase b7 = Evicting" "queue b7 = []" "bstate b7 = st7" "bworld b7 = w7" "running b7 = running b5"
    using dec b5 b6 by (simp_all add: b7_def sched_step_def tick_decode_def frame_simps)
  have st7: "seqs st7 = [1]" using D(2) b5 b6 by simp
  have "sched_inv demo_limits b5" using R [OF r5] by simp
  then have "set (running b5) = {1}" "distinct (running b5)"
    using b5 s4 by (auto simp: sched_inv_def table_inv_def)
  then have run: "running b5 = [1]" by (cases "running b5") (auto simp: subset_singleton_iff)
  define b8 where "b8 = sched_step demo_engine demo_limits b7"
  have r8: "batch_reach demo_engine demo_limits b8" unfolding b8_def by (rule reach_sched_step [OF r7])
  have "party (reqs b7 1) = party (reqs b4 1)"
    using sched_run_party [of demo_engine demo_limits 3 b4 1] b5(1) by (simp add: b6_def b7_def numeral_3_eq_3)
  then have c7: "caller (reqs b7 1) = Waiting" "map_option taken (stream (reqs b7 1)) = Some 0" using p4 by (auto simp: party_def)
  have i7: "issued w7 = {1}"
    using i4 sched_run_issued [of demo_engine demo_limits 3 b4] b5(1) b7(4)
    by (simp add: b6_def b7_def numeral_3_eq_3)
  have p7: "future (reqs b7 1) = Pending"
    using demo_sched.reach_outcome [OF r7, of 1] i7 b7 run c7
    by (auto simp: outcome_ok_def held_def)
  obtain A st8 gone where E: "heap (bworld b7) = abandon A (heap (bworld b7))"
    "tick_evict demo_engine [] b7 = (complete_all demo_engine gone (b7\<lparr>bstate := st8\<rparr>))\<lparr>phase := Top\<rparr>"
    "gone = filter (\<lambda>j. finished (heap (bworld b7) j)) (seqs (bstate b7))"
    using demo_sched.contract.tick_evict_eq [of b7 "[]"] R [OF r7] by (metis leave_all.simps(1))
  have gone: "gone = [1]" using E(3) b7 st7 s7 by (simp add: finished_def)
  have b8: "b8 = (complete demo_engine 1 (b7\<lparr>bstate := st8\<rparr>))\<lparr>phase := Top\<rparr>"
    using E(2) gone b7(1) by (simp add: b8_def sched_step_def)
  obtain res where f8: "future (reqs b8 1) = Resolved res"
    using p7 run b7(5) by (auto simp: b8 complete_def Let_def monotonic_def deliver_frame publish_final_frame)
  have p8: "caller (reqs b8 1) = Waiting" "map_option taken (stream (reqs b8 1)) = Some 0"
    using sched_step_party [of demo_engine demo_limits b7 1] c7 unfolding b8_def [symmetric]
    by (auto simp: party_def)
  have w8: "heap (bworld b8) = heap w7" "issued (bworld b8) = {1}" "running b8 = []" "queue b8 = []" "phase b8 = Top"
    using b7 run i7 by (simp_all add: b8 frame_simps issued_def)
  have t8: "clock (bworld b8) = demo_time"
    using demo_sched.progress.sched_run_clock [OF r4, of 4] b5(1)
      demo_sched.progress.sched_run_clock [OF demo_queued_reach, of 2]
    by (simp add: b8_def b7_def b6_def b4_def b3_def eval_nat_numeral)
  show thesis
    by (rule that [OF r4 b4(1-4) i4 _ _ _ b4(6) _ _ r8 w8(5,3,4,2) f8 p8(1) _ _ _ _ _ p8(2) t8])
      (use s4 s7 w8(1) b4(5) p4 in \<open>auto simp: party_def\<close>)
qed

text \<open>The demo network never raises, whatever it is fed.\<close>

lemma demo_decode_total:
  assumes "engine_inv demo_engine [(1, 1)] ref_max demo_lm w st" "\<forall>j\<in>set (seqs st). greedy (heap w j)"
  shows "\<exists>r. decode_step demo_engine st w = Inr r"
proof (cases "seqs st = []")
  case True
  then show ?thesis by (simp add: decode_step_def)
next
  case False
  obtain m nx where st: "attn_mask st = Some m" "next_tokens st = Some nx"
    using engine_invD(1) [OF assms(1)] False by (auto elim!: batch_invE)
  have "\<exists>r. forward demo_engine ids attn pos past = Inr r" for ids attn pos past
    by (simp add: demo_engine_def ref_forward_def Let_def)
  then obtain past lg where "forward demo_engine nx (cat ften_long [m, full ften_long [length (seqs st), 1] 1] 1)
      (sub_scalar ften_long (sum_keepdim ften_long (cat ften_long [m, full ften_long [length (seqs st), 1] 1] 1)) 1)
      (to_cache ref_clib (cache st)) = Inr (past, lg)" by (metis surj_pair)
  then show ?thesis
    using False st emit_greedy [of "st\<lparr>cache := from_cache ref_clib past,
        attn_mask := Some (cat ften_long [m, full ften_long [length (seqs st), 1] 1] 1)\<rparr>" w demo_engine] assms(2)
    by (simp add: decode_step_def Let_def)
qed

section \<open>An engine whose first step raises\<close>

text \<open>A network whose logits are no numbers: sampling from them raises.\<close>

definition faulty_engine :: "(pyfloat ften, int ften, bool ften, ref_cache, nat) engine" where
  "faulty_engine = ref_engine demo_entry (\<lambda>_ _. NaN) 3 demo_encode demo_decode 2 0 8 demo_settings"

lemma faulty_network: "network faulty_engine ref_max ref_div ref_sorted ref_order ref_smax ref_csum ref_sub
    [(1, 1)] 3 (ref_lm demo_entry (\<lambda>_ _. NaN) 3)"
  unfolding faulty_engine_def by (rule network_ref) simp

definition faulty_idle :: "(pyfloat ften, int ften, nat) batcher" where
  "faulty_idle = start (new_batcher (\<lambda>_. reqs demo_queued 1) demo_world)"

definition faulty_admitting :: "(pyfloat ften, int ften, nat) batcher" where
  "faulty_admitting = sched_step faulty_engine demo_limits
     (snd (enqueue faulty_engine demo_limits ''a''
       (Some \<lparr>max_tokens = 4, temperature = Fin 1, top_k = 0, top_p = Fin 1\<rparr>) ''r'' ''u'' True faulty_idle))"

lemma faulty_reach: "batch_reach faulty_engine demo_limits faulty_admitting"
proof -
  have "batch_reach faulty_engine demo_limits faulty_idle"
    unfolding faulty_idle_def by (intro batch_reach.start reach_fresh) (simp add: demo_world_def)
  then show ?thesis
    unfolding faulty_admitting_def by (rule reach_sched_step [OF batch_reach.enqueue [OF _ prod.collapse [symmetric]]])
qed

lemma faulty_phase: "phase faulty_admitting = Admitting [1]" "running faulty_admitting = [1]"
  "future (reqs faulty_admitting 1) = Pending"
  by code_simp+

lemma faulty_admit: "\<exists>ex. admit faulty_engine (bstate faulty_admitting) [1] (bworld faulty_admitting) = Inl ex"
proof -
  have "case admit faulty_engine (bstate faulty_admitting) [1] (bworld faulty_admitting) of
      Inl ex \<Rightarrow> True | _ \<Rightarrow> False" by code_simp
  then show ?thesis by (auto split: sum.splits)
qed

end
