(* ===== verification/BatcherServe.thy ===== *)
theory BatcherServe
  imports BatcherLive
begin

text \<open>
  Serving to the end: over a network that answers every call inside its window, the loop left alone
  resolves every greedy request it holds, and raises nothing on the way.
\<close>

text \<open>Before a decode every row of the batch still runs, and all requests in flight are greedy.\<close>

definition clean :: "('f, 'i, 'r) batcher \<Rightarrow> bool" where
  "clean b \<longleftrightarrow> (phase b = Evicting \<or> (\<forall>j\<in>set (seqs (bstate b)). \<not> finished (seq_of b j))) \<and>
     (\<forall>j. held b j \<longrightarrow> greedy (seq_of b j))"

text \<open>A future is kept, or it is resolved.\<close>

definition resolving :: "('f, 'i, 'r) batcher \<Rightarrow> ('f, 'i, 'r) batcher \<Rightarrow> bool" where
  "resolving b b' \<longleftrightarrow> (\<forall>i. future (reqs b' i) = future (reqs b i) \<or> (\<exists>res. future (reqs b' i) = Resolved res))"

lemma resolving_refl [simp]: "resolving b b"
  by (simp add: resolving_def)

lemma resolving_trans: "resolving b b1 \<Longrightarrow> resolving b1 b2 \<Longrightarrow> resolving b b2"
  unfolding resolving_def by metis

lemma resolving_same: "(\<And>i. future (reqs b' i) = future (reqs b i)) \<Longrightarrow> resolving b b'"
  by (simp add: resolving_def)

lemma begin_running_future [simp]: "future (reqs (begin_running is b) j) = future (reqs b j)"
  by (induction "is" arbitrary: b) (simp_all add: Let_def monotonic_def)

lemma tick_take_future [simp]: "future (reqs (tick_take L b) j) = future (reqs b j)"
  by (simp add: tick_take_def take_admissions_def Let_def)

lemma publish_rows_future [simp]: "future (reqs (publish_rows e is b) j) = future (reqs b j)"
  by (induction "is" arbitrary: b) (simp_all add: publish_row_def publish_req_frame)

lemma after_step_future [simp]: "future (reqs (after_step e new st w b) j) = future (reqs b j)"
  by (simp add: after_step_def Let_def publish_deltas_def observe_def)

lemma resolving_complete_all: "resolving b (complete_all e is b)"
proof (induction "is" arbitrary: b)
  case Nil
  then show ?case by simp
next
  case (Cons i "is")
  have "resolving b (complete e i b)"
    by (auto simp: resolving_def complete_def Let_def monotonic_def deliver_frame)
  then show ?case using Cons by (auto intro: resolving_trans)
qed

lemma evolves_greedy: "evolves h h' \<Longrightarrow> greedy (h' j) = greedy (h j)"
  by (simp add: evolves_def greedy_def)

text \<open>The loop's own steps put no request in flight.\<close>

lemma begin_running_set: "set (running (begin_running is b)) = set (running b) \<union> set is"
  by (induction "is" arbitrary: b) (auto simp: Let_def monotonic_def frame_simps)

lemma held_take: "held (tick_take L b) j = held b j"
proof -
  obtain new b1 where t: "take_admissions L b = (new, b1)" by fastforce
  then have "set (queue b) = set new \<union> set (queue b1)" "running b1 = running b"
    by (auto simp: take_admissions_def Let_def simp flip: set_append split: if_splits)
  then show ?thesis
    using t by (auto simp: tick_take_def held_def begin_running_set frame_simps)
qed

lemma complete_held: "held (complete e i b) j \<Longrightarrow> held b j"
  by (auto simp: complete_def held_def Let_def monotonic_def frame_simps dest: notin_set_remove1 split: if_splits)

lemma complete_all_held: "held (complete_all e is b) j \<Longrightarrow> held b j"
proof (induction "is" arbitrary: b)
  case Nil
  then show ?case by simp
next
  case (Cons i "is")
  then show ?case using complete_held [of e i b j] by simp
qed

lemma held_update [simp]:
  "held (b\<lparr>bworld := w\<rparr>) = held b" "held (b\<lparr>bstate := st\<rparr>) = held b" "held (b\<lparr>phase := p\<rparr>) = held b"
  "held (b\<lparr>work := k\<rparr>) = held b"
  by (simp_all add: held_def fun_eq_iff)

locale steady = serving + windowed
begin

lemma admit_total:
  assumes inv: "engine_inv e dims amax lm w st" and new: "distinct new" "set new \<subseteq> issued w - set (seqs st)"
    "\<forall>j\<in>set new. output_ids (heap w j) = []" and g: "\<forall>j\<in>set new. greedy (heap w j)"
  shows "\<exists>r. admit e st new w = Inr r"
proof (cases "new = []")
  case True
  then show ?thesis by (simp add: admit_def)
next
  case False
  have "\<forall>j\<in>set new. seq_ok e (heap w j) \<and> greedy (heap w j)"
    using engine_invD(3) [OF inv] new(2) g by auto
  then obtain fr w' where pre: "prefill e new w = Inr (fr, w')"
    using prefill_total [OF False] by (metis surj_pair)
  have "prompt_ids (heap w j) \<noteq> [] \<and> output_ids (heap w j) = []" if "j \<in> set new" for j
    using engine_invD(3) [OF inv] new that by (auto simp: seq_ok_def)
  note P = prefill_inv [OF pre False new(1) this]
  obtain mb nb where b: "attn_mask fr = Some mb" "next_tokens fr = Some nb"
    using P(1,2) False by (auto elim: batch_invE)
  show ?thesis
  proof (cases "seqs st = []")
    case True
    then show ?thesis using False pre by (simp add: admit_def)
  next
    case ne: False
    obtain ma na where "attn_mask st = Some ma" "next_tokens st = Some na"
      using engine_invD(1) [OF inv] ne by (auto elim: batch_invE)
    then show ?thesis using False pre ne b by (simp add: admit_def Let_def)
  qed
qed

lemma clean_step:
  assumes reach: "batch_reach e L b" and cl: "clean b"
  shows "clean (sched_step e L b) \<and> resolving b (sched_step e L b)"
proof -
  note R = reach_sched [OF reach]
  have taken: "clean (tick_take L c) \<and> resolving c (tick_take L c)" if "clean c" "phase c \<noteq> Evicting" for c
    using that by (auto simp: clean_def held_take frame_simps intro: resolving_same)
  have clock: "clean (c\<lparr>bworld := (bworld c)\<lparr>clock_reads := k\<rparr>\<rparr>)" if "clean c" for c :: "('a, 'b, 'e) batcher" and k
    using that by (simp add: clean_def)
  show ?thesis
  proof (cases "phase b")
    case Top
    then show ?thesis
      using cl taken [OF cl]
      by (auto simp: sched_step_def tick_top_def monotonic_def clean_def resolving_def)
  next
    case Sleeping
    then show ?thesis using cl by (auto simp: sched_step_def clean_def resolving_def)
  next
    case (Gathering d)
    have "clean (tick_gather L d b) \<and> resolving b (tick_gather L d b)"
      using Gathering cl taken [OF cl] clock [OF cl] taken [OF clock [OF cl, of "Suc (clock_reads (bworld b))"]]
      by (auto simp: tick_gather_def monotonic_def resolving_def)
    then show ?thesis using Gathering by (simp add: sched_step_def)
  next
    case (Admitting new)
    have Q: "queue_inv (queue b) (seqs (bstate b)) new (bworld b)" using R(1) Admitting by (simp add: sched_inv_def)
    then have new: "distinct new" "set new \<subseteq> issued (bworld b) - set (seqs (bstate b))"
      "\<forall>j\<in>set new. output_ids (seq_of b j) = []" by (auto simp: queue_inv_def)
    obtain st w where adm: "admit e (bstate b) new (bworld b) = Inr (st, w)"
      using admit_total [OF R(3) new] R(1) Admitting cl by (force simp: sched_inv_def table_inv_def clean_def held_def)
    note A = contract.ok_admit [OF R(2) new adm]
    have "greedy (heap w j)" if "held b j" for j
      using A cl that evolves_greedy [of "heap (bworld b)" "heap w" j] by (simp add: clean_def)
    then have "clean (after_step e new st w b)" by (simp add: clean_def held_def frame_simps)
    then show ?thesis
      using adm Admitting by (simp add: sched_step_def tick_admit_def resolving_same)
  next
    case Decoding
    then have live: "\<forall>j\<in>set (seqs (bstate b)). \<not> finished (seq_of b j) \<and> greedy (seq_of b j)"
      using cl R(1) by (auto simp: clean_def held_def sched_inv_def table_inv_def)
    obtain st w where dec: "decode_step e (bstate b) (bworld b) = Inr (st, w)"
      using decode_total [OF R(3) live] by force
    note D = contract.ok_decode [OF R(2) dec]
    have "greedy (heap w j)" if "held b j" for j
      using D cl that evolves_greedy [of "heap (bworld b)" "heap w" j] by (simp add: clean_def)
    then have "clean (after_step e [] st w b)" by (simp add: clean_def held_def frame_simps)
    then show ?thesis
      using dec Decoding by (simp add: sched_step_def tick_decode_def resolving_same)
  next
    case Evicting
    obtain A st gone where E: "heap (bworld (leave_all [] b)) = abandon A (heap (bworld b))"
      "tick_evict e [] b = (complete_all e gone ((leave_all [] b)\<lparr>bstate := st\<rparr>))\<lparr>phase := Top\<rparr>"
      "engine_reach e (bworld (leave_all [] b)) st"
      "gone = filter (\<lambda>j. finished (heap (bworld (leave_all [] b)) j)) (seqs (bstate b))"
      "seqs st = (if gone = [] then seqs (bstate b) else filter (\<lambda>j. \<not> finished (heap (bworld b) j)) (seqs (bstate b)))"
      by (rule contract.tick_evict_eq [OF R(2), of "[]"])
    have "held b j" if "held (complete_all e gone (b\<lparr>bstate := st\<rparr>)) j" for j
      using complete_all_held [OF that] by simp
    then have "clean (tick_evict e [] b)"
      using E cl by (auto simp: clean_def frame_simps filter_empty_conv)
    moreover have "resolving b (tick_evict e [] b)"
      using resolving_complete_all [of "b\<lparr>bstate := st\<rparr>" e gone] E(2) by (simp add: resolving_def)
    ultimately show ?thesis using Evicting by (simp add: sched_step_def)
  next
    case NoTask
    then show ?thesis using cl by (simp add: sched_step_def)
  qed
qed

lemma clean_run:
  "batch_reach e L b \<Longrightarrow> clean b \<Longrightarrow> resolving b (sched_run e L n b)"
proof (induction n arbitrary: b)
  case 0
  then show ?case by simp
next
  case (Suc n)
  then show ?case
    using clean_step [OF Suc.prems] Suc.IH [OF reach_sched_step [OF Suc.prems(1)]] resolving_trans by auto
qed

end

text \<open>What a sequence was asked for does not change.\<close>

context progressing begin

lemma sched_step_asked:
  assumes "batch_reach e L b"
  shows "prompt_ids (seq_of (sched_step e L b) j) = prompt_ids (seq_of b j) \<and>
    params (seq_of (sched_step e L b) j) = params (seq_of b j)"
proof (cases "phase b")
  case Evicting
  obtain b' where "sched_step e L b = b'" "heap (bworld b') = heap (bworld b)"
    by (rule evict_round [OF assms Evicting])
  then show ?thesis by simp
next
  case (Admitting new)
  have Q: "queue_inv (queue b) (seqs (bstate b)) new (bworld b)"
    using reach_inv [OF assms] Admitting by (simp add: sched_inv_def)
  then have "distinct new" "set new \<subseteq> issued (bworld b) - set (seqs (bstate b))"
    "\<forall>j\<in>set new. output_ids (seq_of b j) = []" by (auto simp: queue_inv_def)
  note A = ok_admit [OF conjunct2 [OF reach_inv [OF assms]] this]
  show ?thesis
  proof (cases "admit e (bstate b) new (bworld b)")
    case (Inl x)
    then show ?thesis using Admitting by (simp add: sched_step_def tick_admit_def frame_simps split: prod.split)
  next
    case (Inr r)
    obtain st w where "r = (st, w)" by force
    then show ?thesis
      using A [of st w] Inr Admitting by (simp add: sched_step_def tick_admit_def frame_simps evolves_def)
  qed
next
  case Decoding
  note D = ok_decode [OF conjunct2 [OF reach_inv [OF assms]]]
  show ?thesis
  proof (cases "decode_step e (bstate b) (bworld b)")
    case (Inl x)
    then show ?thesis using Decoding by (simp add: sched_step_def tick_decode_def frame_simps split: prod.split)
  next
    case (Inr r)
    obtain st w where "r = (st, w)" by force
    then show ?thesis
      using D [of st w] Inr Decoding by (simp add: sched_step_def tick_decode_def frame_simps evolves_def)
  qed
next
  case (Gathering d)
  then show ?thesis by (simp add: sched_step_def tick_gather_def monotonic_def frame_simps)
qed (simp_all add: sched_step_def tick_top_def monotonic_def frame_simps)

lemma sched_run_asked:
  "batch_reach e L b \<Longrightarrow> prompt_ids (seq_of (sched_run e L n b) j) = prompt_ids (seq_of b j) \<and>
    params (seq_of (sched_run e L n b) j) = params (seq_of b j)"
  by (induction n arbitrary: b) (simp_all add: reach_sched_step sched_step_asked)

end

context windowed begin

lemmas reach_asked = progress.sched_run_asked

end

text \<open>What a result says.\<close>

lemma seq_verdict_nonempty: "seq_verdict e s outs \<noteq> Some ''''"
  by (simp add: seq_verdict_def verdict_def)

lemma result_solo:
  assumes tr: "tracks e am lm s" and ok: "seq_ok e s" and g: "greedy s"
    and res: "result_of e s res" and na: "finish_reason s \<noteq> Some ''abandoned''"
  shows "\<exists>outs. solo am lm (eos_token_id e) (context_limit e) (max_tokens (params s)) (prompt_ids s)
      = (outs, res_finish_reason res) \<and>
    res_text res = decode e outs \<and> res_completion_tokens res = length outs"
proof -
  obtain r where r: "finish_reason s = Some r" using res by (auto simp: result_of_def finished_def)
  have "r \<noteq> ''abandoned''" using na r by simp
  moreover from this have "r \<noteq> []" using tr r seq_verdict_nonempty by (auto simp: tracks_def)
  ultimately show ?thesis
    using tracks_solo [OF tr g ok r] r res by (simp add: result_of_def reason_or_stop_def)
qed

text \<open>The loop left alone hands every waiting caller the reference generation of its prompt.\<close>

context steady begin

abbreviation answer :: "seq \<Rightarrow> result \<Rightarrow> bool" where
  "answer s res \<equiv> \<exists>outs. solo amax lm (eos_token_id e) (context_limit e) (max_tokens (params s)) (prompt_ids s)
       = (outs, res_finish_reason res) \<and>
     res_text res = decode e outs \<and> res_completion_tokens res = length outs"

lemma served_at:
  assumes reach: "batch_reach e L b" and cl: "clean b"
    and i: "i \<in> issued (bworld b)" and w: "caller (reqs b i) = Waiting" and p: "future (reqs b i) = Pending"
  shows "future (reqs (sched_run e L n b) i) = Pending \<or>
    (\<exists>res. future (reqs (sched_run e L n b) i) = Resolved res \<and> answer (seq_of b i) res)"
proof (cases "future (reqs (sched_run e L n b) i) = Pending")
  case False
  let ?b = "sched_run e L n b"
  note reach' = reach_sched_run [OF reach, of n]
  have i': "i \<in> issued (bworld ?b)" "caller (reqs ?b i) = Waiting"
    using i w sched_run_party [of e L n b i] by (simp_all add: sched_run_issued party_def)
  note o = reach_outcome [OF reach' i'(1)]
  obtain res where res: "future (reqs ?b i) = Resolved res"
    using clean_run [OF reach cl, of n] p False unfolding resolving_def by metis
  note asked = reach_asked [OF reach, of n i]
  have "held b i" using reach_outcome [OF reach i] w p by (auto simp: outcome_ok_def)
  then have g: "greedy (seq_of ?b i)" using cl asked by (simp add: clean_def greedy_def)
  show ?thesis
    using result_solo [OF engine_invD(4,3) [OF reach_sched(3) [OF reach'] i'(1)] g, of res] o res i' asked
    by (simp add: outcome_ok_def)
qed simp

lemma served:
  assumes reach: "batch_reach e L b" and "alive b" "1 \<le> lim_batch L" "unbounded_clock (clock (bworld b))"
    and cl: "clean b"
  shows "\<exists>n. queue (sched_run e L n b) = [] \<and> running (sched_run e L n b) = [] \<and>
    (\<forall>i\<in>issued (bworld b). caller (reqs b i) = Waiting \<and> future (reqs b i) = Pending \<longrightarrow>
       (\<exists>res. future (reqs (sched_run e L n b) i) = Resolved res \<and> answer (seq_of b i) res))"
proof -
  obtain n where n: "queue (sched_run e L n b) = []" "running (sched_run e L n b) = []"
    using reach_drains [OF assms(1-4)] by blast
  let ?b = "sched_run e L n b"
  have "\<exists>res. future (reqs ?b i) = Resolved res \<and> answer (seq_of b i) res"
    if i: "i \<in> issued (bworld b)" and w: "caller (reqs b i) = Waiting" and p: "future (reqs b i) = Pending" for i
  proof -
    have "i \<in> issued (bworld ?b)" "caller (reqs ?b i) = Waiting"
      using i w sched_run_party [of e L n b i] by (simp_all add: sched_run_issued party_def)
    then have "future (reqs ?b i) \<noteq> Pending"
      using reach_outcome [OF reach_sched_run [OF reach, of n]] n by (fastforce simp: outcome_ok_def held_def)
    then show ?thesis using served_at [OF reach cl i w p, of n] by blast
  qed
  then show ?thesis using n by blast
qed

end

end
