(* ===== verification/BatcherFigures.thy ===== *)
theory BatcherFigures
  imports BatcherInv
begin

text \<open>
  The scheduler's counters and the exporter's registry: what they say of each other in every
  reachable state.
\<close>

definition figures_inv :: "limits \<Rightarrow> ('f, 'i, 'r) batcher \<Rightarrow> bool" where
  "figures_inv L b \<longleftrightarrow> (let m = registry b in
     steps b = length (m_batch_size m) \<and> batched_rows b = sum_list (m_batch_size m) \<and>
     (\<forall>n\<in>set (m_batch_size m). int n \<le> max 0 (lim_batch L)) \<and>
     m_cache_reused m \<le> m_cache_attended m \<and> m_tokens m \<le> tokens_generated b \<and>
     length (m_latency m) \<le> completed b \<and> length (m_ttft m) = length (m_latency m) \<and>
     length (m_queue_wait m) = length (m_latency m))"

lemma figures_inv_cong:
  assumes "figures_inv L b" "registry b' = registry b" "steps b' = steps b"
    "batched_rows b' = batched_rows b" "completed b' = completed b"
    "tokens_generated b' = tokens_generated b"
  shows "figures_inv L b'"
  using assms by (simp add: figures_inv_def)

lemma record_error_frame [simp]:
  "m_batch_size (record_error st m) = m_batch_size m" "m_tokens (record_error st m) = m_tokens m"
  "m_cache_reused (record_error st m) = m_cache_reused m"
  "m_cache_attended (record_error st m) = m_cache_attended m"
  "m_latency (record_error st m) = m_latency m" "m_ttft (record_error st m) = m_ttft m"
  "m_queue_wait (record_error st m) = m_queue_wait m"
  by (simp_all add: record_error_def inc_requests_def)

lemma record_result_frame [simp]:
  "m_batch_size (record_result r m) = m_batch_size m"
  "m_tokens (record_result r m) = m_tokens m + res_completion_tokens r"
  "m_cache_reused (record_result r m) = m_cache_reused m"
  "m_cache_attended (record_result r m) = m_cache_attended m"
  "m_latency (record_result r m) = m_latency m @ [total_s r]"
  "m_ttft (record_result r m) = m_ttft m @ [ttft_s r]"
  "m_queue_wait (record_result r m) = m_queue_wait m @ [queued_s r]"
  by (simp_all add: record_result_def inc_requests_def Let_def)

lemma figures_inv_complete: "figures_inv L b \<Longrightarrow> figures_inv L (complete e i b)"
  by (auto simp: figures_inv_def complete_def Let_def monotonic_def make_result_def frame_simps)

lemma figures_inv_complete_all: "figures_inv L b \<Longrightarrow> figures_inv L (complete_all e is b)"
  by (induction "is" arbitrary: b) (simp_all add: figures_inv_complete)

lemma figures_inv_after_step:
  assumes "figures_inv L b" "int (length (seqs st)) \<le> max 0 (lim_batch L)"
  shows "figures_inv L (after_step e new st w b)"
proof -
  have "rows * (c - 1) \<le> rows * (c :: nat)" for rows c by simp
  then show ?thesis
    using assms
    by (auto simp: figures_inv_def after_step_def observe_def Let_def publish_deltas_def frame_simps
        intro: add_le_mono)
qed

context engine_contract begin

lemma reach_figures: "batch_reach e L b \<Longrightarrow> figures_inv L b"
proof (induction rule: batch_reach.induct)
  case (init w st rs)
  then show ?case by (simp add: figures_inv_def new_batcher_def new_registry_def)
next
  case (start b)
  then show ?case by (auto simp: start_def intro: figures_inv_cong)
next
  case (stop b)
  then show ?case by (auto intro: figures_inv_cong simp: frame_simps)
next
  case (enqueue b prompt ps rid uuid streaming res b')
  obtain i b1 where mk: "make_request e prompt ps rid uuid streaming b = (i, b1)" by fastforce
  then have b1: "registry b1 = registry b" "steps b1 = steps b" "batched_rows b1 = batched_rows b"
    "completed b1 = completed b" "tokens_generated b1 = tokens_generated b"
    by (auto simp: make_request_def split: prod.splits)
  have "b' = set_req i (caller_update (\<lambda>_. GaveUp)) (b1\<lparr>rejected := Suc (rejected b1)\<rparr>) \<or>
      b' = b1\<lparr>queue := queue b1 @ [i], work := True\<rparr>"
    using enqueue(2) mk by (auto simp: enqueue_def add_def split: if_splits)
  then show ?case
    using enqueue(3) b1 by (elim disjE) (auto intro: figures_inv_cong simp: frame_simps)
next
  case (submit_timeout b i)
  then show ?case by (auto intro: figures_inv_cong simp: submit_timeout_def frame_simps)
next
  case (submit_cancelled b i)
  then show ?case by (auto intro: figures_inv_cong simp: submit_cancelled_def frame_simps)
next
  case (stream_left b i)
  then show ?case by (auto intro: figures_inv_cong simp: stream_left_def frame_simps)
next
  case (stream_closed b i)
  then show ?case by (auto intro: figures_inv_cong simp: stream_closed_def frame_simps)
next
  case (stream_get b i x r)
  then show ?case by (auto intro: figures_inv_cong simp: frame_simps)
next
  case (top b)
  then show ?case by (auto intro: figures_inv_cong simp: frame_simps)
next
  case (gather b d)
  then show ?case by (auto intro: figures_inv_cong simp: frame_simps)
next
  case (admit b new)
  have size: "size_inv L (queue (tick_admit e new b)) (seqs (bstate (tick_admit e new b))) (pend (tick_admit e new b))"
    using reach_inv [OF batch_reach.admit [OF admit(1,2)]] by (simp add: sched_inv_def)
  show ?case
  proof (cases "admit e (bstate b) new (bworld b)")
    case (Inl ex)
    then show ?thesis using admit(3) by (auto intro: figures_inv_cong simp: tick_admit_def frame_simps)
  next
    case (Inr r)
    then show ?thesis
      using admit(3) size
      by (cases r) (auto intro!: figures_inv_after_step simp: tick_admit_def size_inv_def frame_simps)
  qed
next
  case (decode b)
  have size: "size_inv L (queue (tick_decode e b)) (seqs (bstate (tick_decode e b))) (pend (tick_decode e b))"
    using reach_inv [OF batch_reach.decode [OF decode(1,2)]] by (simp add: sched_inv_def)
  show ?case
  proof (cases "decode_step e (bstate b) (bworld b)")
    case (Inl ex)
    then show ?thesis using decode(3) by (auto intro: figures_inv_cong simp: tick_decode_def frame_simps)
  next
    case (Inr r)
    then show ?thesis
      using decode(3) size
      by (cases r) (auto intro!: figures_inv_after_step simp: tick_decode_def size_inv_def frame_simps)
  qed
next
  case (evict b "is")
  have "ok (bworld b) (bstate b)" using reach_inv [OF evict(1)] by simp
  then obtain A st gone where
    "tick_evict e is b = (complete_all e gone ((leave_all is b)\<lparr>bstate := st\<rparr>))\<lparr>phase := Top\<rparr>"
    by (rule tick_evict_eq)
  moreover have "figures_inv L ((leave_all is b)\<lparr>bstate := st\<rparr>)" for st
    using evict.IH by (auto intro: figures_inv_cong simp: frame_simps)
  ultimately show ?case
    using figures_inv_complete_all [of L "(leave_all is b)\<lparr>bstate := st\<rparr>" e gone]
    by (auto intro: figures_inv_cong)
next
  case (scrape b)
  then show ?case by (simp add: figures_inv_def observe_batcher_def Let_def)
next
  case (failed_call b status)
  then show ?case by (simp add: figures_inv_def Let_def)
next
  case (model_info b model dev)
  then show ?case by (simp add: figures_inv_def set_model_info_def Let_def)
qed (auto intro: figures_inv_cong)

end

context windowed begin

lemma reach_figures: "batch_reach e L b \<Longrightarrow> figures_inv L b"
  by (rule contract.reach_figures)

end

end
