(* ===== verification/BatcherTimes.thy ===== *)
theory BatcherTimes
  imports BatcherLive
begin

text \<open>
  The durations a result reports, and the histograms they are observed in: waiting, time to the first
  token and total time follow each other, when the clock never runs backwards and never shows zero
  (\<open>started_at or now\<close> takes a zero for an absent time).
\<close>

section \<open>The invariant\<close>

definition ticking :: "(nat \<Rightarrow> rat) \<Rightarrow> bool" where
  "ticking c \<longleftrightarrow> mono c \<and> (\<forall>k. 0 < c k)"

definition now_of :: "'r world \<Rightarrow> rat" where
  "now_of w = clock w (clock_reads w)"

definition waiting_times :: "rat \<Rightarrow> request \<Rightarrow> seq \<Rightarrow> bool" where
  "waiting_times n r s \<longleftrightarrow> submitted_at r \<le> n \<and> first_token_at s = None"

definition running_times :: "rat \<Rightarrow> request \<Rightarrow> seq \<Rightarrow> bool" where
  "running_times n r s \<longleftrightarrow> (\<exists>t. started_at r = Some t \<and> 0 < t \<and> submitted_at r \<le> t \<and> t \<le> n \<and>
     (\<forall>u. first_token_at s = Some u \<longrightarrow> t \<le> u \<and> u \<le> n))"

definition result_times :: "result \<Rightarrow> bool" where
  "result_times res \<longleftrightarrow> 0 \<le> queued_s res \<and> queued_s res \<le> ttft_s res \<and> ttft_s res \<le> total_s res"

definition registry_times :: "metrics \<Rightarrow> bool" where
  "registry_times m \<longleftrightarrow> (\<forall>x\<in>set (m_queue_wait m) \<union> set (m_ttft m) \<union> set (m_latency m). 0 \<le> x)"

definition times_inv :: "('f, 'i, 'r) batcher \<Rightarrow> bool" where
  "times_inv b \<longleftrightarrow>
     (\<forall>i\<in>set (queue b). waiting_times (now_of (bworld b)) (reqs b i) (seq_of b i)) \<and>
     (\<forall>i\<in>set (running b). running_times (now_of (bworld b)) (reqs b i) (seq_of b i)) \<and>
     (\<forall>i\<in>issued (bworld b). \<forall>res. future (reqs b i) = Resolved res \<longrightarrow> result_times res) \<and>
     registry_times (registry b)"

lemma waiting_times_later: "waiting_times n r s \<Longrightarrow> n \<le> n' \<Longrightarrow> waiting_times n' r s"
  by (simp add: waiting_times_def)

lemma running_times_later: "running_times n r s \<Longrightarrow> n \<le> n' \<Longrightarrow> running_times n' r s"
  unfolding running_times_def by (meson order_trans)

text \<open>A result made of a running request.\<close>

lemma make_result_times: "running_times now r s \<Longrightarrow> result_times (make_result e s r now)"
  by (auto simp: running_times_def result_times_def make_result_def time_or_def split: option.splits)

section \<open>What leaves the times alone\<close>

definition same_req :: "request \<Rightarrow> request \<Rightarrow> bool" where
  "same_req r r' \<longleftrightarrow> submitted_at r' = submitted_at r \<and> started_at r' = started_at r \<and>
     (\<forall>res. future r' = Resolved res \<longrightarrow> future r = Resolved res)"

definition same_times :: "('f, 'i, 'r) batcher \<Rightarrow> ('f, 'i, 'r) batcher \<Rightarrow> bool" where
  "same_times b b' \<longleftrightarrow> set (queue b') \<subseteq> set (queue b) \<and> set (running b') \<subseteq> set (running b) \<and>
     (\<forall>i. same_req (reqs b i) (reqs b' i)) \<and> (\<forall>i. first_token_at (seq_of b' i) = first_token_at (seq_of b i)) \<and>
     clock (bworld b') = clock (bworld b) \<and> clock_reads (bworld b) \<le> clock_reads (bworld b') \<and>
     next_seq_id (bworld b') = next_seq_id (bworld b) \<and> m_queue_wait (registry b') = m_queue_wait (registry b) \<and>
     m_ttft (registry b') = m_ttft (registry b) \<and> m_latency (registry b') = m_latency (registry b)"

lemma now_of_mono: "mono (clock w) \<Longrightarrow> clock w' = clock w \<Longrightarrow> clock_reads w \<le> clock_reads w' \<Longrightarrow> now_of w \<le> now_of w'"
  by (simp add: now_of_def monoD)

lemma times_inv_same:
  assumes "times_inv b" and "ticking (clock (bworld b))" and same: "same_times b b'"
  shows "times_inv b'"
proof -
  have n: "now_of (bworld b) \<le> now_of (bworld b')"
    using assms(2) same by (intro now_of_mono) (auto simp: ticking_def same_times_def)
  have "waiting_times (now_of (bworld b')) (reqs b' i) (seq_of b' i)" if "i \<in> set (queue b')" for i
    using assms(1) same that waiting_times_later [OF _ n]
    by (auto simp: times_inv_def same_times_def same_req_def waiting_times_def)
  moreover have "running_times (now_of (bworld b')) (reqs b' i) (seq_of b' i)" if "i \<in> set (running b')" for i
  proof -
    have "running_times (now_of (bworld b')) (reqs b i) (seq_of b i)"
      using assms(1) same that running_times_later [OF _ n] by (auto simp: times_inv_def same_times_def)
    then show ?thesis using same by (simp add: running_times_def same_times_def same_req_def)
  qed
  moreover have "result_times res" if "i \<in> issued (bworld b')" "future (reqs b' i) = Resolved res" for i res
    using assms(1) same that unfolding times_inv_def same_times_def same_req_def issued_def by metis
  ultimately show ?thesis
    using assms(1) same by (simp add: times_inv_def same_times_def registry_times_def)
qed

lemma same_req_refl [simp]: "same_req r r"
  by (simp add: same_req_def)

lemma same_req_trans: "same_req r r1 \<Longrightarrow> same_req r1 r2 \<Longrightarrow> same_req r r2"
  by (simp add: same_req_def)

lemma same_times_refl [simp]: "same_times b b"
  by (simp add: same_times_def)

lemma same_times_trans: "same_times b b1 \<Longrightarrow> same_times b1 b2 \<Longrightarrow> same_times b b2"
  unfolding same_times_def by (auto intro: same_req_trans)

lemma same_req_simps [simp]:
  "same_req r (put_nowait x r)" "same_req r (settle Cancelled r)" "same_req r (settle (Failed ex) r)"
  "same_req r (publish_req e s r)" "same_req r (r\<lparr>caller := c\<rparr>)" "same_req r ((settle Cancelled r)\<lparr>caller := c\<rparr>)"
  by (auto simp: same_req_def put_nowait_def settle_def publish_req_def Let_def split: option.split)

lemma same_req_fail: "same_req r (put_nowait None (settle (Failed ex) r))"
  by (rule same_req_trans [of _ "settle (Failed ex) r"]) simp_all

lemma same_times_set_req: "same_req (reqs b i) (f (reqs b i)) \<Longrightarrow> same_times b (set_req i f b)"
  by (auto simp: same_times_def set_req_def)

lemma same_times_abandon: "same_times b (abandon_req i b)"
  using set_remove1_subset [of i "queue b"] by (auto simp: abandon_req_def same_times_def abandon_def Let_def)

lemma same_times_leave: "same_times b (leave i b)"
  by (auto simp: leave_def submit_timeout_def stream_left_def
      intro: same_times_trans [OF same_times_set_req same_times_abandon])

lemma same_times_leave_all: "same_times b (leave_all is b)"
proof (induction "is" arbitrary: b)
  case Nil
  then show ?case by simp
next
  case (Cons i "is")
  show ?case by (simp add: same_times_trans [OF same_times_leave Cons])
qed

lemma same_times_publish_rows: "same_times b (publish_rows e is b)"
proof (induction "is" arbitrary: b)
  case Nil
  then show ?case by simp
next
  case (Cons i "is")
  have "same_times b (publish_row e i b)"
    by (simp add: publish_row_def same_times_set_req)
  then show ?case by (simp add: same_times_trans [OF _ Cons])
qed

lemma same_times_cancel: "same_times b (cancel_futures is b)"
proof (induction "is" arbitrary: b)
  case Nil
  then show ?case by simp
next
  case (Cons i "is")
  have "same_times b (set_req i (settle Cancelled) b)" by (simp add: same_times_set_req)
  then show ?case by (simp add: same_times_trans [OF _ Cons])
qed

lemma same_times_fail_requests: "same_times b (fail_requests ex is b)"
proof (induction "is" arbitrary: b)
  case Nil
  then show ?case by simp
next
  case (Cons i "is")
  have "same_times b (set_req i (\<lambda>r. put_nowait None (settle (Failed ex) r)) b)"
    by (simp add: same_times_set_req same_req_fail)
  then show ?case by (simp add: same_times_trans [OF _ Cons])
qed

lemma same_times_fail_all: "same_times b (fail_all ex b)"
  using same_times_fail_requests [of b ex "running b"] by (simp add: fail_all_def same_times_def)

lemma same_times_stop: "same_times b (stop b)"
proof -
  have "same_times b (b\<lparr>alive := False, work := True, phase := NoTask\<rparr>)" by (simp add: same_times_def)
  from same_times_trans [OF this same_times_cancel [of _ "queue b @ running b"]]
  show ?thesis by (simp add: stop_def Let_def same_times_def)
qed

section \<open>The steps that set times\<close>

text \<open>Newcomers start now, and their first token is still to come.\<close>

lemma times_inv_begin:
  assumes "times_inv b" and tick: "ticking (clock (bworld b))"
    and "\<forall>i\<in>set is. waiting_times (now_of (bworld b)) (reqs b i) (seq_of b i)"
  shows "times_inv (begin_running is b) \<and> clock (bworld (begin_running is b)) = clock (bworld b)"
  using assms
proof (induction "is" arbitrary: b)
  case Nil
  then show ?case by simp
next
  case (Cons i "is")
  let ?w = "(bworld b)\<lparr>clock_reads := Suc (clock_reads (bworld b))\<rparr>"
  let ?r = "(reqs b i)\<lparr>started_at := Some (now_of (bworld b))\<rparr>"
  let ?b = "b\<lparr>bworld := ?w, reqs := (reqs b)(i := ?r), running := (if i \<in> set (running b) then running b else running b @ [i])\<rparr>"
  have n: "now_of (bworld b) \<le> now_of ?w"
    using Cons.prems(2) by (intro now_of_mono) (simp_all add: ticking_def)
  have pos: "0 < now_of (bworld b)" using Cons.prems(2) by (simp add: ticking_def now_of_def)
  have i: "waiting_times (now_of (bworld b)) (reqs b i) (seq_of b i)" using Cons.prems(3) by simp
  then have started: "running_times (now_of ?w) ?r (seq_of b i)"
    using pos n by (auto simp: waiting_times_def running_times_def)
  have "waiting_times (now_of ?w) (reqs ?b j) (seq_of b j)" if "j \<in> set (queue b) \<union> set is" for j
    using Cons.prems(1,3) that waiting_times_later [OF _ n] by (auto simp: times_inv_def waiting_times_def)
  moreover have "running_times (now_of ?w) (reqs ?b j) (seq_of b j)" if "j \<in> set (running b) \<union> {i}" for j
    using Cons.prems(1) that started running_times_later [OF _ n] by (auto simp: times_inv_def)
  ultimately have "times_inv ?b" "\<forall>j\<in>set is. waiting_times (now_of (bworld ?b)) (reqs ?b j) (seq_of ?b j)"
    using Cons.prems(1) by (auto simp: times_inv_def issued_def split: if_splits)
  moreover have "begin_running (i # is) b = begin_running is ?b"
    by (simp add: monotonic_def set_req_def now_of_def)
  ultimately show ?case using Cons.IH [of ?b] Cons.prems(2) by simp
qed

lemma times_inv_take:
  assumes "times_inv b" and "ticking (clock (bworld b))"
  shows "times_inv (tick_take L b) \<and> clock (bworld (tick_take L b)) = clock (bworld b)"
proof -
  obtain new b1 where t: "take_admissions L b = (new, b1)" by fastforce
  note T = take_admissions_spec [OF t]
  have q: "set new \<subseteq> set (queue b)" using T(2) by (metis set_take_subset)
  have "same_times b b1" using T(1) set_drop_subset [of "length new" "queue b"] by (simp add: same_times_def)
  then have inv: "times_inv b1" "clock (bworld b1) = clock (bworld b)"
    using times_inv_same [OF assms] by (auto simp: same_times_def)
  have "\<forall>i\<in>set new. waiting_times (now_of (bworld b1)) (reqs b1 i) (seq_of b1 i)"
    using assms(1) q T(1) by (auto simp: times_inv_def)
  then have B: "times_inv (begin_running new b1) \<and> clock (bworld (begin_running new b1)) = clock (bworld b)"
    using times_inv_begin [of b1 new] inv assms(2) by simp
  have "times_inv (c\<lparr>phase := p\<rparr>) = times_inv c" for c :: "('a, 'b, 'c) batcher" and p by (simp add: times_inv_def)
  then show ?thesis using B inv t by (simp add: tick_take_def)
qed

lemma times_inv_clock:
  assumes "times_inv b" and "ticking (clock (bworld b))"
  shows "times_inv (b\<lparr>bworld := (bworld b)\<lparr>clock_reads := Suc (clock_reads (bworld b))\<rparr>\<rparr>)"
  by (rule times_inv_same [OF assms]) (simp add: same_times_def)

lemma times_inv_phase [simp]:
  "times_inv (b\<lparr>phase := p\<rparr>) = times_inv b" "times_inv (b\<lparr>work := k\<rparr>) = times_inv b" "times_inv (b\<lparr>bstate := st\<rparr>) = times_inv b"
  by (simp_all add: times_inv_def)

lemma times_inv_top:
  assumes "times_inv b" and "ticking (clock (bworld b))"
  shows "times_inv (tick_top L b) \<and> clock (bworld (tick_top L b)) = clock (bworld b)"
    and "times_inv (tick_gather L d b) \<and> clock (bworld (tick_gather L d b)) = clock (bworld b)"
proof -
  let ?b = "b\<lparr>bworld := (bworld b)\<lparr>clock_reads := Suc (clock_reads (bworld b))\<rparr>\<rparr>"
  note T = times_inv_take [OF assms] and C = times_inv_clock [OF assms]
  have T': "times_inv (tick_take L ?b)" "clock (bworld (tick_take L ?b)) = clock (bworld b)"
    using times_inv_take [OF C] assms(2) by simp_all
  show "times_inv (tick_top L b) \<and> clock (bworld (tick_top L b)) = clock (bworld b)"
    using T C assms(1) by (simp add: tick_top_def monotonic_def Let_def)
  show "times_inv (tick_gather L d b) \<and> clock (bworld (tick_gather L d b)) = clock (bworld b)"
    using T T' C by (simp add: tick_gather_def monotonic_def Let_def)
qed

text \<open>An engine call stamps the first tokens of its rows with readings of its own.\<close>

definition stamped :: "nat set \<Rightarrow> 'r world \<Rightarrow> 'r world \<Rightarrow> bool" where
  "stamped S w w' \<longleftrightarrow> clock w' = clock w \<and> clock_reads w \<le> clock_reads w' \<and> next_seq_id w' = next_seq_id w \<and>
     (\<forall>j. first_token_at (heap w' j) = first_token_at (heap w j) \<or>
        j \<in> S \<and> (\<exists>k\<ge>clock_reads w. k < clock_reads w' \<and> first_token_at (heap w' j) = Some (clock w k)))"

lemma times_inv_stamped:
  assumes inv: "times_inv b" and tick: "ticking (clock (bworld b))" and st: "stamped S (bworld b) w"
    and S: "S \<inter> set (queue b) = {}"
  shows "times_inv (b\<lparr>bworld := w\<rparr>)"
proof -
  have n: "now_of (bworld b) \<le> now_of w"
    using tick st by (intro now_of_mono) (simp_all add: ticking_def stamped_def)
  have "waiting_times (now_of w) (reqs b i) (heap w i)" if "i \<in> set (queue b)" for i
  proof -
    have "first_token_at (heap w i) = first_token_at (seq_of b i)" using st S that by (auto simp: stamped_def)
    then show ?thesis using inv that waiting_times_later [OF _ n] by (auto simp: times_inv_def waiting_times_def)
  qed
  moreover have "running_times (now_of w) (reqs b i) (heap w i)" if "i \<in> set (running b)" for i
  proof -
    have run: "running_times (now_of (bworld b)) (reqs b i) (seq_of b i)" using inv that by (simp add: times_inv_def)
    obtain t where t: "started_at (reqs b i) = Some t" "0 < t" "submitted_at (reqs b i) \<le> t" "t \<le> now_of (bworld b)"
      "\<forall>u. first_token_at (seq_of b i) = Some u \<longrightarrow> t \<le> u \<and> u \<le> now_of (bworld b)"
      using run unfolding running_times_def by blast
    have "t \<le> u \<and> u \<le> now_of w" if u: "first_token_at (heap w i) = Some u" for u
    proof (cases "first_token_at (heap w i) = first_token_at (seq_of b i)")
      case True
      then have "first_token_at (seq_of b i) = Some u" using u by simp
      then show ?thesis using t(5) n by (meson order_trans)
    next
      case False
      then obtain k where k: "clock_reads (bworld b) \<le> k" "k < clock_reads w" "u = clock (bworld b) k"
        using st u unfolding stamped_def by (metis option.inject)
      have "now_of (bworld b) \<le> u" "u \<le> now_of w"
        using k tick st by (auto simp: now_of_def ticking_def stamped_def intro: monoD)
      then show ?thesis using t(4) by simp
    qed
    then show ?thesis using t n by (auto simp: running_times_def)
  qed
  ultimately show ?thesis using inv st by (simp add: times_inv_def stamped_def issued_def)
qed

lemma times_inv_after_step:
  assumes "times_inv b" and "ticking (clock (bworld b))" and "stamped S (bworld b) w" and "S \<inter> set (queue b) = {}"
  shows "times_inv (after_step e new st w b)"
proof -
  define b1 where "b1 = observe e new (b\<lparr>bstate := st, bworld := w, steps := Suc (steps b),
    batched_rows := batched_rows b + length (seqs st)\<rparr>)"
  have "same_times (b\<lparr>bworld := w\<rparr>) b1" by (simp add: b1_def observe_def same_times_def Let_def)
  then have "same_times (b\<lparr>bworld := w\<rparr>) (publish_deltas e b1)"
    unfolding publish_deltas_def by (rule same_times_trans [OF _ same_times_publish_rows])
  moreover have "after_step e new st w b = (publish_deltas e b1)\<lparr>phase := Evicting\<rparr>"
    by (simp add: after_step_def b1_def Let_def)
  moreover have "clock w = clock (bworld b)" using assms(3) by (simp add: stamped_def)
  ultimately show ?thesis
    using times_inv_same [OF times_inv_stamped [OF assms]] assms(2) by simp
qed

lemma times_inv_complete:
  assumes "times_inv b" and tick: "ticking (clock (bworld b))"
  shows "times_inv (complete e i b) \<and> clock (bworld (complete e i b)) = clock (bworld b)"
proof -
  let ?b1 = "b\<lparr>running := remove1 i (running b), completed := Suc (completed b),
    tokens_generated := tokens_generated b + length (output_ids (seq_of b i))\<rparr>"
  have one: "same_times b ?b1" using set_remove1_subset [of i "running b"] by (simp add: same_times_def)
  note inv1 = times_inv_same [OF assms one]
  show ?thesis
  proof (cases "i \<in> set (running b)")
    case False
    then show ?thesis using inv1 by (simp add: complete_def)
  next
    case True
    let ?now = "now_of (bworld b)"
    let ?res = "make_result e (seq_of b i) (reqs b i) ?now"
    let ?b2 = "?b1\<lparr>bworld := (bworld b)\<lparr>clock_reads := Suc (clock_reads (bworld b))\<rparr>\<rparr>"
    have "running_times ?now (reqs b i) (seq_of b i)" using assms(1) True by (simp add: times_inv_def)
    then have res: "result_times ?res" by (rule make_result_times)
    have inv2: "times_inv ?b2" using times_inv_clock [OF inv1] tick by simp
    have eq: "complete e i b = set_req i (deliver ?res) (?b2\<lparr>registry := record_result ?res (registry b)\<rparr>)"
      using True by (simp add: complete_def monotonic_def now_of_def Let_def)
    have fields: "submitted_at (deliver ?res r) = submitted_at r" "started_at (deliver ?res r) = started_at r"
      "future (deliver ?res r) = (if future r = Pending then Resolved ?res else future r)" for r
      by (auto simp: deliver_def settle_def put_nowait_def publish_final_def Let_def split: option.split)
    have "registry_times (record_result ?res (registry b))"
      using inv2 res by (auto simp: times_inv_def registry_times_def record_result_def inc_requests_def result_times_def Let_def)
    then show ?thesis
      using inv2 res unfolding eq
      by (auto simp: times_inv_def set_req_def fields waiting_times_def running_times_def issued_def split: if_splits)
  qed
qed

lemma times_inv_complete_all:
  "times_inv b \<Longrightarrow> ticking (clock (bworld b)) \<Longrightarrow>
    times_inv (complete_all e is b) \<and> clock (bworld (complete_all e is b)) = clock (bworld b)"
proof (induction "is" arbitrary: b)
  case Nil
  then show ?case by simp
next
  case (Cons i "is")
  note C = times_inv_complete [OF Cons.prems, of e i]
  show ?case using Cons.IH [of "complete e i b"] C Cons.prems(2) by simp
qed

section \<open>Every reachable state\<close>

lemma enqueue_clock: "enqueue e L prompt ps rid uuid streaming b = (res, b') \<Longrightarrow> clock (bworld b') = clock (bworld b)"
  by (auto simp: enqueue_def make_request_def make_sequence_eq monotonic_def add_def set_req_def split: if_splits)

locale stamping = progressing +
  assumes admit_stamps: "admit e st new w = Inr (st', w') \<Longrightarrow> stamped (set new) w w'"
    and decode_stamps: "decode_step e st w = Inr (st', w') \<Longrightarrow> stamped (set (seqs st)) w w'"
begin

lemma times_inv_admit:
  assumes reach: "batch_reach e L b" and ph: "phase b = Admitting new"
    and "times_inv b" and "ticking (clock (bworld b))"
  shows "times_inv (tick_admit e new b) \<and> clock (bworld (tick_admit e new b)) = clock (bworld b)"
proof (cases "admit e (bstate b) new (bworld b)")
  case (Inl ex)
  have "same_times b (tick_admit e new b)" using Inl same_times_fail_all by (simp add: tick_admit_def)
  then show ?thesis using times_inv_same [OF assms(3,4)] by (auto simp: same_times_def)
next
  case (Inr r)
  obtain st w where r: "r = (st, w)" by fastforce
  have st: "stamped (set new) (bworld b) w" using admit_stamps Inr r by blast
  have "set new \<inter> set (queue b) = {}"
    using reach_inv [OF reach] ph by (fastforce simp: sched_inv_def queue_inv_def)
  then show ?thesis
    using times_inv_after_step [OF assms(3,4) st] Inr r st by (simp add: tick_admit_def frame_simps stamped_def)
qed

lemma times_inv_decode:
  assumes reach: "batch_reach e L b" and ph: "phase b = Decoding"
    and "times_inv b" and "ticking (clock (bworld b))"
  shows "times_inv (tick_decode e b) \<and> clock (bworld (tick_decode e b)) = clock (bworld b)"
proof (cases "decode_step e (bstate b) (bworld b)")
  case (Inl ex)
  have "same_times b (tick_decode e b)" using Inl same_times_fail_all by (simp add: tick_decode_def)
  then show ?thesis using times_inv_same [OF assms(3,4)] by (auto simp: same_times_def)
next
  case (Inr r)
  obtain st w where r: "r = (st, w)" by fastforce
  have st: "stamped (set (seqs (bstate b))) (bworld b) w" using decode_stamps Inr r by blast
  have "set (seqs (bstate b)) \<inter> set (queue b) = {}"
    using reach_inv [OF reach] by (fastforce simp: sched_inv_def queue_inv_def)
  then show ?thesis
    using times_inv_after_step [OF assms(3,4) st] Inr r st by (simp add: tick_decode_def frame_simps stamped_def)
qed

lemma times_inv_evict:
  assumes reach: "batch_reach e L b" and "times_inv b" and tick: "ticking (clock (bworld b))"
  shows "times_inv (tick_evict e is b) \<and> clock (bworld (tick_evict e is b)) = clock (bworld b)"
proof -
  have "ok (bworld b) (bstate b)" using reach_inv [OF reach] by simp
  then obtain A st gone where
    "tick_evict e is b = (complete_all e gone ((leave_all is b)\<lparr>bstate := st\<rparr>))\<lparr>phase := Top\<rparr>"
    by (rule tick_evict_eq)
  moreover have "times_inv (leave_all is b) \<and> clock (bworld (leave_all is b)) = clock (bworld b)"
    using times_inv_same [OF assms(2,3) same_times_leave_all] same_times_leave_all [of b "is"] by (simp add: same_times_def)
  ultimately show ?thesis
    using times_inv_complete_all [of "(leave_all is b)\<lparr>bstate := st\<rparr>" e gone] tick by simp
qed

lemma times_inv_enqueue:
  assumes reach: "batch_reach e L b" and enq: "enqueue e L prompt ps rid uuid streaming b = (res, b')"
    and "times_inv b" and tick: "ticking (clock (bworld b))"
  shows "times_inv b' \<and> clock (bworld b') = clock (bworld b)"
proof -
  obtain i b1 where mk: "make_request e prompt ps rid uuid streaming b = (i, b1)" by fastforce
  have start: "1 \<le> next_seq_id (bworld b)" using reach_inv [OF reach] ok_seqs by blast
  note M = make_request_effect [OF mk start]
  have b1: "clock (bworld b1) = clock (bworld b)" "clock_reads (bworld b1) = Suc (Suc (clock_reads (bworld b)))"
    "submitted_at (reqs b1 i) = clock (bworld b) (Suc (clock_reads (bworld b)))" "first_token_at (seq_of b1 i) = None"
    "registry b1 = registry b"
    using mk by (auto simp: make_request_def make_sequence_eq monotonic_def new_seq_def)
  have n: "now_of (bworld b) \<le> now_of (bworld b1)"
    using tick b1 by (intro now_of_mono) (simp_all add: ticking_def)
  have i: "i \<notin> set (queue b) \<union> set (running b)"
    using M(6) reach_inv [OF reach] ok_seqs by (fastforce simp: sched_inv_def queue_inv_def table_inv_def)
  have "submitted_at (reqs b1 i) \<le> now_of (bworld b1)"
    using tick b1 by (simp add: now_of_def ticking_def monoD)
  then have new: "waiting_times (now_of (bworld b1)) (reqs b1 i) (seq_of b1 i)" using b1(4) by (simp add: waiting_times_def)
  have "waiting_times (now_of (bworld b1)) (reqs b1 j) (seq_of b1 j)" if "j \<in> set (queue b)" for j
    using assms(3) that i M(8,11) waiting_times_later [OF _ n] by (fastforce simp: times_inv_def)
  moreover have "running_times (now_of (bworld b1)) (reqs b1 j) (seq_of b1 j)" if "j \<in> set (running b)" for j
    using assms(3) that i M(8,11) running_times_later [OF _ n] by (fastforce simp: times_inv_def)
  moreover have "result_times res" if "j \<in> issued (bworld b1)" "future (reqs b1 j) = Resolved res" for j res
    using assms(3) that M(5,11,12) by (cases "j = i") (auto simp: times_inv_def)
  ultimately have inv1: "times_inv (b1\<lparr>queue := q\<rparr>)" if "set q \<subseteq> set (queue b) \<union> {i}" for q
    using assms(3) that M(1) b1(5) new by (auto simp: times_inv_def)
  have "b1\<lparr>queue := queue b1\<rparr> = b1" by simp
  then have inv2: "times_inv b1" using inv1 [of "queue b1"] M(2) by (metis Un_upper1)
  show ?thesis
  proof (cases "lim_queue L \<le> int (length (queue b1))")
    case True
    then have b': "b' = set_req i (caller_update (\<lambda>_. GaveUp)) (b1\<lparr>rejected := Suc (rejected b1)\<rparr>)"
      using enq mk by (simp add: enqueue_def add_def)
    have "same_times b1 b'" unfolding b'
      by (rule same_times_trans [OF _ same_times_set_req]) (simp_all add: same_times_def)
    then show ?thesis using times_inv_same [OF inv2] tick b1(1) by (auto simp: same_times_def)
  next
    case False
    then have "b' = (b1\<lparr>queue := queue b @ [i]\<rparr>)\<lparr>work := True\<rparr>"
      using enq mk M(2) by (simp add: enqueue_def add_def)
    then show ?thesis using inv1 [of "queue b @ [i]"] b1(1) by simp
  qed
qed

lemma evict_clock:
  assumes "batch_reach e L b"
  shows "clock (bworld (tick_evict e is b)) = clock (bworld b)"
proof -
  have "ok (bworld b) (bstate b)" using reach_inv [OF assms] by simp
  then obtain A st gone where
    "tick_evict e is b = (complete_all e gone ((leave_all is b)\<lparr>bstate := st\<rparr>))\<lparr>phase := Top\<rparr>"
    by (rule tick_evict_eq)
  then show ?thesis
    using same_times_leave_all [of b "is"] complete_all_world [of e gone "(leave_all is b)\<lparr>bstate := st\<rparr>"]
    by (auto simp: same_times_def)
qed

lemma reach_times:
  assumes "batch_reach e L b" and "ticking (clock (bworld b))"
  shows "times_inv b"
proof -
  have other: "ticking (clock (bworld b')) \<longrightarrow> times_inv b'"
    if "ticking (clock (bworld b)) \<longrightarrow> times_inv b" "same_times b b'" for b b' :: "('a, 'b, 'e) batcher"
    using times_inv_same [OF _ _ that(2)] that by (simp add: same_times_def)
  have "ticking (clock (bworld b)) \<longrightarrow> times_inv b"
    using assms(1)
  proof (induction rule: batch_reach.induct)
    case (init w st rs)
    then show ?case by (auto simp: times_inv_def new_batcher_def foreign_def registry_times_def new_registry_def)
  next
    case (start b)
    show ?case by (rule other [OF start(2)]) (simp add: start_def same_times_def)
  next
    case (stop b)
    show ?case by (rule other [OF stop(2) same_times_stop])
  next
    case (enqueue b prompt ps rid uuid streaming res b')
    then show ?case using times_inv_enqueue [OF enqueue(1,2)] enqueue_clock [OF enqueue(2)] by simp
  next
    case (submit_timeout b i)
    then have "submit_timeout i b = leave i b" by (simp add: leave_def)
    then show ?case using other [OF submit_timeout.IH same_times_leave [of b i]] by simp
  next
    case (submit_cancelled b i)
    have "same_times b (submit_cancelled i b)"
      unfolding submit_cancelled_def by (rule same_times_set_req) (simp add: comp_def)
    then show ?case by (rule other [OF submit_cancelled.IH])
  next
    case (stream_left b i)
    then have "stream_left i b = leave i b" by (auto simp: leave_def)
    then show ?case using other [OF stream_left.IH same_times_leave [of b i]] by simp
  next
    case (stream_closed b i)
    have "same_times b (stream_closed i b)"
      unfolding stream_closed_def by (rule same_times_set_req) (simp add: comp_def)
    then show ?case by (rule other [OF stream_closed.IH])
  next
    case (stream_get b i x r)
    have "same_req (reqs b i) r" using stream_get(3) by (auto simp: stream_get_def same_req_def split: option.splits if_splits)
    then have "same_times b (set_req i (\<lambda>_. r) b)" by (rule same_times_set_req)
    then show ?case by (rule other [OF stream_get.IH])
  next
    case (wake b)
    then show ?case by simp
  next
    case (top b)
    then show ?case using times_inv_top(1) [of b L] sched_step_clock [OF top(1)] by (simp add: sched_step_def)
  next
    case (gather b d)
    then show ?case using times_inv_top(2) [of b L d] sched_step_clock [OF gather(1)] by (simp add: sched_step_def)
  next
    case (admit b new)
    then show ?case using times_inv_admit [OF admit(1,2)] sched_step_clock [OF admit(1)] by (simp add: sched_step_def)
  next
    case (decode b)
    then show ?case using times_inv_decode [OF decode(1,2)] sched_step_clock [OF decode(1)] by (simp add: sched_step_def)
  next
    case (evict b "is")
    then show ?case using times_inv_evict [OF evict(1), of "is"] evict_clock [OF evict(1), of "is"] by simp
  next
    case (elapse b c g)
    show ?case by (rule other [OF elapse.IH]) (use elapse(2) in \<open>simp add: same_times_def\<close>)
  next
    case (scrape b)
    show ?case by (rule other [OF scrape(2)]) (simp add: same_times_def observe_batcher_def)
  next
    case (failed_call b status)
    show ?case by (rule other [OF failed_call(2)]) (simp add: same_times_def record_error_def inc_requests_def)
  next
    case (model_info b model dev)
    show ?case by (rule other [OF model_info(2)]) (simp add: same_times_def set_model_info_def)
  qed
  then show ?thesis using assms(2) by simp
qed

end

text \<open>The engine provides it: \<open>_emit\<close> reads the clock once and stamps the rows it emits for.\<close>

lemma emit_rows_stamp:
  "first_token_at (emit_rows e t tokens r is h j) = first_token_at (h j) \<or>
    j \<in> set is \<and> first_token_at (emit_rows e t tokens r is h j) = Some t"
proof (induction "is" arbitrary: r h)
  case Nil
  then show ?case by simp
next
  case (Cons i "is")
  define h1 where "h1 = h(i := emit_row e t (elem (ilib e) tokens [r]) (h i))"
  have "first_token_at (h1 j) = first_token_at (h j) \<or> j = i \<and> first_token_at (h1 j) = Some t"
    by (simp add: h1_def emit_row_def Let_def)
  moreover have "emit_rows e t tokens r (i # is) h = emit_rows e t tokens (Suc r) is h1"
    by (simp add: h1_def)
  ultimately show ?case using Cons.IH [of "Suc r" h1] by auto
qed

lemma emit_stamps: "emit e st logits w = Inr (st', w') \<Longrightarrow> stamped (set (seqs st)) w w'"
  using emit_rows_stamp
  by (fastforce simp: emit_def monotonic_def stamped_def try_bind_Inr_iff Let_def)

lemma stamped_refl [simp]: "stamped S w w"
  by (simp add: stamped_def)

lemma prefill_stamps: "prefill e ss w = Inr (st', w') \<Longrightarrow> stamped (set ss) w w'"
  by (auto simp: prefill_def try_bind_Inr_iff split: if_splits dest!: emit_stamps)

lemma admit_stamped: "admit e st new w = Inr (st', w') \<Longrightarrow> stamped (set new) w w'"
  by (auto simp: admit_def try_bind_Inr_iff Let_def split: if_splits option.splits dest!: prefill_stamps)

lemma decode_stamped: "decode_step e st w = Inr (st', w') \<Longrightarrow> stamped (set (seqs st)) w w'"
  by (auto simp: decode_step_def try_bind_Inr_iff Let_def split: if_splits option.splits dest!: emit_stamps)

sublocale windowed \<subseteq> stamps: stamping e "engine_reach e"
  by unfold_locales (fact admit_stamped decode_stamped)+

context windowed begin

lemmas reach_times = stamps.reach_times

end

end
