(* ===== verification/BatcherProps.thy ===== *)
theory BatcherProps
  imports BatcherDemo BatcherServe BatcherFigures BatcherTimes
begin

text \<open>
  The properties of the scheduler: what a caller gets, that every caller gets it, the limits, the
  order, the errors and the figures.
\<close>

section \<open>Helpers\<close>

lemma windowedI:
  assumes "network e amax fdiv sortd order smax csum fsub dims vocab lm" and "2 \<le> context_limit e"
  shows "windowed e amax fdiv sortd order smax csum fsub dims vocab lm"
  using assms by (intro windowed.intro windowed_axioms.intro)


lemma steadyI:
  assumes "serving e amax fdiv sortd order smax csum fsub dims vocab lm" and "2 \<le> context_limit e"
  shows "steady e amax fdiv sortd order smax csum fsub dims vocab lm"
  using assms windowedI [OF serving.axioms(1)] by (intro steady.intro) simp_all

interpretation demo_steady: steady demo_engine ref_max ref_div ref_sorted ref_order ref_smax
    ref_csum ref_sub "[(1, 1)]" 3 demo_lm
  by (rule steadyI [OF demo_serving demo_window])

section \<open>What a caller gets\<close>

text \<open>C20: the durations a result reports are in order. Whatever the callers do, the time a request
  waited is not negative, not above its time to the first token, and that one not above its total time,
  and nothing negative is ever observed in the histograms of the three; for every clock that never
  runs backwards and never shows zero.\<close>

theorem latencies_ordered:
  assumes "network e amax fdiv sortd order smax csum fsub dims vocab lm" and "2 \<le> context_limit e"
    and "batch_reach e L b" and "mono (clock (bworld b))" and "\<forall>k. 0 < clock (bworld b) k"
  shows "(\<forall>i\<in>issued (bworld b). \<forall>res. future (reqs b i) = Resolved res \<longrightarrow>
      0 \<le> queued_s res \<and> queued_s res \<le> ttft_s res \<and> ttft_s res \<le> total_s res) \<and>
    (\<forall>x\<in>set (m_queue_wait (registry b)) \<union> set (m_ttft (registry b)) \<union> set (m_latency (registry b)). 0 \<le> x)"
  using windowed.reach_times [OF windowedI [OF assms(1,2)] assms(3)] assms(4,5)
  by (simp add: ticking_def times_inv_def result_times_def registry_times_def)

lemma latencies_ordered_witness:
  "\<exists>b res. batch_reach demo_engine demo_limits b \<and> future (reqs b 1) = Resolved res \<and>
    0 \<le> queued_s res \<and> queued_s res \<le> ttft_s res \<and> ttft_s res \<le> total_s res"
proof (rule demo_batch)
  fix b4 b8 res
  assume r: "batch_reach demo_engine demo_limits b8" "issued (bworld b8) = {1}"
    "future (reqs b8 1) = Resolved res" "clock (bworld b8) = demo_time"
  have "mono demo_time" "\<forall>k. 0 < demo_time k" by (simp_all add: demo_time_def mono_def)
  then show ?thesis
    using latencies_ordered [OF demo_network demo_window r(1)] r by auto
qed

text \<open>C2: a completed request gets what its prompt alone determines. In every state the scheduler can
  reach, with any callers coming and going, the result a waiting caller of a greedy request finds
  carries the text, the token count and the finish reason of the reference generation of
  that prompt by itself.\<close>

theorem completed_is_solo:
  assumes "network e amax fdiv sortd order smax csum fsub dims vocab lm" and "2 \<le> context_limit e"
    and "batch_reach e L b" and "i \<in> issued (bworld b)" and "future (reqs b i) = Resolved res"
    and "greedy (seq_of b i)" and "caller (reqs b i) = Waiting"
  shows "\<exists>outs. solo amax lm (eos_token_id e) (context_limit e) (max_tokens (params (seq_of b i)))
      (prompt_ids (seq_of b i)) = (outs, res_finish_reason res) \<and>
    res_text res = decode e outs \<and> res_completion_tokens res = length outs"
proof -
  note W = windowedI [OF assms(1,2)]
  show ?thesis
    by (rule result_solo [OF engine_invD(4,3) [OF windowed.reach_sched(3) [OF W assms(3)] assms(4)] assms(6)])
      (use windowed.reach_outcome [OF W assms(3,4)] assms(5,7) in \<open>auto simp: outcome_ok_def\<close>)
qed

lemma completed_is_solo_witness:
  "\<exists>b res. batch_reach demo_engine demo_limits b \<and> future (reqs b 1) = Resolved res \<and>
    res_text res = ''12'' \<and> res_completion_tokens res = 2"
proof (rule demo_batch)
  fix b4 b8 res
  assume r: "batch_reach demo_engine demo_limits b8" "issued (bworld b8) = {1}"
    "future (reqs b8 1) = Resolved res" "greedy (seq_of b8 1)" "prompt_ids (seq_of b8 1) = [97]"
    "max_tokens (params (seq_of b8 1)) = 4" "caller (reqs b8 1) = Waiting"
  have i: "1 \<in> issued (bworld b8)" using r(2) by simp
  obtain outs where o: "solo ref_max demo_lm 2 8 4 [97] = (outs, res_finish_reason res)"
    "res_text res = decode demo_engine outs" "res_completion_tokens res = length outs"
    using completed_is_solo [OF demo_network demo_window r(1) i r(3,4,7)] unfolding r(5,6) demo_fields by blast
  have "solo ref_max demo_lm 2 8 4 [97] = ([1, 2], ''stop'')" by code_simp
  then have "outs = [1, 2]" using o(1) by simp
  moreover have "demo_decode [1, 2] = ''12''" by code_simp
  ultimately have "res_text res = ''12''" "res_completion_tokens res = 2" using o(2,3)
    by (simp_all add: decode_def)
  then show ?thesis using r(1,3) by blast
qed



text \<open>C3: every caller is answered. From any reachable state, if the scheduler runs and admits at
  least one row, its loop left alone empties the queue and the running table within finitely many
  steps, whether the engine's calls return or raise, and then no caller still waits on a pending
  future.\<close>

theorem every_caller_answered:
  assumes "network e amax fdiv sortd order smax csum fsub dims vocab lm" and "2 \<le> context_limit e"
    and "batch_reach e L b" and "alive b" and "1 \<le> lim_batch L" and "unbounded_clock (clock (bworld b))"
  shows "\<exists>n. queue (sched_run e L n b) = [] \<and> running (sched_run e L n b) = [] \<and>
    (\<forall>i\<in>issued (bworld b). caller (reqs b i) = Waiting \<longrightarrow> future (reqs (sched_run e L n b) i) \<noteq> Pending)"
proof -
  note W = windowedI [OF assms(1,2)]
  obtain n where n: "queue (sched_run e L n b) = []" "running (sched_run e L n b) = []"
    using windowed.reach_drains [OF W assms(3-6)] by blast
  have "future (reqs (sched_run e L n b) i) \<noteq> Pending"
    if "i \<in> issued (bworld b)" "caller (reqs b i) = Waiting" for i
    using windowed.reach_outcome [OF W reach_sched_run [OF assms(3)], of i n] that n
      sched_run_party [of e L n b i]
    by (simp add: outcome_ok_def held_def sched_run_issued party_def)
  then show ?thesis using n by blast
qed

lemma every_caller_answered_witness:
  "\<exists>n. future (reqs demo_queued 1) = Pending \<and>
    future (reqs (sched_run demo_engine demo_limits n demo_queued) 1) \<noteq> Pending"
  using every_caller_answered [OF demo_network demo_window demo_queued_reach] demo_clock by auto



text \<open>C19: no request is lost. A caller that waits on a pending future has its request in the queue,
  in the prefill under way, or in the batch with its sequence.\<close>

theorem waiting_is_held:
  assumes "network e amax fdiv sortd order smax csum fsub dims vocab lm" and "2 \<le> context_limit e"
    and "batch_reach e L b" and "i \<in> issued (bworld b)" and "caller (reqs b i) = Waiting"
    and "future (reqs b i) = Pending"
  shows "i \<in> set (queue b) \<or> i \<in> set (running b) \<and> i \<in> set (seqs (bstate b)) \<union> set (pend b)"
proof -
  note W = windowedI [OF assms(1,2)]
  have "held b i" using windowed.reach_outcome [OF W assms(3,4)] assms(5,6) by (auto simp: outcome_ok_def)
  then show ?thesis
    using windowed.reach_sched(1) [OF W assms(3)] by (auto simp: held_def sched_inv_def table_inv_def)
qed

lemma waiting_is_held_witness: "1 \<in> set (queue demo_queued) \<or> (1::nat) \<in> set (running demo_queued)"
  using waiting_is_held [OF demo_network demo_window demo_queued_reach, of 1] by simp

section \<open>Limits and order\<close>

text \<open>C22: the limits hold in every reachable state. The batch together with the newcomers being
  prefilled never exceeds the batch limit, nor the queue its limit, and the mean batch size the
  scheduler reports never exceeds the batch limit.\<close>

theorem limits_hold:
  assumes "network e amax fdiv sortd order smax csum fsub dims vocab lm" and "2 \<le> context_limit e"
    and "batch_reach e L b"
  shows "int (length (seqs (bstate b)) + length (pend b)) \<le> max 0 (lim_batch L) \<and>
    int (length (queue b)) \<le> max 0 (lim_queue L)"
  using windowed.reach_sched(1) [OF windowedI [OF assms(1,2)] assms(3)]
  by (simp add: sched_inv_def size_inv_def)

lemma limits_hold_witness:
  "\<exists>b. batch_reach demo_engine demo_limits b \<and> length (seqs (bstate b)) = 1 \<and> length (queue b) \<le> 2"
proof (rule demo_batch)
  fix b4 b8 res
  assume r: "batch_reach demo_engine demo_limits b4" "seqs (bstate b4) = [1]"
  then show ?thesis using limits_hold [OF demo_network demo_window r(1)] by auto
qed

text \<open>C21: first come, first served. The queue holds the requests in the order they were submitted,
  and everything in the batch or being prefilled was submitted before everything still queued.\<close>

theorem first_come_first_served:
  assumes "network e amax fdiv sortd order smax csum fsub dims vocab lm" and "2 \<le> context_limit e"
    and "batch_reach e L b"
  shows "sorted_wrt (<) (queue b) \<and>
    (\<forall>i\<in>set (queue b). \<forall>j\<in>set (seqs (bstate b)) \<union> set (pend b) \<union> set (running b). j < i)"
  using windowed.reach_sched(1) [OF windowedI [OF assms(1,2)] assms(3)]
  by (auto simp: sched_inv_def queue_inv_def table_inv_def)

lemma first_come_first_served_witness:
  "sorted_wrt (<) (queue demo_queued) \<and> queue demo_queued = [1]"
  using first_come_first_served [OF demo_network demo_window demo_queued_reach] by simp

section \<open>Streams\<close>

text \<open>C24: every stream is closed exactly once and last. While its request is in flight, and if the
  scheduler was stopped under it, a stream's queue holds text only; once the request has a result
  or an error, the queue ends with the sentinel and holds no other.\<close>

theorem stream_sentinel:
  assumes "network e amax fdiv sortd order smax csum fsub dims vocab lm" and "2 \<le> context_limit e"
    and "batch_reach e L b" and "i \<in> issued (bworld b)" and "stream (reqs b i) = Some q"
  shows "if future (reqs b i) = Pending \<or> future (reqs b i) = Cancelled then None \<notin> set (items q)
    else \<exists>xs. items q = xs @ [None] \<and> None \<notin> set xs"
proof -
  have "if future (reqs b i) = Pending \<or> future (reqs b i) = Cancelled then None \<notin> set (items q)
      else sentinel_last q"
    using windowed.reach_outcome [OF windowedI [OF assms(1,2)] assms(3,4)] assms(5)
    by (auto simp: outcome_ok_def)
  then show ?thesis unfolding sentinel_last_def by (metis append_butlast_last_id)
qed

lemma stream_sentinel_witness:
  "None \<notin> set (items \<lparr>items = [], taken = 0\<rparr>) \<and> future (reqs demo_queued 1) = Pending"
  using stream_sentinel [OF demo_network demo_window demo_queued_reach, of 1] by simp



section \<open>Errors\<close>

text \<open>Back-pressure. A submission is refused exactly when the queue is at its limit; the refusal
  names the limit, is counted, and leaves queue, batch and every other request as they were. An
  accepted one is appended to the queue, pending, and the loop is woken.\<close>

lemma enqueue_back_pressure:
  assumes "1 \<le> next_seq_id (bworld b)" and "enqueue e L prompt ps rid uuid streaming b = (r, b')"
  shows "(if lim_queue L \<le> int (length (queue b))
      then r = Inl (QueueFullError (lim_queue L)) \<and> queue b' = queue b \<and> rejected b' = Suc (rejected b)
      else r = Inr (next_seq_id (bworld b)) \<and> queue b' = queue b @ [next_seq_id (bworld b)] \<and> work b' \<and>
        rejected b' = rejected b \<and> future (reqs b' (next_seq_id (bworld b))) = Pending) \<and>
    running b' = running b \<and> bstate b' = bstate b \<and>
    (\<forall>j\<in>issued (bworld b). reqs b' j = reqs b j \<and> seq_of b' j = seq_of b j)"
proof -
  obtain i b1 where mk: "make_request e prompt ps rid uuid streaming b = (i, b1)" by fastforce
  note M = make_request_effect [OF mk assms(1)]
  have i: "i = next_seq_id (bworld b)"
    using mk by (simp add: make_request_def make_sequence_eq monotonic_def)
  have j: "j \<noteq> i" if "j \<in> issued (bworld b)" for j using that M(6) by blast
  show ?thesis
    using assms(2) mk M j unfolding i
    by (cases "lim_queue L \<le> int (length (queue b))") (auto simp: enqueue_def add_def frame_simps)
qed

lemma enqueue_back_pressure_witness:
  "\<exists>b. enqueue demo_engine demo_limits ''a'' None ''r'' ''u'' True demo_idle = (Inr 1, b) \<and> queue b = [1]"
  using enqueue_back_pressure [OF _ demo_enqueue] demo_enqueue
  by (simp add: demo_world_def)

text \<open>C23: a failing step hurts only what was in it. When an engine call raises, every request in
  flight whose future is pending gets that very exception and its stream is closed; the queue is
  untouched, the batch is empty, and the loop goes on from its top.\<close>

theorem step_failure_contained:
  assumes "network e amax fdiv sortd order smax csum fsub dims vocab lm" and "2 \<le> context_limit e"
    and "batch_reach e L b"
    and "phase b = Decoding \<and> decode_step e (bstate b) (bworld b) = Inl ex \<and> b' = tick_decode e b \<or>
      phase b = Admitting new \<and> admit e (bstate b) new (bworld b) = Inl ex \<and> b' = tick_admit e new b"
  shows "batch_reach e L b' \<and> queue b' = queue b \<and> running b' = [] \<and> bstate b' = empty_state \<and>
    phase b' = Top \<and>
    (\<forall>i\<in>set (running b). future (reqs b' i) = (if future (reqs b i) = Pending then Failed ex else future (reqs b i)) \<and>
       stream (reqs b' i) = map_option (\<lambda>q. q\<lparr>items := items q @ [None]\<rparr>) (stream (reqs b i))) \<and>
    (\<forall>i. i \<notin> set (running b) \<longrightarrow> reqs b' i = reqs b i)"
proof -
  have b': "b' = fail_all ex b" "batch_reach e L b'"
    using assms(3,4) by (auto simp: tick_decode_def tick_admit_def dest: batch_reach.decode batch_reach.admit)
  have "distinct (running b)"
    using sched_inv_members(2) windowed.reach_sched(1) [OF windowedI [OF assms(1,2)] assms(3)] by blast
  then show ?thesis
    using b' by (auto simp: fail_all_def frame_simps reqs_fail_requests)
qed

lemma step_failure_contained_witness:
  "\<exists>ex. future (reqs (tick_admit faulty_engine [1] faulty_admitting) 1) = Failed ex \<and>
    running (tick_admit faulty_engine [1] faulty_admitting) = []"
proof -
  obtain ex where "admit faulty_engine (bstate faulty_admitting) [1] (bworld faulty_admitting) = Inl ex"
    using faulty_admit by blast
  then have "phase faulty_admitting = Decoding \<and>
        decode_step faulty_engine (bstate faulty_admitting) (bworld faulty_admitting) = Inl ex \<and>
        tick_admit faulty_engine [1] faulty_admitting = tick_decode faulty_engine faulty_admitting \<or>
      phase faulty_admitting = Admitting [1] \<and>
        admit faulty_engine (bstate faulty_admitting) [1] (bworld faulty_admitting) = Inl ex \<and>
        tick_admit faulty_engine [1] faulty_admitting = tick_admit faulty_engine [1] faulty_admitting"
    using faulty_phase(1) by blast
  note F = step_failure_contained [OF faulty_network _ faulty_reach this]
  have "2 \<le> context_limit faulty_engine" by (simp add: faulty_engine_def)
  then show ?thesis using F faulty_phase(2,3) by (metis list.set_intros(1))
qed

text \<open>C31: the scheduler's figures agree with the exporter's. One batch size is observed per step and
  they add up to the rows counted, none above the batch limit, so the mean batch size is at most the
  limit; cache hits never exceed the positions attended over; every result recorded is a completion
  counted and its tokens are among the tokens counted; and each result is observed once in each of
  the three latency histograms.\<close>

theorem figures_agree:
  assumes "network e amax fdiv sortd order smax csum fsub dims vocab lm" and "2 \<le> context_limit e"
    and "batch_reach e L b"
  shows "steps b = length (m_batch_size (registry b)) \<and> batched_rows b = sum_list (m_batch_size (registry b)) \<and>
    mean_batch_size b \<le> of_int (max 0 (lim_batch L)) \<and>
    m_cache_reused (registry b) \<le> m_cache_attended (registry b) \<and>
    m_tokens (registry b) \<le> tokens_generated b \<and> length (m_latency (registry b)) \<le> completed b \<and>
    length (m_ttft (registry b)) = length (m_latency (registry b)) \<and>
    length (m_queue_wait (registry b)) = length (m_latency (registry b))"
proof -
  have F: "figures_inv L b" by (rule windowed.reach_figures [OF windowedI [OF assms(1,2)] assms(3)])
  have "sum_list ns \<le> length ns * nat (max 0 m)" if "\<forall>n\<in>set ns. int n \<le> max 0 m" for ns m
    using that by (induction ns) (auto simp: nat_le_iff)
  then have "batched_rows b \<le> steps b * nat (max 0 (lim_batch L))"
    using F by (simp add: figures_inv_def Let_def)
  then have "(of_nat (batched_rows b) :: rat) \<le> of_nat (steps b) * of_int (max 0 (lim_batch L))"
    by (metis of_int_of_nat_eq of_nat_le_iff of_nat_mult nat_0_le max.cobounded1)
  then have "mean_batch_size b \<le> of_int (max 0 (lim_batch L))"
    by (auto simp: mean_batch_size_def divide_simps mult.commute)
  then show ?thesis using F by (simp add: figures_inv_def Let_def)
qed

lemma figures_agree_witness: "steps demo_queued = length (m_batch_size (registry demo_queued))"
  using figures_agree [OF demo_network demo_window demo_queued_reach] by simp

section \<open>Shutdown and the eviction race\<close>

text \<open>C34: what a stop does. Every request in the queue or in flight whose future is pending is
  cancelled, queue, running table and batch are emptied, and the loop is gone; the streams are left
  as they are, without the sentinel their consumers wait for.\<close>

theorem stop_cancels:
  assumes "network e amax fdiv sortd order smax csum fsub dims vocab lm" and "2 \<le> context_limit e"
    and "batch_reach e L b" and "i \<in> set (queue b) \<union> set (running b)"
  shows "batch_reach e L (stop b) \<and> queue (stop b) = [] \<and> running (stop b) = [] \<and>
    bstate (stop b) = empty_state \<and> phase (stop b) = NoTask \<and> \<not> alive (stop b) \<and>
    future (reqs (stop b) i) = Cancelled \<and> stream (reqs (stop b) i) = stream (reqs b i) \<and>
    (case stream (reqs (stop b) i) of None \<Rightarrow> True | Some q \<Rightarrow> None \<notin> set (items q))"
proof -
  note W = windowedI [OF assms(1,2)]
  have r: "batch_reach e L (stop b)" by (rule batch_reach.stop [OF assms(3)])
  have "i \<in> issued (bworld b)"
    using windowed.reach_issued [OF W assms(3)] assms(4) by blast
  moreover from this have "future (reqs b i) = Pending \<or> future (reqs b i) = Cancelled"
    using windowed.reach_outcome [OF W assms(3)] assms(4) by (auto simp: outcome_ok_def held_def)
  moreover have "outcome_ok e (held (stop b) i) (reqs (stop b) i) (seq_of (stop b) i)"
    using windowed.reach_outcome [OF W r] calculation(1) by (simp add: frame_simps)
  ultimately show ?thesis
    using r assms(4)
    by (auto simp: frame_simps stop_def Let_def reqs_cancel_futures outcome_ok_def split: option.splits)
qed

lemma stop_cancels_witness:
  "future (reqs (stop demo_queued) 1) = Cancelled \<and> stream (reqs (stop demo_queued) 1) \<noteq> None"
  using stop_cancels [OF demo_network demo_window demo_queued_reach, of 1] by simp

text \<open>C40: the eviction race. A stream whose caller gives up while \<open>evict_finished\<close> is between its two
  scans is completed, stays in the batch, and is completed again: there is a run of the scheduler in
  which one request was submitted and two completions are counted.\<close>

theorem evict_race_counts_twice:
  "\<exists>b. batch_reach demo_engine demo_limits b \<and> issued (bworld b) = {1} \<and> completed b = 2"
proof (rule demo_batch)
  fix b4 b8 res
  assume r4: "batch_reach demo_engine demo_limits b4" and b4: "phase b4 = Evicting" "running b4 = [1]"
    "queue b4 = []" "seqs (bstate b4) = [1]" "issued (bworld b4) = {1}" "\<not> finished (seq_of b4 1)"
    "caller (reqs b4 1) = Waiting" "completed b4 = 0" "stream (reqs b4 1) \<noteq> None" "greedy (seq_of b4 1)"
  note R = demo_sched.reach_sched
  define b0 where "b0 = leave_all [1] b4"
  have b0': "b0 = abandon_req 1 (set_req 1 (caller_update (\<lambda>_. GaveUp)) b4)"
    using b4(9) unfolding b0_def by (auto simp: leave_def stream_left_def)
  have b0: "heap (bworld b0) = abandon {1} (heap (bworld b4))" "running b0 = [1]" "queue b0 = []"
    "completed b0 = 0"
    unfolding b0' using b4(2,3,6,8) by (simp_all add: abandon_req_heap frame_simps)
  obtain st gone where E: "tick_evict demo_engine [1] b4 = (complete_all demo_engine gone (b0\<lparr>bstate := st\<rparr>))\<lparr>phase := Top\<rparr>"
    "gone = filter (\<lambda>j. finished (heap (bworld b0) j)) (seqs (bstate b4))"
    "seqs st = (if gone = [] then seqs (bstate b4) else filter (\<lambda>j. \<not> finished (heap (bworld b4) j)) (seqs (bstate b4)))"
    unfolding b0_def using demo_sched.contract.tick_evict_eq [OF R(2) [OF r4], of "[1]"] by metis
  have gone: "gone = [1]" "seqs st = [1]" using E(2,3) b4 b0(1) by (simp_all add: abandon_finished)
  define b5 where "b5 = tick_evict demo_engine [1] b4"
  have r5: "batch_reach demo_engine demo_limits b5"
    unfolding b5_def by (rule batch_reach.evict [OF r4 b4(1)]) (use b4 in simp_all)
  have b5: "phase b5 = Top" "seqs (bstate b5) = [1]" "queue b5 = []" "completed b5 = 1"
    "finished (seq_of b5 1)" "greedy (seq_of b5 1)" "issued (bworld b5) = {1}"
    using E(1) gone b0 b4 by (simp_all add: b5_def frame_simps finished_def abandon_def greedy_def issued_def b0_def)
  define b6 where "b6 = sched_step demo_engine demo_limits b5"
  have r6: "batch_reach demo_engine demo_limits b6" unfolding b6_def by (rule reach_sched_step [OF r5])
  have b6: "b6 = b5\<lparr>phase := Decoding\<rparr>"
    using b5 by (simp add: b6_def sched_step_def tick_top_def tick_take_def take_admissions_def Let_def)
  obtain st7 w7 where dec: "decode_step demo_engine (bstate b6) (bworld b6) = Inr (st7, w7)"
    using demo_decode_total [OF R(3) [OF r6]] b5 b6 by force
  note D = demo_sched.contract.ok_decode [OF R(2) [OF r6] dec]
  define b7 where "b7 = sched_step demo_engine demo_limits b6"
  have r7: "batch_reach demo_engine demo_limits b7" unfolding b7_def by (rule reach_sched_step [OF r6])
  have b7: "phase b7 = Evicting" "seqs (bstate b7) = [1]" "completed b7 = 1" "finished (seq_of b7 1)"
    "issued (bworld b7) = {1}"
    using dec D b5 b6 by (auto simp: b7_def sched_step_def tick_decode_def frame_simps evolves_def issued_def)
  obtain st8 gone8 where E8: "tick_evict demo_engine [] b7 = (complete_all demo_engine gone8 (b7\<lparr>bstate := st8\<rparr>))\<lparr>phase := Top\<rparr>"
    "gone8 = filter (\<lambda>j. finished (heap (bworld b7) j)) (seqs (bstate b7))"
    using demo_sched.contract.tick_evict_eq [OF R(2) [OF r7], of "[]"] by (metis leave_all.simps(1))
  define b9 where "b9 = sched_step demo_engine demo_limits b7"
  have "batch_reach demo_engine demo_limits b9" unfolding b9_def by (rule reach_sched_step [OF r7])
  moreover have "completed b9 = 2" "issued (bworld b9) = {1}"
    using E8 b7 by (simp_all add: b9_def sched_step_def frame_simps issued_def)
  ultimately show ?thesis by blast
qed

end
