(* ===== verification/Worker.thy ===== *)
theory Worker
  imports Batcher
begin

text \<open>
  \<open>worker/server/worker.py\<close>: the gRPC servicer over the scheduler.

  A handler is a coroutine that waits for the scheduler; it is modelled by the code before its
  await (\<open>generate_call\<close>) and the code after it (\<open>generate_return\<close>, \<open>generate_timeout\<close>), and a
  streaming handler by what it sends for each event of its stream. \<open>context.abort\<close> ends the call.
  The life of the process is in \<open>Service\<close>; how gRPC finds the handlers is in \<open>Rpc\<close>.
\<close>

section \<open>Messages\<close>

record generate_request =
  rq_prompt :: string
  rq_max_tokens :: int
  rq_temperature :: pyfloat
  rq_top_k :: int
  rq_top_p :: pyfloat
  rq_request_id :: string

record generate_response =
  rs_text :: string
  rs_prompt_tokens :: nat
  rs_completion_tokens :: nat
  rs_finish_reason :: string
  rs_request_id :: string

record token =
  tk_text :: string
  tk_done :: bool
  tk_finish_reason :: string

record health_response =
  hr_ready :: bool
  hr_model :: string
  hr_running :: nat
  hr_queued :: nat
  hr_max_batch_size :: int

datatype status_code = RESOURCE_EXHAUSTED | DEADLINE_EXCEEDED | UNIMPLEMENTED

datatype 'a rpc = Reply 'a | Abort status_code string | Crash exn

section \<open>Handlers\<close>

text \<open>An unset number arrives as zero; \<open>max_tokens\<close> and \<open>top_p\<close> then take a default of their own.\<close>

definition rpc_params :: "generate_request \<Rightarrow> sampling_params" where
  "rpc_params rq =
     \<lparr>max_tokens = (if rq_max_tokens rq = 0 then 50 else rq_max_tokens rq),
      temperature = rq_temperature rq, top_k = rq_top_k rq, top_p = py_or (rq_top_p rq) (Fin 1)\<rparr>"

definition queue_full_message :: "int \<Rightarrow> string" where
  "queue_full_message n = ''queue is full ('' @ py_str n @ '' waiting)''"

definition count_error :: "string \<Rightarrow> ('f, 'i, 'r) batcher \<Rightarrow> ('f, 'i, 'r) batcher" where
  "count_error status b = b\<lparr>registry := record_error status (registry b)\<rparr>"

text \<open>The \<open>except\<close> clauses shared by \<open>Generate\<close> and \<open>GenerateStream\<close>.\<close>

definition rpc_error :: "exn \<Rightarrow> ('f, 'i, 'r) batcher \<Rightarrow> 'a rpc \<times> ('f, 'i, 'r) batcher" where
  "rpc_error ex b = (case ex of
       QueueFullError n \<Rightarrow> (Abort RESOURCE_EXHAUSTED (queue_full_message n), count_error ''rejected'' b)
     | TimeoutError \<Rightarrow> (Abort DEADLINE_EXCEEDED ''generation timed out'', count_error ''timeout'' b)
     | _ \<Rightarrow> (Crash ex, b))"

definition to_response :: "result \<Rightarrow> generate_response" where
  "to_response res =
     \<lparr>rs_text = res_text res, rs_prompt_tokens = res_prompt_tokens res,
      rs_completion_tokens = res_completion_tokens res, rs_finish_reason = res_finish_reason res,
      rs_request_id = res_request_id res\<rparr>"

definition generate_call :: "('f, 'i, 'b, 'd, 'r) engine \<Rightarrow> limits \<Rightarrow> generate_request \<Rightarrow> string \<Rightarrow> bool \<Rightarrow>
    ('f, 'i, 'r) batcher \<Rightarrow> ('a rpc + nat) \<times> ('f, 'i, 'r) batcher" where
  "generate_call e L rq uuid streaming b =
     (case enqueue e L (rq_prompt rq) (Some (rpc_params rq)) (rq_request_id rq) uuid streaming b of
        (Inr i, b) \<Rightarrow> (Inr i, b)
      | (Inl ex, b) \<Rightarrow> (let (r, b) = rpc_error ex b in (Inl r, b)))"

definition generate_return :: "nat \<Rightarrow> ('f, 'i, 'r) batcher \<Rightarrow>
    (generate_response rpc \<times> ('f, 'i, 'r) batcher) option" where
  "generate_return i b = (case submit_result i b of
       None \<Rightarrow> None
     | Some (Inr res, b) \<Rightarrow> Some (Reply (to_response res), b)
     | Some (Inl ex, b) \<Rightarrow> Some (rpc_error ex b))"

definition generate_timeout :: "nat \<Rightarrow> ('f, 'i, 'r) batcher \<Rightarrow>
    generate_response rpc \<times> ('f, 'i, 'r) batcher" where
  "generate_timeout i b = rpc_error TimeoutError (submit_timeout i b)"

text \<open>What \<open>GenerateStream\<close> sends for an event: a token and on, the last token, or an abort.\<close>

datatype stream_reply = More token | Last token | Broken "unit rpc"

definition stream_handler :: "stream_event \<Rightarrow> ('f, 'i, 'r) batcher \<Rightarrow> stream_reply \<times> ('f, 'i, 'r) batcher" where
  "stream_handler ev b = (case ev of
       Piece t \<Rightarrow> (More \<lparr>tk_text = t, tk_done = False, tk_finish_reason = ''''\<rparr>, b)
     | Ended \<Rightarrow> (Last \<lparr>tk_text = '''', tk_done = True, tk_finish_reason = ''stop''\<rparr>, b)
     | Raised ex \<Rightarrow> (let (r, b) = rpc_error ex b in (Broken r, b)))"

definition stream_timeout :: "nat \<Rightarrow> ('f, 'i, 'r) batcher \<Rightarrow> stream_reply \<times> ('f, 'i, 'r) batcher" where
  "stream_timeout i b = stream_handler (Raised TimeoutError) (stream_left i b)"

text \<open>The handler's loop, as far as the queue can serve it, in at most \<open>n\<close> turns.\<close>

fun generate_stream :: "nat \<Rightarrow> nat \<Rightarrow> ('f, 'i, 'r) batcher \<Rightarrow> stream_reply list \<times> ('f, 'i, 'r) batcher" where
  "generate_stream 0 i b = ([], b)"
| "generate_stream (Suc n) i b = (case stream_next i b of
       None \<Rightarrow> ([], b)
     | Some (ev, b) \<Rightarrow>
         (case stream_handler ev b of
            (More tk, b) \<Rightarrow> (let (rs, b) = generate_stream n i b in (More tk # rs, b))
          | (r, b) \<Rightarrow> ([r], b)))"

definition health :: "('f, 'i, 'b, 'd, 'r) engine \<Rightarrow> limits \<Rightarrow> string \<Rightarrow> ('f, 'i, 'r) batcher \<Rightarrow> health_response" where
  "health e L model b =
     (let s = stats e L b
      in \<lparr>hr_ready = True, hr_model = model, hr_running = st_running s, hr_queued = st_queued s,
          hr_max_batch_size = st_max_batch_size s\<rparr>)"

text \<open>One turn of \<open>MetricsRefresher._run\<close>.\<close>

definition refresh :: "('f, 'i, 'b, 'd, 'r) engine \<Rightarrow> limits \<Rightarrow> ('f, 'i, 'r) batcher \<Rightarrow> ('f, 'i, 'r) batcher" where
  "refresh e L b = b\<lparr>registry := observe_batcher (stats e L b) (registry b)\<rparr>"

section \<open>What a consumer of a stream is sent\<close>

text \<open>The events of a stream until it ends, as far as the queue can serve it.\<close>

fun stream_events :: "nat \<Rightarrow> nat \<Rightarrow> ('f, 'i, 'r) batcher \<Rightarrow> stream_event list" where
  "stream_events 0 i b = []"
| "stream_events (Suc n) i b = (case stream_next i b of
       Some (Piece t, b) \<Rightarrow> Piece t # stream_events n i b
     | Some (ev, b) \<Rightarrow> [ev]
     | None \<Rightarrow> [])"

text \<open>A queue closed by the sentinel is handed over piece by piece, then the future decides the end.\<close>

lemma stream_events_closed:
  assumes "stream (reqs b i) = Some q" "items q = map Some ts @ [None]" "taken q + length us = length ts"
    "us = drop (taken q) ts" "future (reqs b i) = Resolved res"
  shows "stream_events (Suc (length us)) i b = map Piece us @ [Ended]"
  using assms
proof (induction us arbitrary: b q)
  case Nil
  then have "taken q = length ts" by simp
  then have "stream_get (reqs b i) = Some (None, (reqs b i)\<lparr>stream := Some (q\<lparr>taken := Suc (taken q)\<rparr>)\<rparr>)"
    using Nil by (simp add: stream_get_def nth_append)
  then show ?case using Nil.prems(5) by (simp add: stream_next_def)
next
  case (Cons u us)
  have lt: "taken q < length ts" using Cons.prems(3) by simp
  have u: "ts ! taken q = u" "us = drop (Suc (taken q)) ts"
    by (metis Cons_nth_drop_Suc [OF lt] Cons.prems(4) list.inject)+
  let ?r = "(reqs b i)\<lparr>stream := Some (q\<lparr>taken := Suc (taken q)\<rparr>)\<rparr>"
  have "stream_get (reqs b i) = Some (Some u, ?r)"
    using Cons.prems(1,2) lt u(1) by (simp add: stream_get_def nth_append)
  then have nx: "stream_next i b = Some (Piece u, set_req i (\<lambda>_. ?r) b)"
    by (simp add: stream_next_def)
  have "stream_events (Suc (length us)) i (set_req i (\<lambda>_. ?r) b) = map Piece us @ [Ended]"
    by (rule Cons.IH [of _ "q\<lparr>taken := Suc (taken q)\<rparr>"])
      (use Cons.prems u in \<open>simp_all add: set_req_def\<close>)
  then show ?case
    unfolding stream_events.simps(2) [of "length (u # us)"] nx
    by (simp del: stream_events.simps)
qed

text \<open>The gRPC handler sends one message for each event.\<close>

definition event_reply :: "stream_event \<Rightarrow> stream_reply" where
  "event_reply ev = (case ev of
       Piece t \<Rightarrow> More \<lparr>tk_text = t, tk_done = False, tk_finish_reason = ''''\<rparr>
     | Ended \<Rightarrow> Last \<lparr>tk_text = '''', tk_done = True, tk_finish_reason = ''stop''\<rparr>
     | Raised ex \<Rightarrow> Broken (case ex of
           QueueFullError n \<Rightarrow> Abort RESOURCE_EXHAUSTED (queue_full_message n)
         | TimeoutError \<Rightarrow> Abort DEADLINE_EXCEEDED ''generation timed out''
         | _ \<Rightarrow> Crash ex))"

lemma stream_handler_reply: "fst (stream_handler ev b) = event_reply ev"
  by (auto simp: stream_handler_def event_reply_def rpc_error_def split: stream_event.split exn.split)

lemma generate_stream_events:
  "fst (generate_stream n i b) = map event_reply (stream_events n i b)"
proof (induction n arbitrary: b)
  case 0
  show ?case by simp
next
  case (Suc n)
  show ?case
  proof (cases "stream_next i b")
    case None
    then show ?thesis by simp
  next
    case (Some p)
    obtain ev b1 where p: "p = (ev, b1)" by fastforce
    obtain rs b2 where g: "generate_stream n i b1 = (rs, b2)" by fastforce
    show ?thesis
      using Some p Suc.IH [of b1] g
      by (cases ev) (simp_all add: stream_handler_def event_reply_def rpc_error_def split: prod.splits exn.splits)
  qed
qed

end
