(* ===== verification/Api.thy ===== *)
theory Api
  imports Worker
begin

text \<open>
  \<open>worker/server/api.py\<close>: the HTTP surface. Handlers are modelled as in \<open>Worker\<close>. The framework's
  routing, response classes and the metrics text format are not modelled; the two response shapes
  the code builds itself are: the completion body and the server-sent events, whose payloads
  \<open>json.dumps\<close> renders.
\<close>

section \<open>Requests and responses\<close>

record completion_request =
  c_prompt :: string
  c_max_tokens :: int
  c_temperature :: pyfloat
  c_top_k :: int
  c_top_p :: pyfloat
  c_stream :: bool

definition new_completion :: "string \<Rightarrow> completion_request" where
  "new_completion prompt = \<lparr>c_prompt = prompt, c_max_tokens = 50, c_temperature = Fin 0, c_top_k = 0,
     c_top_p = Fin 1, c_stream = False\<rparr>"

text \<open>The bounds the fields declare; the framework refuses a body outside them.\<close>

definition valid_body :: "completion_request \<Rightarrow> bool" where
  "valid_body body \<longleftrightarrow> 1 \<le> c_max_tokens body \<and>
     fle (Fin 0) (c_temperature body) \<and> fle (c_temperature body) (Fin 2) \<and> 0 \<le> c_top_k body \<and>
     flt (Fin 0) (c_top_p body) \<and> fle (c_top_p body) (Fin 1)"

definition sampling :: "completion_request \<Rightarrow> sampling_params" where
  "sampling body = \<lparr>max_tokens = c_max_tokens body, temperature = c_temperature body,
     top_k = c_top_k body, top_p = c_top_p body\<rparr>"

record usage =
  u_prompt_tokens :: nat
  u_completion_tokens :: nat
  u_total_tokens :: nat

record completion_response =
  cr_id :: string
  cr_object :: string
  cr_created :: int
  cr_model :: string
  cr_text :: string
  cr_finish_reason :: string
  cr_usage :: usage

datatype 'a http = Body 'a | HttpError nat string | Unhandled exn

section \<open>Completions\<close>

definition get_batcher :: "'a option \<Rightarrow> 'a http" where
  "get_batcher b = (case b of None \<Rightarrow> HttpError 503 ''engine is still starting'' | Some b \<Rightarrow> Body b)"

definition completion_id :: "string \<Rightarrow> string" where
  "completion_id uuid = ''cmpl-'' @ take 16 uuid"

definition http_error :: "exn \<Rightarrow> ('f, 'i, 'r) batcher \<Rightarrow> 'a http \<times> ('f, 'i, 'r) batcher" where
  "http_error ex b = (case ex of
       QueueFullError n \<Rightarrow> (HttpError 503 (queue_full_message n), count_error ''rejected'' b)
     | TimeoutError \<Rightarrow> (HttpError 504 ''generation timed out'', count_error ''timeout'' b)
     | _ \<Rightarrow> (Unhandled ex, b))"

definition completions_call :: "('f, 'i, 'b, 'd, 'r) engine \<Rightarrow> limits \<Rightarrow> completion_request \<Rightarrow> string \<Rightarrow>
    string \<Rightarrow> ('f, 'i, 'r) batcher \<Rightarrow> (completion_response http + nat) \<times> ('f, 'i, 'r) batcher" where
  "completions_call e L body uuid uuid' b =
     (case enqueue e L (c_prompt body) (Some (sampling body)) (completion_id uuid) uuid' False b of
        (Inr i, b) \<Rightarrow> (Inr i, b)
      | (Inl ex, b) \<Rightarrow> (let (r, b) = http_error ex b in (Inl r, b)))"

definition to_completion :: "string \<Rightarrow> string \<Rightarrow> int \<Rightarrow> result \<Rightarrow> completion_response" where
  "to_completion cid model created res =
     \<lparr>cr_id = cid, cr_object = ''text_completion'', cr_created = created, cr_model = model,
      cr_text = res_text res, cr_finish_reason = res_finish_reason res,
      cr_usage = \<lparr>u_prompt_tokens = res_prompt_tokens res, u_completion_tokens = res_completion_tokens res,
                  u_total_tokens = res_prompt_tokens res + res_completion_tokens res\<rparr>\<rparr>"

definition completions_return :: "string \<Rightarrow> string \<Rightarrow> int \<Rightarrow> nat \<Rightarrow> ('f, 'i, 'r) batcher \<Rightarrow>
    (completion_response http \<times> ('f, 'i, 'r) batcher) option" where
  "completions_return cid model created i b = (case submit_result i b of
       None \<Rightarrow> None
     | Some (Inr res, b) \<Rightarrow> Some (Body (to_completion cid model created res), b)
     | Some (Inl ex, b) \<Rightarrow> Some (http_error ex b))"

definition completions_timeout :: "nat \<Rightarrow> ('f, 'i, 'r) batcher \<Rightarrow>
    completion_response http \<times> ('f, 'i, 'r) batcher" where
  "completions_timeout i b = http_error TimeoutError (submit_timeout i b)"

section \<open>Server-sent events\<close>

text \<open>\<open>json.dumps\<close> of a string, as it is by default: everything but printable ASCII is escaped.\<close>

definition hex_digit :: "nat \<Rightarrow> char" where
  "hex_digit n = (if n < 10 then char_of (48 + n) else char_of (87 + n))"

definition json_char :: "char \<Rightarrow> string" where
  "json_char c =
     (let n = of_char c :: nat
      in if n = 34 then [CHR 0x5C, CHR 0x22]
         else if n = 92 then [CHR 0x5C, CHR 0x5C]
         else if n = 10 then [CHR 0x5C, CHR ''n'']
         else if n = 13 then [CHR 0x5C, CHR ''r'']
         else if n = 9 then [CHR 0x5C, CHR ''t'']
         else if n = 12 then [CHR 0x5C, CHR ''f'']
         else if n = 8 then [CHR 0x5C, CHR ''b'']
         else if 32 \<le> n \<and> n \<le> 126 then [c]
         else [CHR 0x5C, CHR ''u'', CHR ''0'', CHR ''0'', hex_digit (n div 16), hex_digit (n mod 16)])"

definition json_string :: "string \<Rightarrow> string" where
  "json_string s = CHR 0x22 # concat (map json_char s) @ [CHR 0x22]"

text \<open>A payload is an object of strings and nulls, in the order the code writes it.\<close>

definition json_member :: "string \<times> string option \<Rightarrow> string" where
  "json_member kv = json_string (fst kv) @ '': '' @ (case snd kv of None \<Rightarrow> ''null'' | Some v \<Rightarrow> json_string v)"

fun json_members :: "(string \<times> string option) list \<Rightarrow> string" where
  "json_members [] = ''''"
| "json_members [m] = json_member m"
| "json_members (m # ms) = json_member m @ '', '' @ json_members ms"

definition json_object :: "(string \<times> string option) list \<Rightarrow> string" where
  "json_object ms = ''{'' @ json_members ms @ ''}''"

definition sse_data :: "string \<Rightarrow> string" where
  "sse_data payload = ''data: '' @ payload @ [CHR 0x0A, CHR 0x0A]"

definition piece_payload :: "string \<Rightarrow> string \<Rightarrow> string" where
  "piece_payload cid t = json_object [(''id'', Some cid), (''text'', Some t), (''finish_reason'', None)]"

definition final_payload :: "string \<Rightarrow> string" where
  "final_payload cid = json_object [(''id'', Some cid), (''text'', Some ''''), (''finish_reason'', Some ''stop'')]"

definition error_payload :: "int \<Rightarrow> string" where
  "error_payload n = json_object [(''error'', Some (queue_full_message n))]"

text \<open>
  What \<open>_sse\<close> yields for an event, and whether it ends there. A timeout is not caught, and leaves
  the generator with the exception.
\<close>

datatype sse_reply = Frames "string list" | Done "string list" | Torn exn

definition sse_handler :: "string \<Rightarrow> stream_event \<Rightarrow> ('f, 'i, 'r) batcher \<Rightarrow> sse_reply \<times> ('f, 'i, 'r) batcher" where
  "sse_handler cid ev b = (case ev of
       Piece t \<Rightarrow> (Frames [sse_data (piece_payload cid t)], b)
     | Ended \<Rightarrow> (Done [sse_data (final_payload cid), sse_data ''[DONE]''], b)
     | Raised (QueueFullError n) \<Rightarrow>
         (Done [sse_data (error_payload n), sse_data ''[DONE]''], count_error ''rejected'' b)
     | Raised ex \<Rightarrow> (Torn ex, b))"

definition sse_call :: "('f, 'i, 'b, 'd, 'r) engine \<Rightarrow> limits \<Rightarrow> completion_request \<Rightarrow> string \<Rightarrow>
    string \<Rightarrow> ('f, 'i, 'r) batcher \<Rightarrow> (sse_reply + nat) \<times> ('f, 'i, 'r) batcher" where
  "sse_call e L body cid uuid b =
     (case enqueue e L (c_prompt body) (Some (sampling body)) cid uuid True b of
        (Inr i, b) \<Rightarrow> (Inr i, b)
      | (Inl ex, b) \<Rightarrow> (let (r, b) = sse_handler cid (Raised ex) b in (Inl r, b)))"

fun sse_stream :: "string \<Rightarrow> nat \<Rightarrow> nat \<Rightarrow> ('f, 'i, 'r) batcher \<Rightarrow> string list \<times> ('f, 'i, 'r) batcher" where
  "sse_stream cid 0 i b = ([], b)"
| "sse_stream cid (Suc n) i b = (case stream_next i b of
       None \<Rightarrow> ([], b)
     | Some (ev, b) \<Rightarrow>
         (case sse_handler cid ev b of
            (Frames fs, b) \<Rightarrow> (let (rs, b) = sse_stream cid n i b in (fs @ rs, b))
          | (Done fs, b) \<Rightarrow> (fs, b)
          | (Torn ex, b) \<Rightarrow> ([], b)))"

section \<open>Health\<close>

record health_body =
  hb_ready :: bool
  hb_model :: string
  hb_device :: string
  hb_stats :: batcher_stats

definition health_check :: "('f, 'i, 'b, 'd, 'r) engine \<Rightarrow> limits \<Rightarrow> string \<Rightarrow> string \<Rightarrow>
    ('f, 'i, 'r) batcher option \<Rightarrow> nat \<times> health_body option" where
  "health_check e L model dev b = (case b of
       None \<Rightarrow> (503, None)
     | Some b \<Rightarrow> (200, Some \<lparr>hb_ready = True, hb_model = model, hb_device = dev, hb_stats = stats e L b\<rparr>))"

definition stats_endpoint :: "('f, 'i, 'b, 'd, 'r) engine \<Rightarrow> limits \<Rightarrow> ('f, 'i, 'r) batcher option \<Rightarrow>
    batcher_stats http" where
  "stats_endpoint e L b = (case get_batcher b of
       Body b \<Rightarrow> Body (stats e L b)
     | HttpError c m \<Rightarrow> HttpError c m
     | Unhandled ex \<Rightarrow> Unhandled ex)"

definition metrics_endpoint :: "('f, 'i, 'b, 'd, 'r) engine \<Rightarrow> limits \<Rightarrow> ('f, 'i, 'r) batcher option \<Rightarrow>
    ('f, 'i, 'r) batcher option" where
  "metrics_endpoint e L b = map_option (\<lambda>b. b\<lparr>registry := observe_batcher (stats e L b) (registry b)\<rparr>) b"

section \<open>A client of the event stream\<close>

text \<open>The reference reader of server-sent events: the text after \<open>data: \<close> of each line that has one.\<close>

fun split_lines :: "string \<Rightarrow> string \<Rightarrow> string list" where
  "split_lines acc [] = [rev acc]"
| "split_lines acc (c # cs) = (if c = CHR 0x0A then rev acc # split_lines [] cs else split_lines (c # acc) cs)"

definition read_events :: "string \<Rightarrow> string list" where
  "read_events s = map (drop 6) (filter (\<lambda>l. take 6 l = ''data: '') (split_lines [] s))"

text \<open>The reference reader of a JSON string, after its opening quote: its value and what follows.\<close>

definition hex_value :: "char \<Rightarrow> nat" where
  "hex_value c = (let n = of_char c in if n < 58 then n - 48 else n - 87)"

definition unescape :: "char \<Rightarrow> char" where
  "unescape c = (if c = CHR ''n'' then CHR 0x0A else if c = CHR ''r'' then CHR 0x0D
     else if c = CHR ''t'' then CHR 0x09 else if c = CHR ''f'' then CHR 0x0C
     else if c = CHR ''b'' then CHR 0x08 else c)"

fun read_string :: "string \<Rightarrow> (string \<times> string) option" where
  "read_string [] = None"
| "read_string (c # cs) =
     (if c = CHR 0x22 then Some ([], cs)
      else if c = CHR 0x5C then
        (case cs of
           [] \<Rightarrow> None
         | d # ds \<Rightarrow>
             if d = CHR ''u'' then
               (case ds of
                  a1 # a2 # a3 # a4 # es \<Rightarrow>
                    map_option (\<lambda>(v, r). (char_of (16 * hex_value a3 + hex_value a4) # v, r)) (read_string es)
                | _ \<Rightarrow> None)
             else map_option (\<lambda>(v, r). (unescape d # v, r)) (read_string ds))
      else map_option (\<lambda>(v, r). (c # v, r)) (read_string cs))"

definition read_value :: "string \<Rightarrow> (string option \<times> string) option" where
  "read_value s =
     (if take 4 s = ''null'' then Some (None, drop 4 s)
      else if take 1 s = [CHR 0x22] then map_option (\<lambda>(v, r). (Some v, r)) (read_string (drop 1 s))
      else None)"

definition read_member :: "string \<Rightarrow> ((string \<times> string option) \<times> string) option" where
  "read_member s =
     (if take 1 s = [CHR 0x22] then
        (case read_string (drop 1 s) of
           None \<Rightarrow> None
         | Some (k, r) \<Rightarrow>
             if take 2 r = '': '' then map_option (\<lambda>(v, r). ((k, v), r)) (read_value (drop 2 r)) else None)
      else None)"

fun read_members :: "nat \<Rightarrow> string \<Rightarrow> ((string \<times> string option) list \<times> string) option" where
  "read_members 0 s = None"
| "read_members (Suc n) s = (case read_member s of
       None \<Rightarrow> None
     | Some (m, r) \<Rightarrow>
         if take 2 r = '', '' then map_option (\<lambda>(ms, r). (m # ms, r)) (read_members n (drop 2 r))
         else Some ([m], r))"

definition read_object :: "string \<Rightarrow> (string \<times> string option) list option" where
  "read_object s =
     (if take 1 s = ''{'' then
        (case read_members (length s) (drop 1 s) of
           Some (ms, r) \<Rightarrow> if r = ''}'' then Some ms else None
         | None \<Rightarrow> None)
      else None)"

section \<open>The client reads what the server wrote\<close>

lemma hex_digit_value: "n < 16 \<Longrightarrow> hex_value (hex_digit n) = n"
  by (auto simp: hex_value_def hex_digit_def)

lemma hex_digit_line: "n < 16 \<Longrightarrow> hex_digit n \<noteq> CHR 0x0A"
proof
  assume n: "n < 16" and eq: "hex_digit n = CHR 0x0A"
  have "(of_char (hex_digit n) :: nat) \<noteq> 10" using n by (auto simp: hex_digit_def)
  then show False by (simp add: eq)
qed

lemma char_codes:
  "(of_char c :: nat) = 34 \<longleftrightarrow> c = CHR 0x22" "(of_char c :: nat) = 92 \<longleftrightarrow> c = CHR 0x5C"
  "(of_char c :: nat) = 10 \<longleftrightarrow> c = CHR 0x0A" "(of_char c :: nat) = 13 \<longleftrightarrow> c = CHR 0x0D"
  "(of_char c :: nat) = 9 \<longleftrightarrow> c = CHR 0x09" "(of_char c :: nat) = 12 \<longleftrightarrow> c = CHR 0x0C"
  "(of_char c :: nat) = 8 \<longleftrightarrow> c = CHR 0x08"
  using of_char_eq_iff [where ?'a = nat, of c "CHR 0x22"] of_char_eq_iff [where ?'a = nat, of c "CHR 0x5C"]
    of_char_eq_iff [where ?'a = nat, of c "CHR 0x0A"] of_char_eq_iff [where ?'a = nat, of c "CHR 0x0D"]
    of_char_eq_iff [where ?'a = nat, of c "CHR 0x09"] of_char_eq_iff [where ?'a = nat, of c "CHR 0x0C"]
    of_char_eq_iff [where ?'a = nat, of c "CHR 0x08"]
  by simp_all

lemma hex_pair: "char_of (16 * hex_value (hex_digit (of_char c div 16)) + hex_value (hex_digit (of_char c mod 16))) = c"
proof -
  have "(of_char c :: nat) < 256" by simp
  then have "(of_char c :: nat) div 16 < 16" "(of_char c :: nat) mod 16 < 16"
    by (simp_all add: less_mult_imp_div_less)
  then show ?thesis by (simp add: hex_digit_value)
qed

lemma read_json_char: "read_string (json_char c @ cs) = map_option (\<lambda>(v, r). (c # v, r)) (read_string cs)"
  by (simp add: json_char_def Let_def char_codes unescape_def hex_pair)

lemma read_json_string: "read_string (concat (map json_char s) @ CHR 0x22 # rest) = Some (s, rest)"
  by (induction s) (simp_all add: read_json_char)

lemma json_char_line: "CHR 0x0A \<notin> set (json_char c)"
proof -
  have "(of_char c :: nat) < 256" by simp
  then have d: "(of_char c :: nat) div 16 < 16" "(of_char c :: nat) mod 16 < 16"
    by (simp_all add: less_mult_imp_div_less)
  then have "CHR 0x0A \<noteq> hex_digit (of_char c div 16)" "CHR 0x0A \<noteq> hex_digit (of_char c mod 16)"
    using hex_digit_line [OF d(1)] hex_digit_line [OF d(2)] by simp_all
  then show ?thesis by (auto simp: json_char_def Let_def char_codes)
qed

lemma json_string_line: "CHR 0x0A \<notin> set (json_string s)"
  using json_char_line by (auto simp: json_string_def)

lemma json_members_line: "CHR 0x0A \<notin> set (json_members ms)"
  using json_string_line
  by (induction ms rule: json_members.induct) (auto simp: json_member_def split: option.splits)

lemma json_object_line: "CHR 0x0A \<notin> set (json_object ms)"
  using json_members_line by (simp add: json_object_def)

text \<open>A member, read back.\<close>

lemma read_json_value: "\<exists>v. x = Some v \<or> x = None \<Longrightarrow>
    read_value ((case x of None \<Rightarrow> ''null'' | Some v \<Rightarrow> json_string v) @ rest) = Some (x, rest)"
  using read_json_string by (cases x) (simp_all add: read_value_def json_string_def)

lemma read_json_member: "read_member (json_member m @ rest) = Some (m, rest)"
proof -
  obtain k x where m: "m = (k, x)" by fastforce
  have "read_value ((case x of None \<Rightarrow> ''null'' | Some v \<Rightarrow> json_string v) @ rest) = Some (x, rest)"
    by (rule read_json_value) auto
  then show ?thesis
    by (simp add: m json_member_def json_string_def [of k] read_member_def read_json_string)
qed

lemma read_json_members:
  "ms \<noteq> [] \<Longrightarrow> length ms \<le> n \<Longrightarrow> read_members n (json_members ms @ ''}'') = Some (ms, ''}'')"
proof (induction ms arbitrary: n rule: json_members.induct)
  case 1
  then show ?case by simp
next
  case (2 m)
  then show ?case by (cases n) (simp_all add: read_json_member)
next
  case (3 m m' ms)
  obtain k where k: "n = Suc k" using 3(3) by (cases n) simp_all
  have "read_members k (json_members (m' # ms) @ ''}'') = Some (m' # ms, ''}'')"
    using 3 k by simp
  then show ?case
    unfolding k json_members.simps(3) append_assoc by (simp add: read_json_member del: json_members.simps)
qed

lemma length_json_members: "length ms \<le> length (json_members ms)"
  by (induction ms rule: json_members.induct) (simp_all add: json_member_def json_string_def)

lemma read_json_object: "ms \<noteq> [] \<Longrightarrow> read_object (json_object ms) = Some ms"
  using read_json_members [of ms "length (json_object ms)"] length_json_members [of ms]
  by (simp add: read_object_def json_object_def)

text \<open>Frames, read back line by line.\<close>

lemma split_lines_line:
  "CHR 0x0A \<notin> set xs \<Longrightarrow> split_lines acc (xs @ CHR 0x0A # ys) = (rev acc @ xs) # split_lines [] ys"
  by (induction xs arbitrary: acc) auto

lemma read_events_data:
  assumes "CHR 0x0A \<notin> set p"
  shows "read_events (sse_data p @ rest) = p # read_events rest"
proof -
  have "split_lines [] (sse_data p @ rest) = (''data: '' @ p) # [] # split_lines [] rest"
    using split_lines_line [of "''data: '' @ p" "[]" "CHR 0x0A # rest"] assms by (simp add: sse_data_def)
  then show ?thesis by (simp add: read_events_def)
qed

lemma read_events_nil [simp]: "read_events [] = []"
  by (simp add: read_events_def)

lemma read_events_frames:
  "\<forall>p\<in>set ps. CHR 0x0A \<notin> set p \<Longrightarrow> read_events (concat (map sse_data ps)) = ps"
  by (induction ps) (simp_all add: read_events_data)

text \<open>The generator yields the frames of each event.\<close>

definition event_frames :: "string \<Rightarrow> stream_event \<Rightarrow> string list" where
  "event_frames cid ev = (case ev of
       Piece t \<Rightarrow> [sse_data (piece_payload cid t)]
     | Ended \<Rightarrow> [sse_data (final_payload cid), sse_data ''[DONE]'']
     | Raised (QueueFullError n) \<Rightarrow> [sse_data (error_payload n), sse_data ''[DONE]'']
     | Raised ex \<Rightarrow> [])"

lemma sse_stream_events:
  "fst (sse_stream cid n i b) = concat (map (event_frames cid) (stream_events n i b))"
proof (induction n arbitrary: b)
  case 0
  show ?case by simp
next
  case (Suc n)
  show ?case
  proof (cases "stream_next i b")
    case None
    then show ?thesis by simp
  next
    case (Some p)
    obtain ev b1 where p: "p = (ev, b1)" by fastforce
    obtain rs b2 where g: "sse_stream cid n i b1 = (rs, b2)" by fastforce
    show ?thesis
      using Some p Suc.IH [of b1] g
      by (cases ev) (simp_all add: sse_handler_def event_frames_def split: exn.splits)
  qed
qed

end
