(* ===== verification/Service.thy ===== *)
theory Service
  imports BatcherLive Api
begin

text \<open>
  The two processes that own a scheduler: the gRPC worker (\<open>serve\<close> and \<open>MetricsRefresher\<close> of
  \<open>worker.py\<close>) and the HTTP application (\<open>lifespan\<close> of \<open>api.py\<close>). Both bring a scheduler up, serve
  calls and take it down; what happens while they serve is one step relation, \<open>served_step\<close>. The
  servers themselves are known by what they document: no call is served before the start
  returned, and a server stopped with a grace period returns when every call has ended, cancelling
  the ones that have not.
\<close>

section \<open>While calls are served\<close>

inductive served_step :: "('f, 'i, 'b, 'd, 'r) engine \<Rightarrow> limits \<Rightarrow> ('f, 'i, 'r) batcher \<Rightarrow> ('f, 'i, 'r) batcher \<Rightarrow> bool"
  for e :: "('f, 'i, 'b, 'd, 'r) engine" and L :: limits where
  run: "served_step e L b (sched_step e L b)"
| evict: "phase b = Evicting \<Longrightarrow> \<forall>i\<in>set is. i \<in> set (running b) \<and> caller (reqs b i) = Waiting \<Longrightarrow> distinct is \<Longrightarrow>
    served_step e L b (tick_evict e is b)"
| elapse: "clock_reads (bworld b) \<le> c \<Longrightarrow>
    served_step e L b (b\<lparr>bworld := (bworld b)\<lparr>clock_reads := c, rng := g\<rparr>\<rparr>)"
| call: "enqueue e L prompt ps rid uuid streaming b = (res, b') \<Longrightarrow> served_step e L b b'"
| timeout: "i \<in> issued (bworld b) \<Longrightarrow> caller (reqs b i) = Waiting \<Longrightarrow> stream (reqs b i) = None \<Longrightarrow>
    future (reqs b i) = Pending \<Longrightarrow> served_step e L b (submit_timeout i b)"
| hang_up: "i \<in> issued (bworld b) \<Longrightarrow> caller (reqs b i) = Waiting \<Longrightarrow> stream (reqs b i) = None \<Longrightarrow>
    served_step e L b (submit_cancelled i b)"
| left: "i \<in> issued (bworld b) \<Longrightarrow> caller (reqs b i) = Waiting \<Longrightarrow> stream (reqs b i) \<noteq> None \<Longrightarrow>
    served_step e L b (stream_left i b)"
| closed: "i \<in> issued (bworld b) \<Longrightarrow> caller (reqs b i) = Waiting \<Longrightarrow> stream (reqs b i) \<noteq> None \<Longrightarrow>
    served_step e L b (stream_closed i b)"
| get: "caller (reqs b i) = Waiting \<Longrightarrow> stream_get (reqs b i) = Some (x, r) \<Longrightarrow>
    served_step e L b (set_req i (\<lambda>_. r) b)"
| scrape: "served_step e L b (refresh e L b)"
| failed_call: "served_step e L b (count_error status b)"

lemma served_step_reach:
  assumes "served_step e L b b'" and "batch_reach e L b"
  shows "batch_reach e L b'"
  using assms
  by (induction rule: served_step.induct) (auto simp: refresh_def count_error_def intro: batch_reach.intros reach_sched_step)

lemma served_step_alive:
  assumes "served_step e L b b'" and "idle_inv b"
  shows "alive b' = alive b"
  using assms
  by (induction rule: served_step.induct)
    (auto simp: sched_step_alive refresh_def count_error_def submit_timeout_def submit_cancelled_def stream_left_def
      stream_closed_def frame_simps dest: enqueue_phase)

section \<open>The gRPC worker\<close>

text \<open>Where \<open>serve\<close> is: before the server's start returned, waiting for a signal, in \<open>server.stop\<close>, and
  after each of the three stops.\<close>

datatype stage = Booting | Accepting | Draining | Drained | Unmonitored | Halted

record ('f, 'i, 'r) process =
  p_batcher :: "('f, 'i, 'r) batcher"
  p_stage :: stage
  p_refresher :: bool
  p_stop :: bool

text \<open>
  Up to \<open>server.start()\<close> nothing gives up control. Loading the engine, the exporter's port or the
  worker's own port may raise, and nothing in \<open>serve\<close> catches it.
\<close>

definition refresher_start :: "('f, 'i, 'r) process \<Rightarrow> ('f, 'i, 'r) process" where
  "refresher_start p = p\<lparr>p_refresher := True\<rparr>"

definition serve_boot :: "string \<Rightarrow> string \<Rightarrow> exn option \<Rightarrow> exn option \<Rightarrow> exn option \<Rightarrow> (nat \<Rightarrow> request) \<Rightarrow>
    'r world \<Rightarrow> exn + ('f, 'i, 'r) process" where
  "serve_boot model dev load_fails exporter_fails bind_fails rs w =
     (case load_fails of Some ex \<Rightarrow> Inl ex
      | None \<Rightarrow>
          let b = new_batcher rs w;
              b = start (b\<lparr>registry := set_model_info model dev (registry b)\<rparr>);
              p = refresher_start \<lparr>p_batcher = b, p_stage = Booting, p_refresher = False, p_stop = False\<rparr>
          in case exporter_fails of Some ex \<Rightarrow> Inl ex
             | None \<Rightarrow> (case bind_fails of Some ex \<Rightarrow> Inl ex | None \<Rightarrow> Inr p))"

definition serve_listen :: "('f, 'i, 'r) process \<Rightarrow> ('f, 'i, 'r) process" where
  "serve_listen p = p\<lparr>p_stage := Accepting\<rparr>"

text \<open>A signal sets the event, where the platform lets the loop handle signals.\<close>

definition on_signal :: "bool \<Rightarrow> ('f, 'i, 'r) process \<Rightarrow> ('f, 'i, 'r) process" where
  "on_signal handled p = (if handled then p\<lparr>p_stop := True\<rparr> else p)"

text \<open>\<open>await stop.wait()\<close>: it returns when the event is set, and an interrupt or a cancellation ends it too.\<close>

definition serve_wait :: "bool \<Rightarrow> ('f, 'i, 'r) process \<Rightarrow> ('f, 'i, 'r) process" where
  "serve_wait interrupted p = (if p_stop p \<or> interrupted then p\<lparr>p_stage := Draining\<rparr> else p)"

text \<open>
  The end of the grace period. Every call still there is cancelled: a unary one at its future, a stream
  at its queue, or, when it was being written, by closing the generator (\<open>C\<close> lists those). For a call
  that already has its answer this only notes that it is over.
\<close>

definition cancel_call :: "nat list \<Rightarrow> nat \<Rightarrow> ('f, 'i, 'r) batcher \<Rightarrow> ('f, 'i, 'r) batcher" where
  "cancel_call C i b =
     (if stream (reqs b i) = None then submit_cancelled i b
      else if i \<in> set C then stream_closed i b else stream_left i b)"

definition open_calls :: "('f, 'i, 'r) batcher \<Rightarrow> nat list" where
  "open_calls b = filter (\<lambda>i. caller (reqs b i) = Waiting) [1..<next_seq_id (bworld b)]"

definition server_stopped :: "nat list \<Rightarrow> ('f, 'i, 'r) process \<Rightarrow> ('f, 'i, 'r) process" where
  "server_stopped C p = p\<lparr>p_batcher := fold (cancel_call C) (open_calls (p_batcher p)) (p_batcher p), p_stage := Drained\<rparr>"

definition refresher_stop :: "('f, 'i, 'r) process \<Rightarrow> ('f, 'i, 'r) process" where
  "refresher_stop p = p\<lparr>p_refresher := False, p_stage := Unmonitored\<rparr>"

definition batcher_stop :: "('f, 'i, 'r) process \<Rightarrow> ('f, 'i, 'r) process" where
  "batcher_stop p = p\<lparr>p_batcher := stop (p_batcher p), p_stage := Halted\<rparr>"

abbreviation handling :: "('f, 'i, 'r) process \<Rightarrow> bool" where
  "handling p \<equiv> p_stage p = Accepting \<or> p_stage p = Draining"

text \<open>A call the server took before it was told to stop may reach its handler while it drains. The
  scheduler and the refresher run at every await.\<close>

inductive worker_reach :: "('f, 'i, 'b, 'd, 'r) engine \<Rightarrow> limits \<Rightarrow> ('f, 'i, 'r) process \<Rightarrow> bool"
  for e :: "('f, 'i, 'b, 'd, 'r) engine" and L :: limits where
  boot: "next_seq_id w = 1 \<Longrightarrow> serve_boot model dev None None None rs w = Inr p \<Longrightarrow> worker_reach e L p"
| listen: "worker_reach e L p \<Longrightarrow> p_stage p = Booting \<Longrightarrow> worker_reach e L (serve_listen p)"
| served: "worker_reach e L p \<Longrightarrow> handling p \<Longrightarrow> served_step e L (p_batcher p) b \<Longrightarrow>
    worker_reach e L (p\<lparr>p_batcher := b\<rparr>)"
| run: "worker_reach e L p \<Longrightarrow> worker_reach e L (p\<lparr>p_batcher := sched_step e L (p_batcher p)\<rparr>)"
| elapse: "worker_reach e L p \<Longrightarrow> clock_reads (bworld (p_batcher p)) \<le> c \<Longrightarrow>
    worker_reach e L (p\<lparr>p_batcher := (p_batcher p)\<lparr>bworld := (bworld (p_batcher p))\<lparr>clock_reads := c, rng := g\<rparr>\<rparr>\<rparr>)"
| refreshed: "worker_reach e L p \<Longrightarrow> p_refresher p \<Longrightarrow> worker_reach e L (p\<lparr>p_batcher := refresh e L (p_batcher p)\<rparr>)"
| signal: "worker_reach e L p \<Longrightarrow> p_stage p = Accepting \<Longrightarrow> worker_reach e L (on_signal handled p)"
| woken: "worker_reach e L p \<Longrightarrow> p_stage p = Accepting \<Longrightarrow> worker_reach e L (serve_wait interrupted p)"
| server_down: "worker_reach e L p \<Longrightarrow> p_stage p = Draining \<Longrightarrow> worker_reach e L (server_stopped C p)"
| refresher_down: "worker_reach e L p \<Longrightarrow> p_stage p = Drained \<Longrightarrow> worker_reach e L (refresher_stop p)"
| batcher_down: "worker_reach e L p \<Longrightarrow> p_stage p = Unmonitored \<Longrightarrow> worker_reach e L (batcher_stop p)"

section \<open>What holds at every stage\<close>

text \<open>A process that hosts a scheduler keeps it alive as long as it serves calls.\<close>

locale host =
  fixes e :: "('f, 'i, 'b, 'd, 'r) engine" and L :: limits
    and reach :: "'p \<Rightarrow> bool" and serves :: "'p \<Rightarrow> ('f, 'i, 'r) batcher \<Rightarrow> bool"
  assumes hosted: "reach p \<Longrightarrow> serves p b \<Longrightarrow> batch_reach e L b \<and> alive b"
begin

text \<open>So whatever it serves ends: the loop left alone empties queue and batch.\<close>

lemma hosted_drains:
  assumes "windowed e amax fdiv sortd order smax csum fsub dims vocab lm"
    and "reach p" and "serves p b" and "1 \<le> lim_batch L" and "unbounded_clock (clock (bworld b))"
  shows "\<exists>n. queue (sched_run e L n b) = [] \<and> running (sched_run e L n b) = [] \<and>
    (\<forall>i\<in>issued (bworld b). caller (reqs b i) = Waiting \<longrightarrow> future (reqs (sched_run e L n b) i) \<noteq> Pending)"
proof -
  note H = hosted [OF assms(2,3)]
  obtain n where n: "queue (sched_run e L n b) = []" "running (sched_run e L n b) = []"
    using windowed.reach_drains [OF assms(1)] H assms(4,5) by blast
  have "future (reqs (sched_run e L n b) i) \<noteq> Pending"
    if "i \<in> issued (bworld b)" "caller (reqs b i) = Waiting" for i
    using windowed.reach_outcome [OF assms(1) reach_sched_run, of L b i n] H that n sched_run_party [of e L n b i]
    by (simp add: outcome_ok_def held_def sched_run_issued party_def)
  then show ?thesis using n by blast
qed

end

text \<open>Nobody waits, and a scheduler that was taken down.\<close>

definition deserted :: "('f, 'i, 'r) batcher \<Rightarrow> bool" where
  "deserted b \<longleftrightarrow> (\<forall>i\<in>issued (bworld b). caller (reqs b i) = GaveUp)"

definition taken_down :: "('f, 'i, 'r) batcher \<Rightarrow> bool" where
  "taken_down b \<longleftrightarrow> \<not> alive b \<and> queue b = [] \<and> running b = [] \<and> bstate b = empty_state \<and> phase b = NoTask"

lemma sched_step_issued: "issued (bworld (sched_step e L b)) = issued (bworld b)"
  using sched_run_issued [of e L 1 b] by simp

lemma sched_step_caller: "caller (reqs (sched_step e L b) j) = caller (reqs b j)"
  using sched_step_party [of e L b j] by (simp add: party_def)

lemma deserted_run: "deserted b \<Longrightarrow> deserted (sched_step e L b)"
  by (simp add: deserted_def sched_step_issued sched_step_caller)

lemma taken_down_stop [simp]: "taken_down (stop b)"
  by (simp add: taken_down_def stop_def Let_def frame_simps)

lemma taken_down_run: "taken_down b \<Longrightarrow> sched_step e L b = b"
  by (simp add: taken_down_def sched_step_def)

lemma not_waiting: "caller r \<noteq> Waiting \<longleftrightarrow> caller r = GaveUp"
  by (cases "caller r") simp_all

text \<open>Cancelling the open calls.\<close>

lemma cancel_call_frame:
  "alive (cancel_call C i b) = alive b" "issued (bworld (cancel_call C i b)) = issued (bworld b)"
  "caller (reqs (cancel_call C i b) j) = (if j = i then GaveUp else caller (reqs b j))"
  by (auto simp: cancel_call_def submit_cancelled_def stream_closed_def stream_left_def frame_simps issued_def)

lemma cancel_call_step:
  assumes "i \<in> issued (bworld b)" "caller (reqs b i) = Waiting"
  shows "served_step e L b (cancel_call C i b)"
  using assms by (auto simp: cancel_call_def intro: served_step.intros)

lemma cancel_calls:
  assumes "batch_reach e L b" "distinct is" "\<forall>i\<in>set is. i \<in> issued (bworld b) \<and> caller (reqs b i) = Waiting"
  shows "batch_reach e L (fold (cancel_call C) is b) \<and> alive (fold (cancel_call C) is b) = alive b \<and>
    issued (bworld (fold (cancel_call C) is b)) = issued (bworld b) \<and>
    (\<forall>j. caller (reqs (fold (cancel_call C) is b) j) = (if j \<in> set is then GaveUp else caller (reqs b j)))"
  using assms
proof (induction "is" arbitrary: b)
  case Nil
  then show ?case by simp
next
  case (Cons i "is")
  have "batch_reach e L (cancel_call C i b)"
    by (rule served_step_reach [OF cancel_call_step]) (use Cons.prems in auto)
  moreover have "\<forall>j\<in>set is. j \<in> issued (bworld (cancel_call C i b)) \<and> caller (reqs (cancel_call C i b) j) = Waiting"
    using Cons.prems(2,3) by (auto simp: cancel_call_frame)
  ultimately show ?case
    using Cons.IH [of "cancel_call C i b"] Cons.prems(2) by (simp add: cancel_call_frame)
qed

lemma open_calls: "distinct (open_calls b)" "set (open_calls b) = {i \<in> issued (bworld b). caller (reqs b i) = Waiting}"
  by (auto simp: open_calls_def issued_def)

lemma server_stopped_calls:
  assumes "batch_reach e L (p_batcher p)"
  shows "batch_reach e L (p_batcher (server_stopped C p))" "deserted (p_batcher (server_stopped C p))"
    "alive (p_batcher (server_stopped C p)) = alive (p_batcher p)"
proof -
  have "\<forall>i\<in>set (open_calls (p_batcher p)). i \<in> issued (bworld (p_batcher p)) \<and> caller (reqs (p_batcher p) i) = Waiting"
    by (simp add: open_calls(2))
  note C = cancel_calls [OF assms open_calls(1) this, of C]
  show "batch_reach e L (p_batcher (server_stopped C p))" "deserted (p_batcher (server_stopped C p))"
    "alive (p_batcher (server_stopped C p)) = alive (p_batcher p)"
    using C not_waiting by (auto simp: server_stopped_def open_calls(2) deserted_def)
qed

text \<open>The invariant of the worker.\<close>

definition worker_inv :: "('f, 'i, 'b, 'd, 'r) engine \<Rightarrow> limits \<Rightarrow> ('f, 'i, 'r) process \<Rightarrow> bool" where
  "worker_inv e L p \<longleftrightarrow> batch_reach e L (p_batcher p) \<and>
     (case p_stage p of
        Booting \<Rightarrow> alive (p_batcher p) \<and> p_refresher p
      | Accepting \<Rightarrow> alive (p_batcher p) \<and> p_refresher p
      | Draining \<Rightarrow> alive (p_batcher p) \<and> p_refresher p
      | Drained \<Rightarrow> alive (p_batcher p) \<and> p_refresher p \<and> deserted (p_batcher p)
      | Unmonitored \<Rightarrow> alive (p_batcher p) \<and> \<not> p_refresher p \<and> deserted (p_batcher p)
      | Halted \<Rightarrow> taken_down (p_batcher p) \<and> \<not> p_refresher p \<and> deserted (p_batcher p))"

lemma worker_inv_batcher:
  assumes "worker_inv e L p" and "batch_reach e L b" and "alive b = alive (p_batcher p)"
    and "deserted (p_batcher p) \<Longrightarrow> deserted b" and "taken_down (p_batcher p) \<Longrightarrow> taken_down b"
  shows "worker_inv e L (p\<lparr>p_batcher := b\<rparr>)"
  using assms by (auto simp: worker_inv_def split: stage.splits)

lemma stop_deserted: "deserted b \<Longrightarrow> deserted (stop b)"
  by (auto simp: deserted_def stop_def Let_def reqs_cancel_futures settle_def frame_simps issued_def)

lemma worker_reach_inv: "worker_reach e L p \<Longrightarrow> worker_inv e L p"
proof (induction rule: worker_reach.induct)
  case (boot w model dev rs p)
  have "batch_reach e L (start ((new_batcher rs w)\<lparr>registry := set_model_info model dev new_registry\<rparr>))"
    using batch_reach.start [OF batch_reach.model_info [OF reach_fresh [OF boot(1)]]] by (simp add: new_batcher_def)
  then show ?case using boot(2)
    by (auto simp: serve_boot_def refresher_start_def worker_inv_def new_batcher_def start_def Let_def)
next
  case (listen p)
  then show ?case by (simp add: serve_listen_def worker_inv_def)
next
  case (served p b)
  have reach: "batch_reach e L (p_batcher p)" using served.IH by (simp add: worker_inv_def)
  then have "batch_reach e L b" "alive b = alive (p_batcher p)"
    using served_step_reach [OF served(3)] served_step_alive [OF served(3) reach_idle] by auto
  then show ?case using served.IH served(2) by (auto simp: worker_inv_def)
next
  case (run p)
  have reach: "batch_reach e L (p_batcher p)" using run.IH by (simp add: worker_inv_def)
  show ?case
    by (rule worker_inv_batcher [OF run.IH reach_sched_step [OF reach] sched_step_alive [OF reach_idle [OF reach]]])
      (simp_all add: deserted_run taken_down_run)
next
  case (elapse p c g)
  have "batch_reach e L (p_batcher p)" using elapse.IH by (simp add: worker_inv_def)
  from batch_reach.elapse [OF this elapse(2)] show ?case
    by (rule worker_inv_batcher [OF elapse.IH]) (simp_all add: deserted_def taken_down_def)
next
  case (refreshed p)
  have reach: "batch_reach e L (p_batcher p)" using refreshed.IH by (simp add: worker_inv_def)
  show ?case unfolding refresh_def
    by (rule worker_inv_batcher [OF refreshed.IH batch_reach.scrape [OF reach]])
      (simp_all add: deserted_def taken_down_def)
next
  case (signal p handled)
  then show ?case by (simp add: on_signal_def worker_inv_def)
next
  case (woken p interrupted)
  then show ?case by (simp add: serve_wait_def worker_inv_def)
next
  case (server_down p C)
  have "batch_reach e L (p_batcher p)" using server_down.IH by (simp add: worker_inv_def)
  note S = server_stopped_calls [OF this, of C]
  have "p_stage (server_stopped C p) = Drained" "p_refresher (server_stopped C p) = p_refresher p"
    by (simp_all add: server_stopped_def)
  then show ?case using S server_down.IH server_down(2) by (simp add: worker_inv_def)
next
  case (refresher_down p)
  then show ?case by (simp add: refresher_stop_def worker_inv_def)
next
  case (batcher_down p)
  then show ?case by (simp add: batcher_stop_def worker_inv_def batch_reach.stop stop_deserted)
qed

interpretation worker_host: host e L "worker_reach e L" "\<lambda>p b. handling p \<and> b = p_batcher p"
  for e :: "('f, 'i, 'b, 'd, 'r) engine" and L :: limits
  by unfold_locales (auto dest!: worker_reach_inv simp: worker_inv_def)

section \<open>The HTTP application\<close>

text \<open>\<open>app.state\<close> has no scheduler until \<open>lifespan\<close> has put one there, and keeps it after the end.\<close>

record ('f, 'i, 'r) app =
  a_batcher :: "('f, 'i, 'r) batcher option"
  a_serving :: bool

definition new_app :: "('f, 'i, 'r) app" where
  "new_app = \<lparr>a_batcher = None, a_serving = False\<rparr>"

definition lifespan_enter :: "string \<Rightarrow> string \<Rightarrow> (nat \<Rightarrow> request) \<Rightarrow> 'r world \<Rightarrow> ('f, 'i, 'r) app \<Rightarrow> ('f, 'i, 'r) app" where
  "lifespan_enter model dev rs w a =
     (let b = start (new_batcher rs w);
          a = a\<lparr>a_batcher := Some (b\<lparr>registry := set_model_info model dev (registry b)\<rparr>)\<rparr>
      in a\<lparr>a_serving := True\<rparr>)"

definition lifespan_exit :: "('f, 'i, 'r) app \<Rightarrow> ('f, 'i, 'r) app" where
  "lifespan_exit a = a\<lparr>a_batcher := map_option stop (a_batcher a), a_serving := False\<rparr>"

inductive app_reach :: "('f, 'i, 'b, 'd, 'r) engine \<Rightarrow> limits \<Rightarrow> ('f, 'i, 'r) app \<Rightarrow> bool"
  for e :: "('f, 'i, 'b, 'd, 'r) engine" and L :: limits where
  new: "app_reach e L new_app"
| enter: "app_reach e L a \<Longrightarrow> a_batcher a = None \<Longrightarrow> next_seq_id w = 1 \<Longrightarrow>
    app_reach e L (lifespan_enter model dev rs w a)"
| served: "app_reach e L a \<Longrightarrow> a_serving a \<Longrightarrow> a_batcher a = Some b \<Longrightarrow> served_step e L b b' \<Longrightarrow>
    app_reach e L (a\<lparr>a_batcher := Some b'\<rparr>)"
| exit: "app_reach e L a \<Longrightarrow> a_serving a \<Longrightarrow> app_reach e L (lifespan_exit a)"

definition app_inv :: "('f, 'i, 'b, 'd, 'r) engine \<Rightarrow> limits \<Rightarrow> ('f, 'i, 'r) app \<Rightarrow> bool" where
  "app_inv e L a \<longleftrightarrow> (case a_batcher a of None \<Rightarrow> \<not> a_serving a
     | Some b \<Rightarrow> batch_reach e L b \<and> (if a_serving a then alive b else taken_down b))"

lemma app_reach_inv: "app_reach e L a \<Longrightarrow> app_inv e L a"
proof (induction rule: app_reach.induct)
  case new
  then show ?case by (simp add: new_app_def app_inv_def)
next
  case (enter a w model dev rs)
  define b where "b = start (new_batcher rs w :: ('a, 'b, 'e) batcher)"
  have "batch_reach e L b" unfolding b_def by (rule batch_reach.start [OF reach_fresh [OF enter(3)]])
  note batch_reach.model_info [OF this, of model dev]
  moreover have "alive b" by (simp add: b_def start_def)
  ultimately show ?case by (simp add: lifespan_enter_def app_inv_def b_def [symmetric] Let_def)
next
  case (served a b b')
  then show ?case
    using served_step_reach [OF served(4)] served_step_alive [OF served(4) reach_idle] by (auto simp: app_inv_def)
next
  case (exit a)
  then show ?case by (auto simp: app_inv_def lifespan_exit_def batch_reach.stop split: option.splits)
qed

interpretation app_host: host e L "app_reach e L" "\<lambda>a b. a_serving a \<and> get_batcher (a_batcher a) = Body b"
  for e :: "('f, 'i, 'b, 'd, 'r) engine" and L :: limits
  by unfold_locales (auto dest!: app_reach_inv simp: app_inv_def get_batcher_def split: option.splits)

end
