(* ===== verification/Lifecycle.thy ===== *)
theory Lifecycle
  imports Service
begin

text \<open>
  The abstract life of one request: where it is, what its future says, whether its caller waits and
  what was put on its stream. \<open>life\<close> is the specification, eight transitions without batch, cache or
  clock; the lemmas show that whatever the scheduler and its callers do moves every request along it.
\<close>

section \<open>The specification\<close>

datatype place = InQueue | InBatch | Out

type_synonym request_view = "place \<times> future_state \<times> caller_state \<times> stream_queue option"

definition settled :: "future_state \<Rightarrow> future_state \<Rightarrow> future_state" where
  "settled f f' = (if f = Pending then f' else f)"

definition closed_stream :: "stream_queue option \<Rightarrow> stream_queue option" where
  "closed_stream q = map_option (\<lambda>q. q\<lparr>items := items q @ [None]\<rparr>) q"

inductive life :: "request_view \<Rightarrow> request_view \<Rightarrow> bool" where
  admitted: "life (InQueue, f, c, q) (InBatch, f, c, q)"
| put: "life (InBatch, f, c, Some q) (InBatch, f, c, Some (q\<lparr>items := items q @ [Some d]\<rparr>))"
| completed: "life (InBatch, f, c, q) (Out, settled f (Resolved res), c, closed_stream q)"
| failed: "life (InBatch, f, c, q) (Out, settled f (Failed ex), c, closed_stream q)"
| took: "taken q < length (items q) \<Longrightarrow> life (p, f, Waiting, Some q) (p, f, Waiting, Some (q\<lparr>taken := Suc (taken q)\<rparr>))"
| gave_up: "life (p, f, Waiting, q) (p, f, GaveUp, q)"
| cancelled: "life (p, Pending, GaveUp, q) (p, Cancelled, GaveUp, q)"
| withdrawn: "life (InQueue, f, GaveUp, q) (Out, f, GaveUp, q)"

inductive_cases life_cases: "life (p, f, c, q) v"

text \<open>What the specification promises.\<close>

definition stream_grown :: "stream_queue option \<Rightarrow> stream_queue option \<Rightarrow> bool" where
  "stream_grown q q' = (case q of None \<Rightarrow> q' = None
     | Some s \<Rightarrow> \<exists>s'. q' = Some s' \<and> (\<exists>more. items s' = items s @ more) \<and> taken s \<le> taken s')"

definition onward :: "request_view \<Rightarrow> request_view \<Rightarrow> bool" where
  "onward v v' = (case (v, v') of ((p, f, c, q), (p', f', c', q')) \<Rightarrow>
     (f \<noteq> Pending \<longrightarrow> f' = f) \<and> (c = GaveUp \<longrightarrow> c' = GaveUp) \<and> (p = Out \<longrightarrow> p' = Out) \<and> (p = InBatch \<longrightarrow> p' \<noteq> InQueue) \<and>
     (p \<noteq> Out \<and> p' = Out \<and> c' = Waiting \<longrightarrow> f' \<noteq> Pending) \<and> stream_grown q q')"

lemma stream_grown_refl: "stream_grown q q"
  by (cases q) (auto simp: stream_grown_def)

lemma stream_grown_trans: "stream_grown q1 q2 \<Longrightarrow> stream_grown q2 q3 \<Longrightarrow> stream_grown q1 q3"
  by (cases q1; cases q2) (auto simp: stream_grown_def)

lemma stream_grown_closed: "stream_grown q (closed_stream q)"
  by (cases q) (auto simp: stream_grown_def closed_stream_def)

lemma life_onward: "life v v' \<Longrightarrow> onward v v'"
  by (induction rule: life.induct) (auto simp: onward_def settled_def stream_grown_refl stream_grown_closed, auto simp: stream_grown_def)

lemma onward_refl: "onward v v"
  by (cases v) (auto simp: onward_def stream_grown_refl)

lemma onward_trans: "onward v1 v2 \<Longrightarrow> onward v2 v3 \<Longrightarrow> onward v1 v3"
proof -
  assume "onward v1 v2" "onward v2 v3"
  moreover obtain p1 f1 c1 q1 p2 f2 c2 q2 p3 f3 c3 q3
    where v: "v1 = (p1, f1, c1, q1)" "v2 = (p2, f2, c2, q2)" "v3 = (p3, f3, c3, q3)"
    by (metis prod_cases4)
  ultimately have o: "f1 \<noteq> Pending \<longrightarrow> f2 = f1" "c1 = GaveUp \<longrightarrow> c2 = GaveUp" "p1 = Out \<longrightarrow> p2 = Out"
    "p1 = InBatch \<longrightarrow> p2 \<noteq> InQueue" "p1 \<noteq> Out \<and> p2 = Out \<and> c2 = Waiting \<longrightarrow> f2 \<noteq> Pending" "stream_grown q1 q2"
    "f2 \<noteq> Pending \<longrightarrow> f3 = f2" "c2 = GaveUp \<longrightarrow> c3 = GaveUp" "p2 = Out \<longrightarrow> p3 = Out"
    "p2 = InBatch \<longrightarrow> p3 \<noteq> InQueue" "p2 \<noteq> Out \<and> p3 = Out \<and> c3 = Waiting \<longrightarrow> f3 \<noteq> Pending" "stream_grown q2 q3"
    by (simp_all add: onward_def)
  have "p1 = InBatch \<longrightarrow> p3 \<noteq> InQueue" using o(3,4,9,10) by (cases p2) simp_all
  moreover have "p1 \<noteq> Out \<and> p3 = Out \<and> c3 = Waiting \<longrightarrow> f3 \<noteq> Pending"
    using o(5,7,8,11) by (cases c2; cases "p2 = Out") auto
  ultimately show ?thesis
    unfolding onward_def v using o(1-3,7-9) stream_grown_trans [OF o(6,12)] by simp
qed

lemma lives_onward: "rtranclp life v v' \<Longrightarrow> onward v v'"
  by (induction rule: rtranclp_induct) (auto intro: onward_refl onward_trans life_onward)

section \<open>The view of a request\<close>

definition place_of :: "('f, 'i, 'r) batcher \<Rightarrow> nat \<Rightarrow> place" where
  "place_of b i = (if i \<in> set (queue b) then InQueue else if i \<in> set (running b) then InBatch else Out)"

definition view :: "('f, 'i, 'r) batcher \<Rightarrow> nat \<Rightarrow> request_view" where
  "view b i = (place_of b i, future (reqs b i), caller (reqs b i), stream (reqs b i))"

definition lives :: "('f, 'i, 'r) batcher \<Rightarrow> ('f, 'i, 'r) batcher \<Rightarrow> nat \<Rightarrow> bool" where
  "lives b b' i \<longleftrightarrow> rtranclp life (view b i) (view b' i)"

lemma lives_refl [simp]: "lives b b i"
  by (simp add: lives_def)

lemma lives_trans [trans]: "lives b b1 i \<Longrightarrow> lives b1 b2 i \<Longrightarrow> lives b b2 i"
  unfolding lives_def by (rule rtranclp_trans)

lemma lives_same: "view b' i = view b i \<Longrightarrow> lives b b' i"
  by (simp add: lives_def)

lemma lives_step: "life (view b i) (view b' i) \<Longrightarrow> lives b b' i"
  unfolding lives_def by (rule r_into_rtranclp)

text \<open>Queue and running table, without repetition.\<close>

definition tidy :: "('f, 'i, 'r) batcher \<Rightarrow> bool" where
  "tidy b \<longleftrightarrow> distinct (running b @ queue b)"

lemma tidy_inv: "sched_inv L b \<Longrightarrow> tidy b"
  using sched_inv_members [of L b] by (auto simp: tidy_def)

lemma tidy_placeD: "tidy b \<Longrightarrow> i \<in> set (running b) \<Longrightarrow> i \<notin> set (queue b)"
  by (auto simp: tidy_def)

section \<open>The operations\<close>

text \<open>Delivery.\<close>

lemma lives_publish_row:
  assumes "tidy b"
  shows "lives b (publish_row e j b) i"
proof (cases "i = j \<and> j \<in> set (running b) \<and> stream (reqs b j) \<noteq> None \<and>
    published (reqs b j) < length (output_ids (seq_of b j)) \<and>
    drop (length (published_text (reqs b j))) (decode e (output_ids (seq_of b j))) \<noteq> []")
  case True
  then obtain q where q: "stream (reqs b j) = Some q" by auto
  have "life (view b i) (InBatch, future (reqs b j), caller (reqs b j),
      Some (q\<lparr>items := items q @ [Some (drop (length (published_text (reqs b j))) (decode e (output_ids (seq_of b j))))]\<rparr>))"
    using True q tidy_placeD [OF assms] unfolding view_def place_of_def by (simp add: life.put)
  moreover have "view (publish_row e j b) i = (InBatch, future (reqs b j), caller (reqs b j),
      Some (q\<lparr>items := items q @ [Some (drop (length (published_text (reqs b j))) (decode e (output_ids (seq_of b j))))]\<rparr>))"
    using True q tidy_placeD [OF assms] by (auto simp: publish_row_def view_def place_of_def publish_req_frame frame_simps)
  ultimately show ?thesis by (intro lives_step) simp
next
  case False
  then show ?thesis
    by (intro lives_same) (auto simp: publish_row_def view_def place_of_def publish_req_frame frame_simps)
qed

lemma lives_publish_rows: "tidy b \<Longrightarrow> lives b (publish_rows e is b) i"
proof (induction "is" arbitrary: b)
  case (Cons j "is")
  have "tidy (publish_row e j b)" using Cons.prems by (simp add: tidy_def frame_simps)
  then show ?case using lives_publish_row [OF Cons.prems] Cons.IH lives_trans by (metis publish_rows.simps(2))
qed simp

lemma lives_after_step: "tidy b \<Longrightarrow> lives b (after_step e new st w b) i"
proof -
  assume t: "tidy b"
  define b1 where "b1 = observe e new (b\<lparr>bstate := st, bworld := w, steps := Suc (steps b),
    batched_rows := batched_rows b + length (seqs st)\<rparr>)"
  have "view b1 i = view b i" "tidy b1"
    using t by (simp_all add: b1_def observe_def view_def place_of_def tidy_def Let_def)
  then have "lives b (publish_deltas e b1) i"
    unfolding publish_deltas_def using lives_trans [OF lives_same lives_publish_rows] by blast
  moreover have "view (after_step e new st w b) i = view (publish_deltas e b1) i"
    by (simp add: after_step_def b1_def view_def place_of_def Let_def)
  ultimately show ?thesis by (simp add: lives_def)
qed

text \<open>The last delta of a stream, then the sentinel.\<close>

lemma lives_delivered:
  "rtranclp life (InBatch, future r, caller r, stream r) (Out, future (deliver res r), caller (deliver res r), stream (deliver res r))"
proof -
  have "rtranclp life (InBatch, future r, caller r, stream r) (InBatch, future r, caller r, stream (publish_final res r))"
    using life.put by (cases "stream r") (auto simp: publish_final_frame)
  moreover have "life (InBatch, future r, caller r, stream (publish_final res r))
      (Out, future (deliver res r), caller (deliver res r), stream (deliver res r))"
    using life.completed [of "future r" "caller r" "stream (publish_final res r)" res]
    by (simp add: deliver_frame settled_def closed_stream_def)
  ultimately show ?thesis by (rule rtranclp.rtrancl_into_rtrancl)
qed

lemma lives_complete:
  assumes "tidy b"
  shows "lives b (complete e j b) i" and "tidy (complete e j b)"
proof -
  show "tidy (complete e j b)"
    using assms set_remove1_subset [of j "running b"] by (auto simp: tidy_def frame_simps)
  show "lives b (complete e j b) i"
  proof (cases "i = j \<and> j \<in> set (running b)")
    case True
    obtain now w where m: "monotonic (bworld b) = (now, w)" by fastforce
    have "reqs (complete e j b) i = deliver (make_result e (seq_of b j) (reqs b j) now) (reqs b j)"
      using True m by (auto simp: complete_def monotonic_def Let_def)
    moreover have "place_of b i = InBatch" "place_of (complete e j b) i = Out"
      using True assms by (auto simp: place_of_def tidy_def frame_simps)
    ultimately show ?thesis using lives_delivered True by (simp add: lives_def view_def)
  next
    case False
    then have "reqs (complete e j b) i = reqs b i" by (auto simp: complete_def monotonic_def Let_def)
    moreover have "i \<in> set (remove1 j (running b)) \<longleftrightarrow> i \<in> set (running b)"
      using False by (cases "i = j") (auto simp: remove1_idem)
    then have "place_of (complete e j b) i = place_of b i" by (simp add: place_of_def frame_simps)
    ultimately show ?thesis by (intro lives_same) (simp add: view_def)
  qed
qed

lemma lives_complete_all: "tidy b \<Longrightarrow> lives b (complete_all e is b) i"
proof (induction "is" arbitrary: b)
  case (Cons j "is")
  show ?case
    using lives_complete [OF Cons.prems] Cons.IH lives_trans by (metis complete_all.simps(2))
qed simp

lemma lives_fail_all:
  assumes "tidy b"
  shows "lives b (fail_all ex b) i"
proof (cases "i \<in> set (running b)")
  case True
  have "distinct (running b)" using assms by (simp add: tidy_def)
  then have "reqs (fail_all ex b) i = put_nowait None (settle (Failed ex) (reqs b i))"
    using True by (simp add: fail_all_def reqs_fail_requests)
  then show ?thesis
    using life.failed [of "future (reqs b i)" "caller (reqs b i)" "stream (reqs b i)" ex] True tidy_placeD [OF assms True]
    by (intro lives_step) (simp add: view_def place_of_def frame_simps settled_def closed_stream_def)
next
  case False
  have "distinct (running b)" using assms by (simp add: tidy_def)
  then show ?thesis
    using False by (intro lives_same) (simp add: view_def place_of_def fail_all_def reqs_fail_requests frame_simps)
qed

text \<open>Admission.\<close>

lemma lives_tick_take:
  assumes "tidy b"
  shows "lives b (tick_take L b) i"
proof -
  obtain new b1 where t: "take_admissions L b = (new, b1)" by fastforce
  note T = take_admissions_spec [OF t]
  have q: "queue b = new @ queue b1" "running b1 = running b" "reqs b1 = reqs b"
    using T by (simp_all, metis append_take_drop_id)
  show ?thesis
  proof (cases "new = []")
    case True
    then show ?thesis using t q by (intro lives_same) (simp add: tick_take_def view_def place_of_def)
  next
    case False
    have d: "distinct new" "distinct (running b1)" "set new \<inter> set (queue b1) = {}"
      "set (running b) \<inter> set (queue b) = {}"
      using assms q by (auto simp: tidy_def)
    have eq: "tick_take L b = (begin_running new b1)\<lparr>phase := Admitting new\<rparr>" using t False by (simp add: tick_take_def)
    obtain s where "reqs (begin_running new b1) i = (if i \<in> set new then (reqs b i)\<lparr>started_at := s\<rparr> else reqs b i)"
      using reqs_begin_running [OF d(1), of b1 i] unfolding q(3) by blast
    then have r: "future (reqs (tick_take L b) i) = future (reqs b i)" "caller (reqs (tick_take L b) i) = caller (reqs b i)"
      "stream (reqs (tick_take L b) i) = stream (reqs b i)" by (simp_all add: eq)
    have p: "place_of (tick_take L b) i = (if i \<in> set new then InBatch else place_of b i)"
      using begin_running_running [OF d(2), of new] d q by (auto simp: eq place_of_def frame_simps)
    have "place_of b i = InQueue" if "i \<in> set new" using that q(1) by (simp add: place_of_def)
    then show ?thesis
      using life.admitted by (cases "i \<in> set new") (auto intro: lives_step lives_same simp: view_def r p)
  qed
qed

lemma lives_view_cong: "lives b b1 i \<Longrightarrow> view b2 i = view b1 i \<Longrightarrow> lives b b2 i"
  by (simp add: lives_def)

lemma view_simps [simp]:
  "view (b\<lparr>phase := p\<rparr>) i = view b i" "view (b\<lparr>work := k\<rparr>) i = view b i" "view (b\<lparr>bworld := w\<rparr>) i = view b i"
  "view (b\<lparr>bstate := st\<rparr>) i = view b i" "view (b\<lparr>registry := m\<rparr>) i = view b i"
  by (simp_all add: view_def place_of_def)

lemma tidy_simps [simp]:
  "tidy (b\<lparr>bworld := w\<rparr>) = tidy b" "tidy (b\<lparr>bstate := st\<rparr>) = tidy b"
  by (simp_all add: tidy_def)

lemma lives_tick_top:
  assumes "tidy b"
  shows "lives b (tick_top L b) i" and "lives b (tick_gather L d b) i"
proof -
  have "lives b (tick_take L (b\<lparr>bworld := w\<rparr>)) i" for w
    using lives_trans [OF lives_same lives_tick_take, of "b\<lparr>bworld := w\<rparr>" i b L] assms by simp
  then show "lives b (tick_top L b) i" "lives b (tick_gather L d b) i"
    using lives_tick_take [OF assms, of L i]
    by (auto simp: tick_top_def tick_gather_def monotonic_def Let_def intro: lives_same)
qed

text \<open>A caller leaves.\<close>

lemma place_of_set_req [simp]: "place_of (set_req j f b) i = place_of b i"
  by (simp add: place_of_def frame_simps)

lemma place_remove:
  assumes "tidy b" "queue b' = remove1 j (queue b)" "running b' = running b"
  shows "place_of b' i = (if i = j \<and> place_of b j = InQueue then Out else place_of b i)"
  using assms by (auto simp: place_of_def tidy_def in_set_remove1 dest: notin_set_remove1)

lemma lives_gone:
  assumes "caller (reqs b i) = Waiting" "caller (reqs b' i) = GaveUp" "stream (reqs b' i) = stream (reqs b i)"
    "future (reqs b' i) = future (reqs b i) \<or> future (reqs b i) = Pending \<and> future (reqs b' i) = Cancelled"
    "place_of b' i = place_of b i \<or> place_of b i = InQueue \<and> place_of b' i = Out"
  shows "lives b b' i"
proof -
  let ?p = "place_of b i" and ?f = "future (reqs b i)" and ?q = "stream (reqs b i)"
  have "life (?p, ?f, Waiting, ?q) (?p, ?f, GaveUp, ?q)" by (rule life.gave_up)
  moreover have "rtranclp life (?p, ?f, GaveUp, ?q) (?p, future (reqs b' i), GaveUp, ?q)"
    using assms(4) life.cancelled by (metis r_into_rtranclp rtranclp.rtrancl_refl)
  moreover have "rtranclp life (?p, future (reqs b' i), GaveUp, ?q) (place_of b' i, future (reqs b' i), GaveUp, ?q)"
    using assms(5) life.withdrawn by (metis r_into_rtranclp rtranclp.rtrancl_refl)
  ultimately show ?thesis
    unfolding lives_def view_def assms(1-3) by (meson converse_rtranclp_into_rtranclp rtranclp_trans)
qed

lemma lives_abandon:
  assumes "tidy b" "caller (reqs b j) = Waiting" "caller (f (reqs b j)) = GaveUp" "stream (f (reqs b j)) = stream (reqs b j)"
    "future (f (reqs b j)) = future (reqs b j) \<or> future (reqs b j) = Pending \<and> future (f (reqs b j)) = Cancelled"
  shows "lives b (set_req j f b) i" and "lives b (abandon_req j (set_req j f b)) i"
proof -
  have p: "place_of (abandon_req j (set_req j f b)) i = (if i = j \<and> place_of b j = InQueue then Out else place_of b i)"
    by (rule place_remove [OF assms(1)]) (simp_all add: frame_simps)
  show "lives b (set_req j f b) i"
  proof (cases "i = j")
    case True
    show ?thesis by (rule lives_gone) (use True assms(2-5) in simp_all)
  next
    case False
    then show ?thesis by (intro lives_same) (simp add: view_def)
  qed
  show "lives b (abandon_req j (set_req j f b)) i"
  proof (cases "i = j")
    case True
    show ?thesis by (rule lives_gone) (use True assms(2-5) p in \<open>simp_all add: frame_simps\<close>)
  next
    case False
    then show ?thesis using p by (intro lives_same) (simp add: view_def frame_simps)
  qed
qed

lemma lives_leave:
  assumes "tidy b" "caller (reqs b j) = Waiting"
  shows "lives b (submit_timeout j b) i" "lives b (submit_cancelled j b) i" "lives b (stream_left j b) i"
    "lives b (stream_closed j b) i"
  unfolding submit_timeout_def submit_cancelled_def stream_left_def stream_closed_def
  by (rule lives_abandon [OF assms]; simp)+

lemma lives_leave_all:
  "tidy b \<Longrightarrow> distinct is \<Longrightarrow> \<forall>j\<in>set is. caller (reqs b j) = Waiting \<Longrightarrow> lives b (leave_all is b) i \<and> tidy (leave_all is b)"
proof (induction "is" arbitrary: b)
  case (Cons j "is")
  have "lives b (leave j b) i" using Cons.prems by (simp add: leave_def lives_leave)
  moreover have "tidy (leave j b)"
    using Cons.prems(1) set_remove1_subset [of j "queue b"]
    by (auto simp: leave_def submit_timeout_def stream_left_def tidy_def frame_simps)
  moreover have "\<forall>k\<in>set is. caller (reqs (leave j b) k) = Waiting"
    using Cons.prems(2,3) by (auto simp: leave_def submit_timeout_def stream_left_def frame_simps)
  ultimately show ?case using Cons.IH [of "leave j b"] Cons.prems(2) lives_trans by auto
qed simp

section \<open>Every step while calls are served\<close>

context windowed begin

lemma lives_tick_evict:
  assumes "batch_reach e L b" "distinct is" "\<forall>j\<in>set is. caller (reqs b j) = Waiting"
  shows "lives b (tick_evict e is b) i"
proof -
  have t: "tidy b" by (rule tidy_inv [OF reach_sched(1) [OF assms(1)]])
  obtain A st gone where E: "tick_evict e is b = (complete_all e gone ((leave_all is b)\<lparr>bstate := st\<rparr>))\<lparr>phase := Top\<rparr>"
    using contract.tick_evict_eq [OF reach_sched(2) [OF assms(1)], of "is"] by metis
  note A = lives_leave_all [OF t assms(2,3), of i]
  have "lives (leave_all is b) ((leave_all is b)\<lparr>bstate := st\<rparr>) i" by (rule lives_same) simp
  also have "lives ((leave_all is b)\<lparr>bstate := st\<rparr>) (complete_all e gone ((leave_all is b)\<lparr>bstate := st\<rparr>)) i"
    by (rule lives_complete_all) (simp add: A)
  finally have "lives (leave_all is b) (complete_all e gone ((leave_all is b)\<lparr>bstate := st\<rparr>)) i" .
  note C = lives_trans [OF conjunct1 [OF A] this]
  show ?thesis unfolding E by (rule lives_view_cong [OF C]) simp
qed

lemma lives_sched_step:
  assumes "batch_reach e L b"
  shows "lives b (sched_step e L b) i"
proof -
  have t: "tidy b" by (rule tidy_inv [OF reach_sched(1) [OF assms]])
  show ?thesis
    using lives_tick_top [OF t] lives_fail_all [OF t] lives_after_step [OF t] lives_tick_evict [OF assms, of "[]" i]
    by (auto simp: sched_step_def tick_admit_def tick_decode_def intro: lives_same split: phase.split sum.split)
qed

lemma served_lives:
  assumes "served_step e L b b'" "batch_reach e L b" "i \<in> issued (bworld b)"
  shows "lives b b' i"
proof -
  have t: "tidy b" by (rule tidy_inv [OF reach_sched(1) [OF assms(2)]])
  from assms(1) show ?thesis
  proof cases
    case run
    then show ?thesis using lives_sched_step [OF assms(2)] by simp
  next
    case (evict "is")
    then show ?thesis using lives_tick_evict [OF assms(2)] by simp
  next
    case (elapse c g)
    then show ?thesis by (intro lives_same) simp
  next
    case (call prompt ps rid uuid streaming res)
    obtain j b1 where mk: "make_request e prompt ps rid uuid streaming b = (j, b1)" by fastforce
    have "1 \<le> next_seq_id (bworld b)" using assms(3) by (simp add: issued_def)
    note M = make_request_effect [OF mk this]
    have "i \<noteq> j" using M(6) assms(3) by blast
    then show ?thesis
      using call mk M(1,2,11) by (intro lives_same) (auto simp: enqueue_def add_def view_def place_of_def frame_simps split: if_splits)
  next
    case (get j x r)
    have r: "future r = future (reqs b j)" "caller r = Waiting" using get stream_get_frame by auto
    obtain q where q: "stream (reqs b j) = Some q" "taken q < length (items q)" "stream r = Some (q\<lparr>taken := Suc (taken q)\<rparr>)"
      using get(3) by (auto simp: stream_get_def split: option.splits if_splits)
    show ?thesis
    proof (cases "i = j")
      case True
      have "life (view b i) (view b' i)"
        using get r q True life.took [of q "place_of b j" "future (reqs b j)"] by (simp add: view_def)
      then show ?thesis by (rule lives_step)
    next
      case False
      then show ?thesis using get by (intro lives_same) (simp add: view_def)
    qed
  next
    case scrape
    then show ?thesis by (intro lives_same) (simp add: refresh_def)
  next
    case (failed_call status)
    then show ?thesis by (intro lives_same) (simp add: count_error_def)
  qed (use lives_leave [OF t] in simp_all)
qed

lemma served_step_issued:
  assumes "served_step e L b b'" "batch_reach e L b" "i \<in> issued (bworld b)"
  shows "i \<in> issued (bworld b')"
  using assms(1)
proof cases
  case run
  then show ?thesis using assms(3) by (simp add: sched_step_issued)
next
  case (evict "is")
  obtain A st gone where "tick_evict e is b = (complete_all e gone ((leave_all is b)\<lparr>bstate := st\<rparr>))\<lparr>phase := Top\<rparr>"
    using contract.tick_evict_eq [OF reach_sched(2) [OF assms(2)], of "is"] by metis
  then show ?thesis using evict assms(3) by (simp add: issued_def frame_simps)
next
  case (call prompt ps rid uuid streaming res)
  obtain j b1 where mk: "make_request e prompt ps rid uuid streaming b = (j, b1)" by fastforce
  have "1 \<le> next_seq_id (bworld b)" using assms(3) by (simp add: issued_def)
  note M = make_request_effect [OF mk this]
  then show ?thesis using call mk assms(3) by (auto simp: enqueue_def add_def frame_simps split: if_splits)
qed (use assms(3) in \<open>simp_all add: issued_def frame_simps submit_timeout_def submit_cancelled_def stream_left_def
  stream_closed_def refresh_def count_error_def\<close>)

lemma served_run_lives:
  assumes "rtranclp (served_step e L) b b'" "batch_reach e L b" "i \<in> issued (bworld b)"
  shows "lives b b' i \<and> batch_reach e L b' \<and> i \<in> issued (bworld b')"
  using assms
proof (induction rule: rtranclp_induct)
  case base
  then show ?case by simp
next
  case (step b1 b2)
  then have r: "lives b b1 i" "batch_reach e L b1" "i \<in> issued (bworld b1)" by simp_all
  show ?case
    using lives_trans [OF r(1) served_lives [OF step(2) r(2,3)]] served_step_reach [OF step(2) r(2)]
      served_step_issued [OF step(2) r(2,3)] by simp
qed

end

end
