(* ===== verification/Rpc.thy ===== *)
theory Rpc
  imports Worker
begin

text \<open>
  \<open>worker/server/pb/inference_pb2_grpc.py\<close>: the client stub, the base servicer and the registration
  of a servicer with a server, which together say under which path, with which codecs and in which
  arity each method is called. The message classes, the channel and the server belong to protobuf and
  gRPC: they are parameters (\<open>codec\<close>, \<open>channel\<close>), of which \<open>round_trips\<close> and \<open>connected\<close> state what they document.
\<close>

section \<open>Messages and their classes\<close>

datatype message_class = GenerateRequest | GenerateResponse | TokenClass | HealthRequest | HealthResponse

datatype message = Generate_request generate_request | Generate_response generate_response | Token_message token
  | Health_request | Health_response health_response

fun class_of :: "message \<Rightarrow> message_class" where
  "class_of (Generate_request m) = GenerateRequest"
| "class_of (Generate_response m) = GenerateResponse"
| "class_of (Token_message m) = TokenClass"
| "class_of Health_request = HealthRequest"
| "class_of (Health_response m) = HealthResponse"

record 'y codec =
  SerializeToString :: "message_class \<Rightarrow> message \<Rightarrow> 'y option"
  FromString :: "message_class \<Rightarrow> 'y \<Rightarrow> message option"

definition round_trips :: "'y codec \<Rightarrow> bool" where
  "round_trips cd \<longleftrightarrow> (\<forall>m. \<exists>y. SerializeToString cd (class_of m) m = Some y \<and> FromString cd (class_of m) y = Some m)"

section \<open>The servicer and its registration\<close>

text \<open>A streaming method gives its messages, then how it ended.\<close>

datatype behavior = Unary "message \<Rightarrow> message rpc" | Streaming "message \<Rightarrow> message list \<times> unit rpc"

record servicer =
  sv_Generate :: "message \<Rightarrow> message rpc"
  sv_GenerateStream :: "message \<Rightarrow> message list \<times> unit rpc"
  sv_Health :: "message \<Rightarrow> message rpc"

text \<open>\<open>InferenceServicer\<close>: a subclass that leaves a method out refuses its calls. Each method sets the code and
  the details of its context and raises, which is how gRPC is told to end a call with them.\<close>

definition not_implemented :: "'a rpc" where
  "not_implemented = Abort UNIMPLEMENTED ''Method not implemented!''"

definition InferenceServicer :: servicer where
  "InferenceServicer = \<lparr>sv_Generate = (\<lambda>_. not_implemented), sv_GenerateStream = (\<lambda>_. ([], not_implemented)),
     sv_Health = (\<lambda>_. not_implemented)\<rparr>"

record 'y method_handler =
  mh_behavior :: behavior
  mh_request_deserializer :: "'y \<Rightarrow> message option"
  mh_response_serializer :: "message \<Rightarrow> 'y option"

definition rpc_method_handlers :: "'y codec \<Rightarrow> servicer \<Rightarrow> (string \<times> 'y method_handler) list" where
  "rpc_method_handlers cd sv =
     [(''Generate'', \<lparr>mh_behavior = Unary (sv_Generate sv), mh_request_deserializer = FromString cd GenerateRequest,
         mh_response_serializer = SerializeToString cd GenerateResponse\<rparr>),
      (''GenerateStream'', \<lparr>mh_behavior = Streaming (sv_GenerateStream sv),
         mh_request_deserializer = FromString cd GenerateRequest,
         mh_response_serializer = SerializeToString cd TokenClass\<rparr>),
      (''Health'', \<lparr>mh_behavior = Unary (sv_Health sv), mh_request_deserializer = FromString cd HealthRequest,
         mh_response_serializer = SerializeToString cd HealthResponse\<rparr>)]"

text \<open>The handlers of a service by the path of a call, as a generic handler finds them.\<close>

definition add_InferenceServicer_to_server :: "'y codec \<Rightarrow> servicer \<Rightarrow> string \<Rightarrow> 'y method_handler option" where
  "add_InferenceServicer_to_server cd sv =
     map_of (map (\<lambda>(name, h). (''/'' @ ''inference.Inference'' @ ''/'' @ name, h)) (rpc_method_handlers cd sv))"

section \<open>The client\<close>

record 'y channel =
  unary_unary :: "string \<Rightarrow> (message \<Rightarrow> 'y option) \<Rightarrow> ('y \<Rightarrow> message option) \<Rightarrow> message \<Rightarrow> message rpc"
  unary_stream :: "string \<Rightarrow> (message \<Rightarrow> 'y option) \<Rightarrow> ('y \<Rightarrow> message option) \<Rightarrow> message \<Rightarrow> message list \<times> unit rpc"

record stub =
  stub_Generate :: "message \<Rightarrow> message rpc"
  stub_GenerateStream :: "message \<Rightarrow> message list \<times> unit rpc"
  stub_Health :: "message \<Rightarrow> message rpc"

definition InferenceStub :: "'y codec \<Rightarrow> 'y channel \<Rightarrow> stub" where
  "InferenceStub cd ch =
     \<lparr>stub_Generate = unary_unary ch ''/inference.Inference/Generate''
        (SerializeToString cd GenerateRequest) (FromString cd GenerateResponse),
      stub_GenerateStream = unary_stream ch ''/inference.Inference/GenerateStream''
        (SerializeToString cd GenerateRequest) (FromString cd TokenClass),
      stub_Health = unary_unary ch ''/inference.Inference/Health''
        (SerializeToString cd HealthRequest) (FromString cd HealthResponse)\<rparr>"

text \<open>The static methods of \<open>Inference\<close>, over the channel \<open>experimental target\<close> that gRPC keeps for a target.\<close>

definition Inference_Generate :: "'y codec \<Rightarrow> ('t \<Rightarrow> 'y channel) \<Rightarrow> message \<Rightarrow> 't \<Rightarrow> message rpc" where
  "Inference_Generate cd experimental request target =
     unary_unary (experimental target) ''/inference.Inference/Generate''
       (SerializeToString cd GenerateRequest) (FromString cd GenerateResponse) request"

definition Inference_GenerateStream :: "'y codec \<Rightarrow> ('t \<Rightarrow> 'y channel) \<Rightarrow> message \<Rightarrow> 't \<Rightarrow> message list \<times> unit rpc" where
  "Inference_GenerateStream cd experimental request target =
     unary_stream (experimental target) ''/inference.Inference/GenerateStream''
       (SerializeToString cd GenerateRequest) (FromString cd TokenClass) request"

definition Inference_Health :: "'y codec \<Rightarrow> ('t \<Rightarrow> 'y channel) \<Rightarrow> message \<Rightarrow> 't \<Rightarrow> message rpc" where
  "Inference_Health cd experimental request target =
     unary_unary (experimental target) ''/inference.Inference/Health''
       (SerializeToString cd HealthRequest) (FromString cd HealthResponse) request"

section \<open>What a channel to a server documents\<close>

text \<open>The server looks the path up, reads the request and runs the method, and the client reads what it
  replied; a path without a handler is not implemented, a status is passed on. What a crash or bytes
  that cannot be read lead to is left open.\<close>

definition unary_connected :: "'y channel \<Rightarrow> (string \<Rightarrow> 'y method_handler option) \<Rightarrow> bool" where
  "unary_connected ch handlers \<longleftrightarrow> (\<forall>path ser des m y. ser m = Some y \<longrightarrow>
     (case handlers path of
        None \<Rightarrow> unary_unary ch path ser des m = Abort UNIMPLEMENTED ''Method not found!''
      | Some h \<Rightarrow> (\<forall>f rq. mh_behavior h = Unary f \<and> mh_request_deserializer h y = Some rq \<longrightarrow>
          (\<forall>st text. f rq = Abort st text \<longrightarrow> unary_unary ch path ser des m = Abort st text) \<and>
          (\<forall>r z r'. f rq = Reply r \<and> mh_response_serializer h r = Some z \<and> des z = Some r' \<longrightarrow>
             unary_unary ch path ser des m = Reply r'))))"

definition stream_connected :: "'y channel \<Rightarrow> (string \<Rightarrow> 'y method_handler option) \<Rightarrow> bool" where
  "stream_connected ch handlers \<longleftrightarrow> (\<forall>path ser des m y h f rq ms end zs rs.
     ser m = Some y \<and> handlers path = Some h \<and> mh_behavior h = Streaming f \<and>
     mh_request_deserializer h y = Some rq \<and> f rq = (ms, end) \<and> (\<forall>ex. end \<noteq> Crash ex) \<and>
     map (mh_response_serializer h) ms = map Some zs \<and> map des zs = map Some rs \<longrightarrow>
     unary_stream ch path ser des m = (rs, end))"

text \<open>A servicer answers with the classes the service declares, and does not crash.\<close>

definition well_typed :: "servicer \<Rightarrow> bool" where
  "well_typed sv \<longleftrightarrow>
     (\<forall>m. (\<exists>st text. sv_Generate sv m = Abort st text) \<or> (\<exists>r. sv_Generate sv m = Reply r \<and> class_of r = GenerateResponse)) \<and>
     (\<forall>m. (\<forall>r\<in>set (fst (sv_GenerateStream sv m)). class_of r = TokenClass) \<and> (\<forall>ex. snd (sv_GenerateStream sv m) \<noteq> Crash ex)) \<and>
     (\<forall>m. (\<exists>st text. sv_Health sv m = Abort st text) \<or> (\<exists>r. sv_Health sv m = Reply r \<and> class_of r = HealthResponse))"

lemma well_typed_base: "well_typed InferenceServicer"
  by (simp add: well_typed_def InferenceServicer_def not_implemented_def)

section \<open>A channel inside the process\<close>

text \<open>It shows that a connected channel exists, for whatever handlers.\<close>

definition loopback_unary :: "(string \<Rightarrow> 'y method_handler option) \<Rightarrow> string \<Rightarrow> (message \<Rightarrow> 'y option) \<Rightarrow>
    ('y \<Rightarrow> message option) \<Rightarrow> message \<Rightarrow> message rpc" where
  "loopback_unary handlers path ser des m = (case ser m of
       None \<Rightarrow> Crash (ValueError ''request'')
     | Some y \<Rightarrow> (case handlers path of
         None \<Rightarrow> Abort UNIMPLEMENTED ''Method not found!''
       | Some h \<Rightarrow> (case (mh_behavior h, mh_request_deserializer h y) of
           (Unary f, Some rq) \<Rightarrow> (case f rq of
               Abort st text \<Rightarrow> Abort st text
             | Crash ex \<Rightarrow> Crash ex
             | Reply r \<Rightarrow> (case Option.bind (mh_response_serializer h r) des of
                 Some r' \<Rightarrow> Reply r' | None \<Rightarrow> Crash (ValueError ''response'')))
         | _ \<Rightarrow> Crash (TypeError ''call''))))"

definition loopback_stream :: "(string \<Rightarrow> 'y method_handler option) \<Rightarrow> string \<Rightarrow> (message \<Rightarrow> 'y option) \<Rightarrow>
    ('y \<Rightarrow> message option) \<Rightarrow> message \<Rightarrow> message list \<times> unit rpc" where
  "loopback_stream handlers path ser des m = (case ser m of
       None \<Rightarrow> ([], Crash (ValueError ''request''))
     | Some y \<Rightarrow> (case handlers path of
         None \<Rightarrow> ([], Abort UNIMPLEMENTED ''Method not found!'')
       | Some h \<Rightarrow> (case (mh_behavior h, mh_request_deserializer h y) of
           (Streaming f, Some rq) \<Rightarrow>
             (List.map_filter (\<lambda>r. Option.bind (mh_response_serializer h r) des) (fst (f rq)), snd (f rq))
         | _ \<Rightarrow> ([], Crash (TypeError ''call'')))))"

definition loopback :: "(string \<Rightarrow> 'y method_handler option) \<Rightarrow> 'y channel" where
  "loopback handlers = \<lparr>unary_unary = loopback_unary handlers, unary_stream = loopback_stream handlers\<rparr>"

lemma loopback_unary_connected: "unary_connected (loopback handlers) handlers"
  by (auto simp: unary_connected_def loopback_def loopback_unary_def split: option.splits)

lemma relayed:
  "map ser ms = map Some zs \<Longrightarrow> map des zs = map Some rs \<Longrightarrow>
    List.map_filter (\<lambda>r. Option.bind (ser r) des) ms = rs"
  by (induction ms arbitrary: zs rs) (auto simp: map_filter_simps)

lemma loopback_stream_connected: "stream_connected (loopback handlers) handlers"
  by (auto simp: stream_connected_def loopback_def loopback_stream_def relayed)

text \<open>Messages that are sent as they are.\<close>

definition plain :: "message codec" where
  "plain = \<lparr>SerializeToString = (\<lambda>c m. if class_of m = c then Some m else None),
     FromString = (\<lambda>c m. if class_of m = c then Some m else None)\<rparr>"

lemma plain_round_trips: "round_trips plain"
  by (simp add: round_trips_def plain_def)

section \<open>What a call goes through\<close>

lemma unary_relayed:
  assumes "round_trips cd" "unary_connected ch handlers" "handlers path = Some h" "mh_behavior h = Unary f"
    "mh_request_deserializer h = FromString cd (class_of m)" "mh_response_serializer h = SerializeToString cd c"
    "(\<exists>st text. f m = Abort st text) \<or> (\<exists>r. f m = Reply r \<and> class_of r = c)"
  shows "unary_unary ch path (SerializeToString cd (class_of m)) (FromString cd c) m = f m"
proof -
  obtain y where y: "SerializeToString cd (class_of m) m = Some y" "FromString cd (class_of m) y = Some m"
    using assms(1) by (auto simp: round_trips_def)
  have U: "(\<forall>st text. f m = Abort st text \<longrightarrow>
        unary_unary ch path (SerializeToString cd (class_of m)) (FromString cd c) m = Abort st text) \<and>
      (\<forall>r z r'. f m = Reply r \<and> SerializeToString cd c r = Some z \<and> FromString cd c z = Some r' \<longrightarrow>
        unary_unary ch path (SerializeToString cd (class_of m)) (FromString cd c) m = Reply r')"
    using assms(2) [unfolded unary_connected_def, rule_format, of "SerializeToString cd (class_of m)" m y path "FromString cd c"] assms(3-6) y
    by auto
  from assms(7) show ?thesis
  proof (elim disjE exE conjE)
    fix r assume r: "f m = Reply r" "class_of r = c"
    moreover obtain z where "SerializeToString cd c r = Some z" "FromString cd c z = Some r"
      using assms(1) r(2) by (auto simp: round_trips_def)
    ultimately show ?thesis using U by metis
  qed (use U in simp)
qed

lemma messages_relayed:
  assumes "round_trips cd" "\<forall>r\<in>set ms. class_of r = c"
  shows "\<exists>zs. map (SerializeToString cd c) ms = map Some zs \<and> map (FromString cd c) zs = map Some ms"
  using assms(2)
proof (induction ms)
  case (Cons r ms)
  then obtain zs where "map (SerializeToString cd c) ms = map Some zs" "map (FromString cd c) zs = map Some ms" by auto
  moreover obtain z where "SerializeToString cd c r = Some z" "FromString cd c z = Some r"
    using assms(1) Cons.prems by (force simp: round_trips_def)
  ultimately show ?case by (intro exI [of _ "z # zs"]) simp
qed simp

lemma stream_relayed:
  assumes "round_trips cd" "stream_connected ch handlers" "handlers path = Some h" "mh_behavior h = Streaming f"
    "mh_request_deserializer h = FromString cd (class_of m)" "mh_response_serializer h = SerializeToString cd c"
    "\<forall>r\<in>set (fst (f m)). class_of r = c" "\<forall>ex. snd (f m) \<noteq> Crash ex"
  shows "unary_stream ch path (SerializeToString cd (class_of m)) (FromString cd c) m = f m"
proof -
  obtain y where y: "SerializeToString cd (class_of m) m = Some y" "FromString cd (class_of m) y = Some m"
    using assms(1) by (auto simp: round_trips_def)
  obtain zs where z: "map (SerializeToString cd c) (fst (f m)) = map Some zs"
      "map (FromString cd c) zs = map Some (fst (f m))"
    using messages_relayed [OF assms(1,7)] by blast
  have "unary_stream ch path (SerializeToString cd (class_of m)) (FromString cd c) m = (fst (f m), snd (f m))"
    using assms(2) [unfolded stream_connected_def, rule_format, of "SerializeToString cd (class_of m)" m y path h f m
      "fst (f m)" "snd (f m)" zs "FromString cd c" "fst (f m)"] assms(3-6,8) y z by simp
  then show ?thesis by simp
qed

lemma registered:
  "add_InferenceServicer_to_server cd sv ''/inference.Inference/Generate'' =
     Some \<lparr>mh_behavior = Unary (sv_Generate sv), mh_request_deserializer = FromString cd GenerateRequest,
       mh_response_serializer = SerializeToString cd GenerateResponse\<rparr>"
  "add_InferenceServicer_to_server cd sv ''/inference.Inference/GenerateStream'' =
     Some \<lparr>mh_behavior = Streaming (sv_GenerateStream sv), mh_request_deserializer = FromString cd GenerateRequest,
       mh_response_serializer = SerializeToString cd TokenClass\<rparr>"
  "add_InferenceServicer_to_server cd sv ''/inference.Inference/Health'' =
     Some \<lparr>mh_behavior = Unary (sv_Health sv), mh_request_deserializer = FromString cd HealthRequest,
       mh_response_serializer = SerializeToString cd HealthResponse\<rparr>"
  by (simp_all add: add_InferenceServicer_to_server_def rpc_method_handlers_def)

lemma unregistered:
  "path \<notin> {''/inference.Inference/Generate'', ''/inference.Inference/GenerateStream'', ''/inference.Inference/Health''} \<Longrightarrow>
    add_InferenceServicer_to_server cd sv path = None"
  by (simp add: add_InferenceServicer_to_server_def rpc_method_handlers_def)

end
