(* ===== verification/ServiceProps.thy ===== *)
theory ServiceProps
  imports BatcherProps Lifecycle Rpc
begin

text \<open>
  The properties of the two transports: what a client is sent, over gRPC and over HTTP, and that
  both say the same.
\<close>

section \<open>Helpers\<close>



lemma count_error_frame [simp]:
  "queue (count_error s b) = queue b" "running (count_error s b) = running b" "reqs (count_error s b) = reqs b"
  "rejected (count_error s b) = rejected b" "bstate (count_error s b) = bstate b" "bworld (count_error s b) = bworld b"
  "m_requests (registry (count_error s b)) = (m_requests (registry b))(s := Suc (m_requests (registry b) s))"
  by (simp_all add: count_error_def record_error_def inc_requests_def)

lemma enqueue_registry: "enqueue e L prompt ps rid uuid streaming b = (r, b') \<Longrightarrow> registry b' = registry b"
  by (auto simp: enqueue_def make_request_def add_def frame_simps split: prod.splits if_splits)

lemma enqueue_refused:
  assumes "1 \<le> next_seq_id (bworld b)" "lim_queue L \<le> int (length (queue b))"
  obtains b' where "enqueue e L prompt ps rid uuid streaming b = (Inl (QueueFullError (lim_queue L)), b')"
    "queue b' = queue b" "running b' = running b" "bstate b' = bstate b" "rejected b' = Suc (rejected b)"
    "registry b' = registry b"
proof -
  obtain i b1 where mk: "make_request e prompt ps rid uuid streaming b = (i, b1)" by fastforce
  note M = make_request_effect [OF mk assms(1)]
  have r: "registry b1 = registry b" using mk by (auto simp: make_request_def split: prod.splits)
  show thesis
    by (rule that [of "set_req i (caller_update (\<lambda>_. GaveUp)) (b1\<lparr>rejected := Suc (rejected b)\<rparr>)"])
      (use mk M r assms(2) in \<open>simp_all add: enqueue_def add_def frame_simps\<close>)
qed

lemma enqueue_accepted:
  assumes "1 \<le> next_seq_id (bworld b)" "int (length (queue b)) < lim_queue L"
  obtains b' where "enqueue e L prompt ps rid uuid streaming b = (Inr (next_seq_id (bworld b)), b')"
proof -
  obtain i b1 where mk: "make_request e prompt ps rid uuid streaming b = (i, b1)" by fastforce
  note M = make_request_effect [OF mk assms(1)]
  have i: "i = next_seq_id (bworld b)" using mk by (simp add: make_request_def make_sequence_eq monotonic_def)
  show thesis
    by (rule that [of "b1\<lparr>queue := queue b @ [i], work := True\<rparr>"])
      (use mk M i assms(2) in \<open>simp add: enqueue_def add_def\<close>)
qed

section \<open>Requests\<close>

text \<open>Both transports mean the same by a request. A body within the declared bounds and the gRPC
  request with the same numbers ask for the same sampling, and a gRPC request that leaves its
  numbers unset asks for what an HTTP body with the defaults asks for, which is within the bounds.\<close>

theorem transports_agree:
  assumes "valid_body body"
  shows "rpc_params \<lparr>rq_prompt = c_prompt body, rq_max_tokens = c_max_tokens body,
      rq_temperature = c_temperature body, rq_top_k = c_top_k body, rq_top_p = c_top_p body,
      rq_request_id = rid\<rparr> = sampling body \<and>
    rpc_params \<lparr>rq_prompt = prompt, rq_max_tokens = 0, rq_temperature = Fin 0, rq_top_k = 0,
      rq_top_p = Fin 0, rq_request_id = rid\<rparr> = sampling (new_completion prompt) \<and>
    valid_body (new_completion prompt)"
proof -
  have "\<not> feq (c_top_p body) (Fin 0)"
    using assms by (cases "c_top_p body") (auto simp: valid_body_def)
  then show ?thesis
    using assms by (auto simp: rpc_params_def sampling_def new_completion_def valid_body_def py_or_def fle_def)
qed

lemma transports_agree_witness:
  "rpc_params \<lparr>rq_prompt = ''a'', rq_max_tokens = 50, rq_temperature = Fin 0, rq_top_k = 0,
      rq_top_p = Fin 1, rq_request_id = ''r''\<rparr> = sampling (new_completion ''a'')"
proof -
  have "valid_body (new_completion ''a'')" by code_simp
  from transports_agree [OF this, of "''r''" "''a''"] show ?thesis by (simp add: new_completion_def)
qed

text \<open>C32: a full queue is refused on every transport. When the queue is at its limit, the gRPC call
  is aborted with RESOURCE_EXHAUSTED, the HTTP call answers 503 and the event stream carries the
  error and ends; the message names the limit, the refusal is counted once, and the queue and the
  batch stay as they are. Otherwise each waits on the next sequence number.\<close>

theorem full_queue_refused:
  assumes "1 \<le> next_seq_id (bworld b)"
  shows "if lim_queue L \<le> int (length (queue b))
    then fst (generate_call e L rq uuid streaming b) = Inl (Abort RESOURCE_EXHAUSTED (queue_full_message (lim_queue L))) \<and>
      fst (completions_call e L body cid uuid b) = Inl (HttpError 503 (queue_full_message (lim_queue L))) \<and>
      fst (sse_call e L body cid uuid b) =
        Inl (Done [sse_data (error_payload (lim_queue L)), sse_data ''[DONE]'']) \<and>
      (\<forall>b'\<in>{snd (generate_call e L rq uuid streaming b), snd (completions_call e L body cid uuid b),
           snd (sse_call e L body cid uuid b)}.
         queue b' = queue b \<and> running b' = running b \<and> bstate b' = bstate b \<and> rejected b' = Suc (rejected b) \<and>
         m_requests (registry b') ''rejected'' = Suc (m_requests (registry b) ''rejected''))
    else fst (generate_call e L rq uuid streaming b) = Inr (next_seq_id (bworld b)) \<and>
      fst (completions_call e L body cid uuid b) = Inr (next_seq_id (bworld b)) \<and>
      fst (sse_call e L body cid uuid b) = Inr (next_seq_id (bworld b))"
proof (cases "lim_queue L \<le> int (length (queue b))")
  case True
  obtain b1 where "enqueue e L (rq_prompt rq) (Some (rpc_params rq)) (rq_request_id rq) uuid streaming b
      = (Inl (QueueFullError (lim_queue L)), b1)"
    "queue b1 = queue b" "running b1 = running b" "bstate b1 = bstate b" "rejected b1 = Suc (rejected b)"
    "registry b1 = registry b" by (rule enqueue_refused [OF assms True])
  moreover obtain b2 where "enqueue e L (c_prompt body) (Some (sampling body)) (completion_id cid) uuid False b
      = (Inl (QueueFullError (lim_queue L)), b2)"
    "queue b2 = queue b" "running b2 = running b" "bstate b2 = bstate b" "rejected b2 = Suc (rejected b)"
    "registry b2 = registry b" by (rule enqueue_refused [OF assms True])
  moreover obtain b3 where "enqueue e L (c_prompt body) (Some (sampling body)) cid uuid True b
      = (Inl (QueueFullError (lim_queue L)), b3)"
    "queue b3 = queue b" "running b3 = running b" "bstate b3 = bstate b" "rejected b3 = Suc (rejected b)"
    "registry b3 = registry b" by (rule enqueue_refused [OF assms True])
  ultimately show ?thesis
    using True by (simp add: generate_call_def completions_call_def sse_call_def rpc_error_def http_error_def sse_handler_def)
next
  case False
  then have lt: "int (length (queue b)) < lim_queue L" by simp
  obtain b1 where "enqueue e L (rq_prompt rq) (Some (rpc_params rq)) (rq_request_id rq) uuid streaming b
      = (Inr (next_seq_id (bworld b)), b1)" by (rule enqueue_accepted [OF assms lt])
  moreover obtain b2 where "enqueue e L (c_prompt body) (Some (sampling body)) (completion_id cid) uuid False b
      = (Inr (next_seq_id (bworld b)), b2)" by (rule enqueue_accepted [OF assms lt])
  moreover obtain b3 where "enqueue e L (c_prompt body) (Some (sampling body)) cid uuid True b
      = (Inr (next_seq_id (bworld b)), b3)" by (rule enqueue_accepted [OF assms lt])
  ultimately show ?thesis
    using False by (simp add: generate_call_def completions_call_def sse_call_def)
qed

lemma full_queue_refused_witness:
  "fst (completions_call demo_engine \<lparr>lim_batch = 2, lim_window = 0, lim_queue = 0\<rparr> (new_completion ''a'')
    ''c'' ''u'' demo_idle) = Inl (HttpError 503 (queue_full_message 0))"
proof -
  have "1 \<le> next_seq_id (bworld demo_idle)" by (simp add: demo_world_def)
  note F = full_queue_refused [OF this, of "\<lparr>lim_batch = 2, lim_window = 0, lim_queue = 0\<rparr>" demo_engine
      "\<lparr>rq_prompt = ''a'', rq_max_tokens = 0, rq_temperature = Fin 0, rq_top_k = 0, rq_top_p = Fin 0,
        rq_request_id = ''r''\<rparr>" "''u''" True "new_completion ''a''" "''c''"]
  have "lim_queue \<lparr>lim_batch = 2, lim_window = 0, lim_queue = 0\<rparr> \<le> int (length (queue demo_idle))" by simp
  with F show ?thesis by (auto split: if_splits)
qed





section \<open>Responses\<close>





section \<open>The life of a request\<close>

text \<open>C7: the scheduler implements the abstract life of every request. However its loop, its callers,
  new submissions and the exporter interleave while calls are served, each request moves along the eight
  transitions of the specification \<open>life\<close>; so an outcome once set is never replaced, a request goes from the
  queue to the batch and out and never back, one whose caller still waits is let go only with an
  outcome, and what was put on a stream stays there.\<close>

theorem request_lifecycle:
  assumes "network e amax fdiv sortd order smax csum fsub dims vocab lm" and "2 \<le> context_limit e"
    and "batch_reach e L b" and "i \<in> issued (bworld b)" and "rtranclp (served_step e L) b b'"
  shows "rtranclp life (view b i) (view b' i) \<and>
    (future (reqs b i) \<noteq> Pending \<longrightarrow> future (reqs b' i) = future (reqs b i)) \<and>
    (place_of b i = Out \<longrightarrow> place_of b' i = Out) \<and> (place_of b i = InBatch \<longrightarrow> place_of b' i \<noteq> InQueue) \<and>
    (place_of b i \<noteq> Out \<and> place_of b' i = Out \<and> caller (reqs b' i) = Waiting \<longrightarrow> future (reqs b' i) \<noteq> Pending) \<and>
    stream_grown (stream (reqs b i)) (stream (reqs b' i))"
proof -
  have "rtranclp life (view b i) (view b' i)"
    using windowed.served_run_lives [OF windowedI [OF assms(1,2)] assms(5,3,4)] by (simp add: lives_def)
  then show ?thesis using lives_onward [of "view b i" "view b' i"] by (simp add: onward_def view_def)
qed

lemma request_lifecycle_witness:
  "\<exists>b :: (pyfloat ften, int ften, nat) batcher. rtranclp life (view demo_queued 1) (view b 1) \<and> place_of demo_queued 1 = InQueue \<and> place_of b 1 = InBatch"
proof -
  let ?b = "sched_step demo_engine demo_limits demo_queued"
  have "place_of demo_queued 1 = InQueue" by (simp add: place_of_def)
  moreover have "place_of ?b 1 = InBatch"
    by (simp add: place_of_def sched_step_def tick_top_def tick_take_def take_admissions_def monotonic_def frame_simps)
  moreover have "1 \<in> issued (bworld demo_queued)" by simp
  note request_lifecycle [OF demo_network demo_window demo_queued_reach this
      r_into_rtranclp [of "served_step demo_engine demo_limits", OF served_step.run]]
  ultimately show ?thesis by blast
qed

section \<open>The life of a process\<close>

text \<open>C16: the worker never serves without a scheduler and never leaves a caller behind. At every stage
  its scheduler is in a state that the scheduler's own transitions reach. From the start of the server until
  the last step of the shutdown the scheduler is alive, and the gauges are refreshed as long as calls
  are handled; once the server has stopped nobody waits, whatever the loop does after that; and
  when \<open>serve\<close> returns, queue, batch and tasks are gone.\<close>

theorem worker_lifecycle:
  assumes "worker_reach e L p"
  shows "batch_reach e L (p_batcher p) \<and> (alive (p_batcher p) \<longleftrightarrow> p_stage p \<noteq> Halted) \<and>
    (p_stage p = Accepting \<or> p_stage p = Draining \<longrightarrow> p_refresher p) \<and>
    (p_stage p \<in> {Drained, Unmonitored, Halted} \<longrightarrow> (\<forall>i\<in>issued (bworld (p_batcher p)). caller (reqs (p_batcher p) i) = GaveUp)) \<and>
    (p_stage p = Halted \<longrightarrow> queue (p_batcher p) = [] \<and> running (p_batcher p) = [] \<and> bstate (p_batcher p) = empty_state \<and>
       phase (p_batcher p) = NoTask \<and> \<not> p_refresher p)"
  using worker_reach_inv [OF assms] by (cases "p_stage p") (simp_all add: worker_inv_def deserted_def taken_down_def)

text \<open>A worker with one call, told to stop.\<close>

definition demo_up :: "(pyfloat ften, int ften, nat) batcher" where
  "demo_up = demo_idle\<lparr>registry := set_model_info ''demo'' ''cpu'' (registry demo_idle)\<rparr>"

definition demo_call :: "(pyfloat ften, int ften, nat) batcher" where
  "demo_call = snd (enqueue demo_engine demo_limits ''a'' None ''r'' ''u'' True demo_up)"

definition demo_draining :: "(pyfloat ften, int ften, nat) process" where
  "demo_draining = \<lparr>p_batcher = demo_call, p_stage = Draining, p_refresher = True, p_stop = False\<rparr>"

lemma demo_draining_reach: "worker_reach demo_engine demo_limits demo_draining"
proof -
  let ?p = "\<lparr>p_batcher = demo_up, p_stage = Booting, p_refresher = True, p_stop = False\<rparr>"
  have "serve_boot ''demo'' ''cpu'' None None None (\<lambda>_. undefined) demo_world = Inr ?p"
    by (simp add: serve_boot_def refresher_start_def demo_up_def demo_idle_def start_def new_batcher_def)
  then have "worker_reach demo_engine demo_limits ?p"
    by (rule worker_reach.boot [rotated]) (simp add: demo_world_def)
  from worker_reach.listen [OF this]
  have "worker_reach demo_engine demo_limits (?p\<lparr>p_stage := Accepting\<rparr>)" by (simp add: serve_listen_def)
  from worker_reach.served [OF this _ served_step.call [OF prod.collapse [symmetric]]]
  have "worker_reach demo_engine demo_limits (?p\<lparr>p_stage := Accepting, p_batcher := demo_call\<rparr>)"
    by (simp add: demo_call_def)
  from worker_reach.woken [OF this, of True] show ?thesis by (simp add: serve_wait_def demo_draining_def)
qed

lemma demo_call_simps [unfolded One_nat_def, simp]:
  "issued (bworld demo_call) = {1}" "clock (bworld demo_call) = demo_time" "caller (reqs demo_call 1) = Waiting"
  by (auto simp: demo_call_def demo_up_def enqueue_def make_request_def make_sequence_eq monotonic_def add_def
      demo_world_def issued_def)

lemma worker_lifecycle_witness:
  "\<exists>p. worker_reach demo_engine demo_limits p \<and> p_stage p = Draining \<and> alive (p_batcher p) \<and> p_refresher p"
  using worker_lifecycle [OF demo_draining_reach] demo_draining_reach by (auto simp: demo_draining_def)

text \<open>A drained scheduler has nothing left that the shutdown could cancel.\<close>

lemma cancel_calls_drained:
  assumes "queue b = []" "running b = []"
  shows "queue (fold (cancel_call C) is b) = [] \<and> running (fold (cancel_call C) is b) = [] \<and>
    (future (reqs b i) \<noteq> Pending \<longrightarrow> future (reqs (fold (cancel_call C) is b) i) = future (reqs b i))"
  using assms
proof (induction "is" arbitrary: b)
  case Nil
  then show ?case by simp
next
  case (Cons j "is")
  have "queue (cancel_call C j b) = [] \<and> running (cancel_call C j b) = [] \<and>
      (future (reqs b i) \<noteq> Pending \<longrightarrow> future (reqs (cancel_call C j b) i) = future (reqs b i))"
    using Cons.prems
    by (auto simp: cancel_call_def submit_cancelled_def stream_closed_def stream_left_def settle_def frame_simps)
  then show ?case using Cons.IH [of "cancel_call C j b"] by auto
qed

lemma worker_reach_run:
  "worker_reach e L p \<Longrightarrow> worker_reach e L (p\<lparr>p_batcher := sched_run e L n (p_batcher p)\<rparr>)"
proof (induction n arbitrary: p)
  case 0
  then show ?case by simp
next
  case (Suc n)
  from Suc.IH [OF worker_reach.run [OF Suc.prems]] show ?case by simp
qed

text \<open>C17: a drain that is given the time it needs cuts nobody off. From every state in which the
  worker was told to stop, the loop left alone answers every caller that waits within finitely many
  steps, and the three stops that follow, whichever calls the server then still counts as open, end in a
  halted worker in which each of those answers is as the loop left it.\<close>

theorem drain_completes:
  assumes "network e amax fdiv sortd order smax csum fsub dims vocab lm" and "2 \<le> context_limit e"
    and "worker_reach e L p" and "p_stage p = Draining" and "1 \<le> lim_batch L"
    and "unbounded_clock (clock (bworld (p_batcher p)))"
  shows "\<exists>n drained halted. drained = p\<lparr>p_batcher := sched_run e L n (p_batcher p)\<rparr> \<and>
    halted = batcher_stop (refresher_stop (server_stopped C drained)) \<and>
    worker_reach e L halted \<and> p_stage halted = Halted \<and>
    (\<forall>i\<in>issued (bworld (p_batcher p)). caller (reqs (p_batcher p) i) = Waiting \<longrightarrow>
       future (reqs (p_batcher drained) i) \<noteq> Pending \<and>
       future (reqs (p_batcher halted) i) = future (reqs (p_batcher drained) i))"
proof -
  have "handling p \<and> p_batcher p = p_batcher p" using assms(4) by simp
  from worker_host.hosted_drains [OF windowedI [OF assms(1,2)] assms(3) this assms(5,6)]
  obtain n where n: "queue (sched_run e L n (p_batcher p)) = []" "running (sched_run e L n (p_batcher p)) = []"
    "\<forall>i\<in>issued (bworld (p_batcher p)). caller (reqs (p_batcher p) i) = Waiting \<longrightarrow>
       future (reqs (sched_run e L n (p_batcher p)) i) \<noteq> Pending" by blast
  define drained where "drained = p\<lparr>p_batcher := sched_run e L n (p_batcher p)\<rparr>"
  define down where "down = server_stopped C drained"
  have "worker_reach e L drained" unfolding drained_def by (rule worker_reach_run [OF assms(3)])
  then have "worker_reach e L down"
    unfolding down_def by (rule worker_reach.server_down) (simp add: drained_def assms(4))
  then have "worker_reach e L (refresher_stop down)"
    by (rule worker_reach.refresher_down) (simp add: down_def server_stopped_def)
  then have reach: "worker_reach e L (batcher_stop (refresher_stop down))"
    by (rule worker_reach.batcher_down) (simp add: refresher_stop_def)
  have "future (reqs (p_batcher (batcher_stop (refresher_stop down))) i) = future (reqs (p_batcher drained) i)"
    if "future (reqs (p_batcher drained) i) \<noteq> Pending" for i
    using cancel_calls_drained [of "p_batcher drained" C "open_calls (p_batcher drained)" i] n(1,2) that
    by (simp add: batcher_stop_def refresher_stop_def down_def server_stopped_def drained_def stop_def Let_def)
  then show ?thesis
    using reach n(3) by (intro exI [of _ n]) (simp add: down_def drained_def batcher_stop_def)
qed

lemma drain_completes_witness:
  "\<exists>p. worker_reach demo_engine demo_limits p \<and> p_stage p = Halted \<and> future (reqs (p_batcher p) 1) \<noteq> Pending"
proof -
  have "1 \<le> lim_batch demo_limits" "unbounded_clock (clock (bworld (p_batcher demo_draining)))" "p_stage demo_draining = Draining"
    using demo_clock by (simp_all add: demo_draining_def)
  from drain_completes [OF demo_network demo_window demo_draining_reach this(3,1,2), of "[]"]
  show ?thesis by (auto simp: demo_draining_def)
qed


text \<open>C18: the HTTP application answers whom it serves. Before \<open>lifespan\<close> has brought the scheduler up a
  request is told that the engine is starting; while the application serves, every request finds a
  live scheduler, whose loop left alone answers every caller that waits within finitely many steps; and
  after the end that scheduler holds nothing and does not run.\<close>

theorem app_lifecycle:
  assumes "network e amax fdiv sortd order smax csum fsub dims vocab lm" and "2 \<le> context_limit e"
    and "app_reach e L a" and "1 \<le> lim_batch L"
    and "\<forall>b. a_batcher a = Some b \<longrightarrow> unbounded_clock (clock (bworld b))"
  shows "if a_serving a
    then \<exists>b n. get_batcher (a_batcher a) = Body b \<and> batch_reach e L b \<and> alive b \<and>
      queue (sched_run e L n b) = [] \<and> running (sched_run e L n b) = [] \<and>
      (\<forall>i\<in>issued (bworld b). caller (reqs b i) = Waiting \<longrightarrow> future (reqs (sched_run e L n b) i) \<noteq> Pending)
    else case a_batcher a of
        None \<Rightarrow> get_batcher (a_batcher a) = HttpError 503 ''engine is still starting''
      | Some b \<Rightarrow> \<not> alive b \<and> queue b = [] \<and> running b = [] \<and> bstate b = empty_state \<and> phase b = NoTask"
proof (cases "a_serving a")
  case True
  then obtain b where b: "get_batcher (a_batcher a) = Body b" "a_batcher a = Some b" "batch_reach e L b" "alive b"
    using app_reach_inv [OF assms(3)] by (auto simp: app_inv_def get_batcher_def split: option.splits)
  have "unbounded_clock (clock (bworld b))" using assms(5) b(2) by simp
  from app_host.hosted_drains [OF windowedI [OF assms(1,2)] assms(3) conjI [OF True b(1)] assms(4) this]
  show ?thesis using True b by auto
next
  case False
  then show ?thesis
    using app_reach_inv [OF assms(3)] by (auto simp: app_inv_def taken_down_def get_batcher_def split: option.splits)
qed

definition demo_app :: "(pyfloat ften, int ften, nat) app" where
  "demo_app = \<lparr>a_batcher = Some demo_call, a_serving = True\<rparr>"

lemma demo_app_reach: "app_reach demo_engine demo_limits demo_app"
proof -
  have "app_reach demo_engine demo_limits (lifespan_enter ''demo'' ''cpu'' (\<lambda>_. undefined) demo_world new_app)"
    by (rule app_reach.enter [OF app_reach.new]) (simp_all add: new_app_def demo_world_def)
  moreover have "lifespan_enter ''demo'' ''cpu'' (\<lambda>_. undefined) demo_world new_app = \<lparr>a_batcher = Some demo_up, a_serving = True\<rparr>"
    by (simp add: lifespan_enter_def new_app_def demo_up_def demo_idle_def Let_def)
  ultimately have "app_reach demo_engine demo_limits \<lparr>a_batcher = Some demo_up, a_serving = True\<rparr>" by simp
  from app_reach.served [OF this _ _ served_step.call [OF prod.collapse [symmetric]]] show ?thesis
    by (simp add: demo_app_def demo_call_def)
qed

lemma app_lifecycle_witness:
  "\<exists>a b n. app_reach demo_engine demo_limits a \<and> a_batcher a = Some b \<and> caller (reqs b 1) = Waiting \<and>
    future (reqs (sched_run demo_engine demo_limits n b) 1) \<noteq> Pending"
proof -
  have "1 \<le> lim_batch demo_limits" "\<forall>b. a_batcher demo_app = Some b \<longrightarrow> unbounded_clock (clock (bworld b))"
    using demo_clock by (simp_all add: demo_app_def)
  from app_lifecycle [OF demo_network demo_window demo_app_reach this]
  have "\<exists>n. future (reqs (sched_run demo_engine demo_limits n demo_call) 1) \<noteq> Pending"
    by (auto simp: demo_app_def get_batcher_def)
  then show ?thesis
    using demo_app_reach by (intro exI [of _ demo_app] exI [of _ demo_call]) (simp add: demo_app_def)
qed

end
