(* ===== verification/Bench.thy ===== *)
theory Bench
  imports BatcherServe
begin

text \<open>
  \<open>bench/bench_kv_cache.py\<close> and \<open>bench/bench_throughput.py\<close>: the two benchmarks, as far as they
  compute. A duration is the difference of two readings of \<open>time.perf_counter\<close>, which are a parameter
  \<open>perf\<close>, the \<open>k\<close>-th reading being \<open>perf k\<close>. Quotients are exact; where a rounding decides which
  measurement is reported (the rank of a percentile) the rounding of doubles is a parameter \<open>fl\<close>.
  Only the printing of the tables is left out: \<open>report\<close> computes the numbers of its rows.
\<close>

section \<open>Lists given on the command line\<close>

text \<open>\<open>[int(t) for t in s.split(",") if t.strip()]\<close>\<close>

fun split_commas :: "string \<Rightarrow> string \<Rightarrow> string list" where
  "split_commas acc [] = [rev acc]"
| "split_commas acc (c # cs) = (if c = CHR '','' then rev acc # split_commas [] cs else split_commas (c # acc) cs)"

fun py_ints :: "string list \<Rightarrow> exn + int list" where
  "py_ints [] = Inr []"
| "py_ints (t # ts) = try_bind (py_int t) (\<lambda>n. try_bind (py_ints ts) (\<lambda>ns. Inr (n # ns)))"

definition parse_list :: "string \<Rightarrow> exn + int list" where
  "parse_list s = py_ints (filter (\<lambda>t. strip t \<noteq> []) (split_commas [] s))"

section \<open>bench_kv_cache.py\<close>

definition PROMPT :: string where
  "PROMPT = ''The history of computing begins long before the electronic computer, with '' @
     ''mechanical calculators and the idea that arithmetic could be automated''"

record kv_row =
  kr_tokens :: int
  kr_cached_s :: rat
  kr_naive_s :: rat
  kr_cached_tps :: rat
  kr_naive_tps :: rat
  kr_speedup :: rat
  kr_status :: string

text \<open>\<open>timed\<close>: the duration between a reading and the next.\<close>

definition timed :: "(nat \<Rightarrow> rat) \<Rightarrow> nat \<Rightarrow> rat" where
  "timed perf k = perf (Suc k) - perf k"

definition make_kv_row :: "int \<Rightarrow> string \<Rightarrow> string \<Rightarrow> rat \<Rightarrow> rat \<Rightarrow> exn + kv_row" where
  "make_kv_row n cached naive cached_s naive_s =
     try_bind (py_div (of_int n) cached_s) (\<lambda>ctps.
     try_bind (py_div (of_int n) naive_s) (\<lambda>utps.
     try_bind (py_div naive_s cached_s) (\<lambda>speedup.
     Inr \<lparr>kr_tokens = n, kr_cached_s = cached_s, kr_naive_s = naive_s, kr_cached_tps = ctps,
          kr_naive_tps = utps, kr_speedup = speedup,
          kr_status = (if cached = naive then ''identical'' else ''MISMATCH'')\<rparr>)))"

fun kv_rows :: "('f, 'i, 'b, 'd, 'r) engine \<Rightarrow> (nat \<Rightarrow> rat) \<Rightarrow> nat \<Rightarrow> int list \<Rightarrow> 'r world \<Rightarrow>
    (exn + kv_row list) option" where
  "kv_rows e perf k [] w = Some (Inr [])"
| "kv_rows e perf k (n # ns) w = (case generate_with_kv_cache e PROMPT n None w of
       None \<Rightarrow> None
     | Some (Inl ex) \<Rightarrow> Some (Inl ex)
     | Some (Inr (cached, _, w)) \<Rightarrow>
         (case try_bind (generate_without_cache e PROMPT n) (\<lambda>naive.
             make_kv_row n cached naive (timed perf k) (timed perf (k + 2))) of
            Inl ex \<Rightarrow> Some (Inl ex)
          | Inr r0 \<Rightarrow> map_option (\<lambda>r. try_bind r (\<lambda>table. Inr (r0 # table))) (kv_rows e perf (k + 4) ns w)))"

definition kv_exit :: "kv_row list \<Rightarrow> int" where
  "kv_exit table = (if \<forall>r\<in>set table. kr_status r = ''identical'' then 0 else 1)"

text \<open>\<open>main\<close> after the engine is loaded: a warm-up, then a row for each length.\<close>

definition kv_main :: "('f, 'i, 'b, 'd, 'r) engine \<Rightarrow> (nat \<Rightarrow> rat) \<Rightarrow> string \<Rightarrow> 'r world \<Rightarrow>
    (exn + kv_row list \<times> int) option" where
  "kv_main e perf tokens w = (case generate_with_kv_cache e PROMPT 4 None w of
       None \<Rightarrow> None
     | Some (Inl ex) \<Rightarrow> Some (Inl ex)
     | Some (Inr (_, _, w)) \<Rightarrow>
         (case parse_list tokens of
            Inl ex \<Rightarrow> Some (Inl ex)
          | Inr lengths \<Rightarrow>
              map_option (\<lambda>r. try_bind r (\<lambda>table. Inr (table, kv_exit table))) (kv_rows e perf 0 lengths w)))"

section \<open>bench_throughput.py: one run\<close>

definition PROMPTS :: "string list" where
  "PROMPTS = [''Once upon a time'', ''The capital of France is'', ''def fibonacci(n):'',
     ''In the year 2050, humanity'', ''The three laws of robotics are'', ''To be or not to be, that is'',
     ''The mitochondria is the'', ''Breaking news this morning:'']"

definition bench_prompts :: "nat \<Rightarrow> string list" where
  "bench_prompts concurrency = map (\<lambda>i. PROMPTS ! (i mod length PROMPTS)) [0..<concurrency]"

text \<open>The dictionary of a run; \<open>mean_batch\<close> is \<open>None\<close> for NaN, \<open>spread\<close> is \<open>None\<close> while absent.\<close>

record bench_stats =
  bs_elapsed :: rat
  bs_latencies :: "rat list"
  bs_ttfts :: "rat list"
  bs_tokens :: nat
  bs_mean_batch :: "rat option"
  bs_steps :: nat
  bs_spread :: "rat option"

text \<open>The submissions \<open>gather\<close> starts, in order, each up to its await.\<close>

fun submit_all :: "('f, 'i, 'b, 'd, 'r) engine \<Rightarrow> limits \<Rightarrow> sampling_params \<Rightarrow> (nat \<Rightarrow> string) \<Rightarrow> string list \<Rightarrow>
    ('f, 'i, 'r) batcher \<Rightarrow> (exn + nat) list \<times> ('f, 'i, 'r) batcher" where
  "submit_all e L ps uuid [] b = ([], b)"
| "submit_all e L ps uuid (x # xs) b =
     (let (r, b) = enqueue e L x (Some ps) [] (uuid (length xs)) False b;
          (rs, b) = submit_all e L ps uuid xs b
      in (r # rs, b))"

text \<open>The first refusal, or the ids of the accepted requests.\<close>

fun accepted :: "(exn + nat) list \<Rightarrow> exn + nat list" where
  "accepted [] = Inr []"
| "accepted (r # rs) = try_bind r (\<lambda>i. try_bind (accepted rs) (\<lambda>is. Inr (i # is)))"

text \<open>What \<open>gather\<close> has: an exception as soon as one future fails, the results once all are there.\<close>

fun gathered :: "nat list \<Rightarrow> ('f, 'i, 'r) batcher \<Rightarrow> (exn + result list) option" where
  "gathered [] b = Some (Inr [])"
| "gathered (i # is) b = (case future (reqs b i) of
       Failed ex \<Rightarrow> Some (Inl ex)
     | Cancelled \<Rightarrow> Some (Inl CancelledError)
     | Pending \<Rightarrow> (case gathered is b of Some (Inl ex) \<Rightarrow> Some (Inl ex) | _ \<Rightarrow> None)
     | Resolved res \<Rightarrow> map_option (\<lambda>r. try_bind r (\<lambda>rs. Inr (res # rs))) (gathered is b))"

text \<open>The event loop until \<open>gather\<close> is done, in at most \<open>n\<close> steps of the scheduler.\<close>

fun run_until :: "('f, 'i, 'b, 'd, 'r) engine \<Rightarrow> limits \<Rightarrow> nat \<Rightarrow> nat list \<Rightarrow> ('f, 'i, 'r) batcher \<Rightarrow>
    ((exn + result list) \<times> ('f, 'i, 'r) batcher) option" where
  "run_until e L n is b = (case gathered is b of
       Some r \<Rightarrow> Some (r, b)
     | None \<Rightarrow> (case n of 0 \<Rightarrow> None | Suc m \<Rightarrow> run_until e L m is (sched_step e L b)))"

declare run_until.simps [simp del]

text \<open>
  \<open>run_inprocess\<close>. The scheduler's task is started first, so it finds nothing and sleeps; then the
  submissions run. \<open>rs\<close> are the request objects the ids will name, \<open>t0\<close> and \<open>t1\<close> the two readings of
  the clock. The world is returned because later runs share the engine.
\<close>

definition run_inprocess :: "('f, 'i, 'b, 'd, 'r) engine \<Rightarrow> (nat \<Rightarrow> string) \<Rightarrow> (nat \<Rightarrow> request) \<Rightarrow> nat \<Rightarrow> int \<Rightarrow>
    nat \<Rightarrow> int \<Rightarrow> rat \<Rightarrow> rat \<Rightarrow> 'r world \<Rightarrow> (exn + bench_stats \<times> 'r world) option" where
  "run_inprocess e uuid rs n limit concurrency tokens t0 t1 w =
     (let L = init_limits (config e) (Some limit) (Some 20) None;
          b = tick_top L (start (new_batcher rs w));
          ps = default_params\<lparr>max_tokens := tokens\<rparr>;
          (os, b) = submit_all e L ps uuid (bench_prompts concurrency) b
      in case accepted os of
           Inl ex \<Rightarrow> Some (Inl ex)
         | Inr is \<Rightarrow>
             (case run_until e L n is b of
                None \<Rightarrow> None
              | Some (Inl ex, b) \<Rightarrow> Some (Inl ex)
              | Some (Inr results, b) \<Rightarrow>
                  Some (Inr (\<lparr>bs_elapsed = t1 - t0, bs_latencies = map total_s results,
                    bs_ttfts = map ttft_s results,
                    bs_tokens = sum_list (map res_completion_tokens results),
                    bs_mean_batch = Some (mean_batch_size b), bs_steps = steps b, bs_spread = None\<rparr>,
                    bworld (stop b)))))"

section \<open>bench_throughput.py: the sweep\<close>

text \<open>
  \<open>min(reps, key=...)\<close> keeps the first of the smallest, \<open>statistics.median\<close> is the middle of the sorted
  list or the mean of the two middle ones.
\<close>

fun min_by :: "('a \<Rightarrow> rat) \<Rightarrow> 'a \<Rightarrow> 'a list \<Rightarrow> 'a" where
  "min_by f x [] = x"
| "min_by f x (y # ys) = min_by f (if f y < f x then y else x) ys"

definition median :: "rat list \<Rightarrow> rat" where
  "median xs = (let ys = sort xs; n = length xs
     in if odd n then ys ! (n div 2) else (ys ! (n div 2 - 1) + ys ! (n div 2)) / 2)"

text \<open>The repetition that is reported, with the spread of all of them.\<close>

definition pick_rep :: "bench_stats list \<Rightarrow> exn + bench_stats" where
  "pick_rep reps = (case reps of
       [] \<Rightarrow> Inl (ValueError ''min() arg is an empty sequence'')
     | r # rs \<Rightarrow>
         (let times = map bs_elapsed reps;
              best = min_by (\<lambda>s. \<bar>bs_elapsed s - median times\<bar>) r rs
          in try_bind (py_div (Max (set times) - Min (set times)) (bs_elapsed best)) (\<lambda>spread.
             Inr (best\<lparr>bs_spread := Some spread\<rparr>))))"

text \<open>
  The repetitions for one limit. A run is numbered for its readings of the clock and its ids, and
  may take \<open>n\<close> steps.
\<close>

fun run_reps :: "('f, 'i, 'b, 'd, 'r) engine \<Rightarrow> (nat \<Rightarrow> rat) \<Rightarrow> (nat \<Rightarrow> string) \<Rightarrow> (nat \<Rightarrow> request) \<Rightarrow> nat \<Rightarrow>
    int \<Rightarrow> nat \<Rightarrow> int \<Rightarrow> nat \<Rightarrow> nat \<Rightarrow> 'r world \<Rightarrow> (exn + bench_stats list \<times> 'r world) option" where
  "run_reps e perf uuid rs n limit concurrency tokens 0 k w = Some (Inr ([], w))"
| "run_reps e perf uuid rs n limit concurrency tokens (Suc m) k w =
     (case run_inprocess e uuid rs n limit concurrency tokens (perf k) (perf (k + 1)) w of
        None \<Rightarrow> None
      | Some (Inl ex) \<Rightarrow> Some (Inl ex)
      | Some (Inr (st, w)) \<Rightarrow>
          map_option (\<lambda>r. try_bind r (\<lambda>(sts, w). Inr (st # sts, w)))
            (run_reps e perf uuid rs n limit concurrency tokens m (k + 2) w))"

fun sweep :: "('f, 'i, 'b, 'd, 'r) engine \<Rightarrow> (nat \<Rightarrow> rat) \<Rightarrow> (nat \<Rightarrow> string) \<Rightarrow> (nat \<Rightarrow> request) \<Rightarrow> nat \<Rightarrow>
    int list \<Rightarrow> nat \<Rightarrow> int \<Rightarrow> nat \<Rightarrow> nat \<Rightarrow> 'r world \<Rightarrow> (exn + (int \<times> bench_stats) list) option" where
  "sweep e perf uuid rs n [] concurrency tokens repeats k w = Some (Inr [])"
| "sweep e perf uuid rs n (limit # limits) concurrency tokens repeats k w =
     (case run_reps e perf uuid rs n limit concurrency tokens repeats k w of
        None \<Rightarrow> None
      | Some (Inl ex) \<Rightarrow> Some (Inl ex)
      | Some (Inr (reps, w)) \<Rightarrow>
          (case pick_rep reps of
             Inl ex \<Rightarrow> Some (Inl ex)
           | Inr st \<Rightarrow>
               map_option (\<lambda>r. try_bind r (\<lambda>table. Inr ((limit, st) # table)))
                 (sweep e perf uuid rs n limits concurrency tokens repeats (k + 2 * repeats) w)))"

section \<open>bench_throughput.py: the report\<close>

definition percentile :: "(rat \<Rightarrow> rat) \<Rightarrow> rat list \<Rightarrow> rat \<Rightarrow> rat" where
  "percentile fl ordered p =
     (if ordered = [] then 0
      else ordered ! nat (min (py_round (fl (fl (p / 100) * of_nat (length ordered - 1))))
        (int (length ordered) - 1)))"

definition percentiles :: "(rat \<Rightarrow> rat) \<Rightarrow> rat list \<Rightarrow> rat \<times> rat \<times> rat" where
  "percentiles fl values =
     (let ordered = sort values in (percentile fl ordered 50, percentile fl ordered 95, percentile fl ordered 99))"

record report_row =
  rr_label :: string
  rr_elapsed :: rat
  rr_throughput :: rat
  rr_mean_batch :: "rat option"
  rr_percentiles :: "rat \<times> rat \<times> rat"
  rr_spread :: rat
  rr_speedup :: rat

text \<open>The rows after the first are compared with the first row's throughput.\<close>

fun report_rows :: "(rat \<Rightarrow> rat) \<Rightarrow> rat option \<Rightarrow> (string \<times> bench_stats) list \<Rightarrow> exn + report_row list" where
  "report_rows fl baseline [] = Inr []"
| "report_rows fl baseline ((label, st) # table) =
     try_bind (py_div (of_nat (bs_tokens st)) (bs_elapsed st)) (\<lambda>throughput.
       let base = (case baseline of None \<Rightarrow> throughput | Some t \<Rightarrow> t)
       in try_bind (py_div throughput base) (\<lambda>speedup.
          try_bind (report_rows fl (Some base) table) (\<lambda>rest.
            Inr (\<lparr>rr_label = label, rr_elapsed = bs_elapsed st, rr_throughput = throughput,
              rr_mean_batch = bs_mean_batch st, rr_percentiles = percentiles fl (bs_latencies st),
              rr_spread = (case bs_spread st of None \<Rightarrow> 0 | Some x \<Rightarrow> x), rr_speedup = speedup\<rparr> # rest))))"

definition report :: "(rat \<Rightarrow> rat) \<Rightarrow> (string \<times> bench_stats) list \<Rightarrow> exn + report_row list" where
  "report fl table = report_rows fl None table"

text \<open>
  Over HTTP the requests are answered by a server: \<open>post k prompt tokens\<close> is what the \<open>k\<close>-th one took
  and how many tokens its body reports, or the exception it raised.
\<close>

fun post_all :: "(nat \<Rightarrow> string \<Rightarrow> int \<Rightarrow> exn + rat \<times> nat) \<Rightarrow> int \<Rightarrow> nat \<Rightarrow> string list \<Rightarrow> exn + (rat \<times> nat) list" where
  "post_all post tokens k [] = Inr []"
| "post_all post tokens k (x # xs) =
     try_bind (post k x tokens) (\<lambda>p. try_bind (post_all post tokens (Suc k) xs) (\<lambda>ps. Inr (p # ps)))"

definition run_http :: "(nat \<Rightarrow> string \<Rightarrow> int \<Rightarrow> exn + rat \<times> nat) \<Rightarrow> nat \<Rightarrow> int \<Rightarrow> rat \<Rightarrow> rat \<Rightarrow> exn + bench_stats" where
  "run_http post concurrency tokens t0 t1 =
     try_bind (post_all post tokens 0 (bench_prompts concurrency)) (\<lambda>pairs.
       Inr \<lparr>bs_elapsed = t1 - t0, bs_latencies = map fst pairs, bs_ttfts = [],
            bs_tokens = sum_list (map snd pairs), bs_mean_batch = None, bs_steps = 0, bs_spread = None\<rparr>)"

record bench_args =
  a_concurrency :: nat
  a_tokens :: int
  a_batches :: string
  a_repeats :: nat
  a_http :: string

definition bench_defaults :: bench_args where
  "bench_defaults = \<lparr>a_concurrency = 16, a_tokens = 32, a_batches = ''1,2,4,8'', a_repeats = 3, a_http = []\<rparr>"

text \<open>\<open>main_async\<close>: the rows it reports. In process, a warm-up comes first.\<close>

definition main_async :: "('f, 'i, 'b, 'd, 'r) engine \<Rightarrow> (rat \<Rightarrow> rat) \<Rightarrow> (nat \<Rightarrow> rat) \<Rightarrow> (nat \<Rightarrow> string) \<Rightarrow>
    (nat \<Rightarrow> request) \<Rightarrow> (nat \<Rightarrow> string \<Rightarrow> int \<Rightarrow> exn + rat \<times> nat) \<Rightarrow> nat \<Rightarrow> bench_args \<Rightarrow> 'r world \<Rightarrow>
    (exn + report_row list) option" where
  "main_async e fl perf uuid rs post n args w =
     (if a_http args \<noteq> [] then
        Some (try_bind (run_http post (a_concurrency args) (a_tokens args) (perf 0) (perf 1)) (\<lambda>st.
          report fl [(''http'', st)]))
      else (case generate_with_kv_cache e ''warm up'' 4 None w of
          None \<Rightarrow> None
        | Some (Inl ex) \<Rightarrow> Some (Inl ex)
        | Some (Inr (_, _, w)) \<Rightarrow>
            (case parse_list (a_batches args) of
               Inl ex \<Rightarrow> Some (Inl ex)
             | Inr limits \<Rightarrow>
                 map_option (\<lambda>r. try_bind r (\<lambda>table. report fl (map (\<lambda>(limit, st). (py_str limit, st)) table)))
                   (sweep e perf uuid rs n limits (a_concurrency args) (a_tokens args) (a_repeats args) 0 w))))"

end
