(* ===== verification/BenchRun.thy ===== *)
theory BenchRun
  imports Bench
begin

text \<open>
  Why a run of the throughput benchmark returns, and what it counts: the warm-up leaves a reachable
  world, \<open>gather\<close> starts every submission, and the loop serves them all.
\<close>

section \<open>The warm-up\<close>

lemma decode_until_finished_reach:
  assumes "decode_until_finished e sid st w = Some (Inr w')" and "engine_reach e w st"
  shows "\<exists>st'. engine_reach e w' st' \<and> clock w' = clock w"
proof -
  let ?P = "\<lambda>e sid st w (r :: exn + _). \<forall>w'. r = Inr w' \<longrightarrow> engine_reach e w st \<longrightarrow> (\<exists>st'. engine_reach e w' st' \<and> clock w' = clock w)"
  have "?P e sid st w (Inr w')"
  proof (rule decode_until_finished.raw_induct [where P = ?P, rotated, OF assms(1)], intro allI impI)
    fix f e sid st w r w'
    assume IH: "\<And>e sid st w r. f e sid st w = Some r \<Longrightarrow> ?P e sid st w r"
      and run: "(if finished (heap w sid) then Some (Inr w) else case decode_step e st w of
        Inl ex \<Rightarrow> Some (Inl ex) | Inr r \<Rightarrow> f e sid (fst r) (snd r)) = Some r"
      and r: "r = Inr w'" and reach: "engine_reach e w st"
    show "\<exists>st'. engine_reach e w' st' \<and> clock w' = clock w"
    proof (cases "finished (heap w sid)")
      case True
      then show ?thesis using run r reach by auto
    next
      case False
      then obtain st1 w1 where dec: "decode_step e st w = Inr (st1, w1)" using run r by (auto split: sum.splits)
      then have "f e sid st1 w1 = Some (Inr w')" using run r False by simp
      then show ?thesis using IH engine_reach.decode [OF reach dec] decode_keeps [OF dec] by metis
    qed
  qed
  then show ?thesis using assms(2) by blast
qed

lemma generate_with_kv_cache_reach:
  assumes gen: "generate_with_kv_cache e prompt n ps w = Some (Inr (text, p, w'))"
    and reach: "engine_reach e w st" and ctx: "1 \<le> next_seq_id w"
  shows "\<exists>st'. engine_reach e w' st' \<and> clock w' = clock w"
proof -
  define ps' where "ps' = (case ps of None \<Rightarrow> default_params | Some p \<Rightarrow> p)\<lparr>max_tokens := n\<rparr>"
  obtain sid w0 where mk: "make_sequence e prompt (Some ps') [] w = (sid, w0)" by fastforce
  obtain st1 w1 where pre: "prefill e [sid] w0 = Inr (st1, w1)"
    using gen mk by (auto simp: generate_with_kv_cache_def ps'_def [symmetric] Let_def split: sum.splits)
  have run: "decode_until_finished e sid st1 w1 = Some (Inr w')"
    using gen mk pre
    by (auto simp: generate_with_kv_cache_def ps'_def [symmetric] Let_def try_bind_Inr_iff)
  have w0: "sid \<in> issued w0" "output_ids (heap w0 sid) = []" "clock w0 = clock w"
    using mk ctx by (auto simp: make_sequence_eq issued_def)
  have adm: "admit e empty_state [sid] w0 = Inr (st1, w1)" using pre by (simp add: admit_def)
  have "engine_reach e w0 st" by (rule engine_reach.submit [OF reach mk])
  then have "engine_reach e w1 st1"
    by (rule engine_reach.admit [OF engine_reach.reset _ _ _ adm]) (use w0 in simp_all)
  then show ?thesis
    using decode_until_finished_reach [OF run] admit_keeps [OF adm] w0(3) by simp
qed

section \<open>Submissions\<close>

lemma accepted_ids [simp]: "accepted (map Inr is) = Inr is"
  by (induction "is") simp_all

text \<open>What \<open>gather\<close> has started: every prompt is a waiting request in the queue, in order.\<close>

definition submitted :: "('f, 'i, 'b, 'd, 'r) engine \<Rightarrow> sampling_params \<Rightarrow> string list \<Rightarrow> nat list \<Rightarrow>
    ('f, 'i, 'r) batcher \<Rightarrow> bool" where
  "submitted e ps xs is b \<longleftrightarrow> list_all2 (\<lambda>i x. i \<in> issued (bworld b) \<and> caller (reqs b i) = Waiting \<and>
     future (reqs b i) = Pending \<and> prompt_ids (seq_of b i) = encode e x \<and>
     params (seq_of b i) = clamp (config e) ps) is xs"

lemma enqueue_room:
  assumes room: "int (length (queue b)) < lim_queue L" and start: "1 \<le> next_seq_id (bworld b)"
  obtains i b' where "enqueue e L x (Some ps) rid uuid False b = (Inr i, b')" "queue b' = queue b @ [i]"
    "running b' = running b" "bstate b' = bstate b" "phase b' = phase b" "alive b' = alive b"
    "clock (bworld b') = clock (bworld b)" "1 \<le> next_seq_id (bworld b')" "work b'"
    "issued (bworld b') = insert i (issued (bworld b))" "i \<notin> issued (bworld b)"
    "\<And>j. j \<noteq> i \<Longrightarrow> seq_of b' j = seq_of b j \<and> reqs b' j = reqs b j" "submitted e ps [x] [i] b'"
proof -
  obtain i b1 where mk: "make_request e x (Some ps) rid uuid False b = (i, b1)" by fastforce
  note M = make_request_effect [OF mk start]
  have new: "prompt_ids (seq_of b1 i) = encode e x" "params (seq_of b1 i) = clamp (config e) ps"
    "clock (bworld b1) = clock (bworld b)"
    using mk by (auto simp: make_request_def make_sequence_eq monotonic_def)
  have enq: "enqueue e L x (Some ps) rid uuid False b = (Inr i, b1\<lparr>queue := queue b1 @ [i], work := True\<rparr>)"
    using mk room M(2) by (simp add: enqueue_def add_def)
  show thesis
    by (rule that [OF enq]) (use M new in \<open>auto simp: submitted_def\<close>)
qed

lemma submit_all_accepted:
  assumes "int (length (queue b) + length xs) \<le> lim_queue L" and "1 \<le> next_seq_id (bworld b)"
    and "set (queue b) \<union> set (running b) \<subseteq> issued (bworld b)" and "batch_reach e L b"
  shows "\<exists>is b'. submit_all e L ps uuid xs b = (map Inr is, b') \<and> batch_reach e L b' \<and>
    submitted e ps xs is b' \<and> queue b' = queue b @ is \<and> running b' = running b \<and> bstate b' = bstate b \<and>
    phase b' = phase b \<and> alive b' = alive b \<and> clock (bworld b') = clock (bworld b) \<and>
    (\<forall>j\<in>issued (bworld b). j \<in> issued (bworld b') \<and> seq_of b' j = seq_of b j \<and> reqs b' j = reqs b j)"
  using assms
proof (induction xs arbitrary: b)
  case Nil
  then show ?case by (auto simp: submitted_def)
next
  case (Cons x xs)
  have room: "int (length (queue b)) < lim_queue L" using Cons.prems(1) by simp
  obtain i b1 where E: "enqueue e L x (Some ps) [] (uuid (length xs)) False b = (Inr i, b1)"
    "queue b1 = queue b @ [i]" "running b1 = running b" "bstate b1 = bstate b" "phase b1 = phase b"
    "alive b1 = alive b" "clock (bworld b1) = clock (bworld b)" "1 \<le> next_seq_id (bworld b1)" "work b1"
    "issued (bworld b1) = insert i (issued (bworld b))" "i \<notin> issued (bworld b)"
    "\<And>j. j \<noteq> i \<Longrightarrow> seq_of b1 j = seq_of b j \<and> reqs b1 j = reqs b j" "submitted e ps [x] [i] b1"
    by (rule enqueue_room [OF room Cons.prems(2)]) blast
  have "int (length (queue b1) + length xs) \<le> lim_queue L" using Cons.prems(1) E(2) by simp
  moreover have "set (queue b1) \<union> set (running b1) \<subseteq> issued (bworld b1)" using Cons.prems(3) E by auto
  moreover have "batch_reach e L b1" by (rule batch_reach.enqueue [OF Cons.prems(4) E(1)])
  ultimately obtain "is" b' where IH: "submit_all e L ps uuid xs b1 = (map Inr is, b')" "batch_reach e L b'"
    "submitted e ps xs is b'" "queue b' = queue b1 @ is" "running b' = running b1" "bstate b' = bstate b1"
    "phase b' = phase b1" "alive b' = alive b1" "clock (bworld b') = clock (bworld b1)"
    "\<forall>j\<in>issued (bworld b1). j \<in> issued (bworld b') \<and> seq_of b' j = seq_of b1 j \<and> reqs b' j = reqs b1 j"
    using Cons.IH [of b1] E(8) by blast
  have "submitted e ps (x # xs) (i # is) b'"
    using E(13) IH(3,10) E(10) by (simp add: submitted_def)
  moreover have "submit_all e L ps uuid (x # xs) b = (map Inr (i # is), b')" using E(1) IH(1) by simp
  moreover have "\<forall>j\<in>issued (bworld b). j \<in> issued (bworld b') \<and> seq_of b' j = seq_of b j \<and> reqs b' j = reqs b j"
    using IH(10) E(12) unfolding E(10) by (metis E(11) insertCI)
  ultimately show ?case using IH E by (intro exI [of _ "i # is"] exI [of _ b']) simp
qed

section \<open>Gathering\<close>

definition answered :: "nat list \<Rightarrow> ('f, 'i, 'r) batcher \<Rightarrow> bool" where
  "answered is b \<longleftrightarrow> (\<forall>i\<in>set is. future (reqs b i) = Pending \<or> (\<exists>res. future (reqs b i) = Resolved res))"

lemma gathered_answered:
  assumes "answered is b"
  shows "if \<forall>i\<in>set is. future (reqs b i) \<noteq> Pending
    then \<exists>results. gathered is b = Some (Inr results) \<and> list_all2 (\<lambda>i res. future (reqs b i) = Resolved res) is results
    else gathered is b = None"
  using assms
proof (induction "is")
  case Nil
  then show ?case by simp
next
  case (Cons i "is")
  have IH: "if \<forall>i\<in>set is. future (reqs b i) \<noteq> Pending
    then \<exists>results. gathered is b = Some (Inr results) \<and> list_all2 (\<lambda>i res. future (reqs b i) = Resolved res) is results
    else gathered is b = None"
    using Cons by (simp add: answered_def)
  show ?case
  proof (cases "future (reqs b i) = Pending")
    case True
    then show ?thesis using IH by (auto split: if_splits)
  next
    case False
    then obtain res where "future (reqs b i) = Resolved res" using Cons.prems by (auto simp: answered_def)
    then show ?thesis using IH by (auto split: if_splits)
  qed
qed

lemma run_until_returns:
  assumes "\<And>m. answered is (sched_run e L m b)" and "\<forall>i\<in>set is. future (reqs (sched_run e L n b) i) \<noteq> Pending"
  shows "\<exists>m results. (\<forall>k\<ge>n. run_until e L k is b = Some (Inr results, sched_run e L m b)) \<and>
    list_all2 (\<lambda>i res. future (reqs (sched_run e L m b) i) = Resolved res) is results"
  using assms
proof (induction n arbitrary: b)
  case (0 b)
  have "answered is b" using 0(1) [of 0] by simp
  then obtain results where "gathered is b = Some (Inr results)"
    "list_all2 (\<lambda>i res. future (reqs b i) = Resolved res) is results"
    using gathered_answered [of "is" b] 0(2) by auto
  then show ?case by (intro exI [of _ 0] exI [of _ results]) (simp add: run_until.simps)
next
  case (Suc n b)
  have here: "answered is b" using Suc.prems(1) [of 0] by simp
  show ?case
  proof (cases "\<forall>i\<in>set is. future (reqs b i) \<noteq> Pending")
    case True
    then obtain results where "gathered is b = Some (Inr results)"
      "list_all2 (\<lambda>i res. future (reqs b i) = Resolved res) is results"
      using gathered_answered [OF here] by auto
    then show ?thesis by (intro exI [of _ 0] exI [of _ results]) (simp add: run_until.simps)
  next
    case False
    then have wait: "gathered is b = None" using gathered_answered [OF here] by (simp split: if_splits)
    obtain m results where IH: "\<forall>k\<ge>n. run_until e L k is (sched_step e L b) =
        Some (Inr results, sched_run e L m (sched_step e L b))"
      "list_all2 (\<lambda>i res. future (reqs (sched_run e L m (sched_step e L b)) i) = Resolved res) is results"
      using Suc.IH [of "sched_step e L b"] Suc.prems(1) [of "Suc _"] Suc.prems(2) by auto
    have "run_until e L k is b = Some (Inr results, sched_run e L (Suc m) b)" if "Suc n \<le> k" for k
      using that IH(1) wait by (cases k) (simp_all add: run_until.simps [of e L _ "is" b])
    then show ?thesis using IH(2) by (intro exI [of _ "Suc m"] exI [of _ results]) simp
  qed
qed

section \<open>One run\<close>

lemma greedy_default:
  "params s = clamp (config e) (default_params\<lparr>max_tokens := n\<rparr>) \<Longrightarrow> greedy s"
  by (simp add: greedy_def clamp_def default_params_def py_max_def py_min_def fle_def)

lemma submitted_nth:
  assumes "submitted e ps xs is b"
  shows "length is = length xs" and "k < length xs \<Longrightarrow> is ! k \<in> issued (bworld b) \<and> caller (reqs b (is ! k)) = Waiting \<and>
    future (reqs b (is ! k)) = Pending \<and> prompt_ids (seq_of b (is ! k)) = encode e (xs ! k) \<and>
    params (seq_of b (is ! k)) = clamp (config e) ps"
  using assms by (simp_all add: submitted_def list_all2_conv_all_nth)

text \<open>The scheduler a run makes, once it sleeps.\<close>

lemma run_scheduler:
  fixes e :: "('f, 'i, 'b, 'd, 'r) engine"
  assumes "engine_reach e w st" and "\<forall>i. foreign (rs i)" and b: "b = tick_top L (start (new_batcher rs w))"
  shows "batch_reach e L b" "queue b = []" "running b = []" "bstate b = empty_state" "phase b = Sleeping"
    "alive b" "bworld b = w"
proof -
  have "batch_reach e L (start (new_batcher rs w))"
    using assms(1,2) by (intro batch_reach.start batch_reach.init [of e w st]) simp_all
  then show "batch_reach e L b"
    unfolding b by (rule batch_reach.top) (simp_all add: start_def new_batcher_def)
  show "queue b = []" "running b = []" "bstate b = empty_state" "phase b = Sleeping" "alive b" "bworld b = w"
    by (simp_all add: b tick_top_def start_def new_batcher_def)
qed

definition bench_work :: "(pyfloat list \<Rightarrow> nat) \<Rightarrow> pyfloat entry lang_model \<Rightarrow> ('f, 'i, 'b, 'd, 'r) engine \<Rightarrow>
    nat \<Rightarrow> int \<Rightarrow> nat" where
  "bench_work am lm e concurrency tokens = sum_list (map (\<lambda>x. length (fst (solo am lm (eos_token_id e)
     (context_limit e) (budget e tokens) (encode e x)))) (bench_prompts concurrency))"

lemma length_bench_prompts [simp]: "length (bench_prompts concurrency) = concurrency"
  by (simp add: bench_prompts_def)

context steady begin

text \<open>The submissions of a run are all answered with the reference generation.\<close>

lemma submissions_served:
  assumes reach: "batch_reach e L b" and run: "alive b" "phase b = Sleeping" "bstate b = empty_state"
    "queue b = is" "running b = []" and L: "1 \<le> lim_batch L" and clock: "unbounded_clock (clock (bworld b))"
    and sub: "submitted e (default_params\<lparr>max_tokens := tokens\<rparr>) xs is b"
  shows "\<exists>n m results. (\<forall>k\<ge>n. run_until e L k is b = Some (Inr results, sched_run e L m b)) \<and>
    map res_completion_tokens results = map (\<lambda>x. length (fst (solo amax lm (eos_token_id e)
      (context_limit e) (budget e tokens) (encode e x)))) xs"
proof -
  note S = submitted_nth [OF sub]
  have each: "i \<in> issued (bworld b) \<and> caller (reqs b i) = Waiting \<and> future (reqs b i) = Pending \<and> greedy (seq_of b i)"
    if "i \<in> set is" for i
    using that S greedy_default unfolding in_set_conv_nth by metis
  have cl: "clean b" using run each by (simp add: clean_def held_def)
  obtain n where n: "\<forall>i\<in>issued (bworld b). caller (reqs b i) = Waiting \<and> future (reqs b i) = Pending \<longrightarrow>
      (\<exists>res. future (reqs (sched_run e L n b) i) = Resolved res \<and> answer (seq_of b i) res)"
    using served [OF reach run(1) L clock cl] by blast
  have at: "future (reqs (sched_run e L m b) i) = Pending \<or>
      (\<exists>res. future (reqs (sched_run e L m b) i) = Resolved res \<and> answer (seq_of b i) res)" if "i \<in> set is" for m i
    using served_at [OF reach cl, of i m] each [OF that] by simp
  then have ans: "answered is (sched_run e L m b)" for m unfolding answered_def by blast
  have fin: "\<forall>i\<in>set is. future (reqs (sched_run e L n b) i) \<noteq> Pending" using n each by force
  obtain m results where M: "\<forall>k\<ge>n. run_until e L k is b = Some (Inr results, sched_run e L m b)"
    "list_all2 (\<lambda>i res. future (reqs (sched_run e L m b) i) = Resolved res) is results"
    using run_until_returns [OF ans fin] by blast
  have len: "length results = length is" using M(2) by (simp add: list_all2_lengthD)
  have "res_completion_tokens (results ! k) = length (fst (solo amax lm (eos_token_id e) (context_limit e)
      (budget e tokens) (encode e (xs ! k))))" if "k < length xs" for k
  proof -
    have "future (reqs (sched_run e L m b) (is ! k)) = Resolved (results ! k)"
      using M(2) that S(1) by (simp add: list_all2_conv_all_nth)
    then have "answer (seq_of b (is ! k)) (results ! k)" using at [of "is ! k" m] that S(1) by auto
    then show ?thesis using S(2) [OF that] by (auto simp: clamp_budget)
  qed
  then have "map res_completion_tokens results = map (\<lambda>x. length (fst (solo amax lm (eos_token_id e)
      (context_limit e) (budget e tokens) (encode e x)))) xs"
    using S(1) len by (intro nth_equalityI) simp_all
  then show ?thesis using M(1) by blast
qed

lemma run_inprocess_returns:
  assumes reach: "engine_reach e w st" and rs: "\<forall>i. foreign (rs i)" and clock: "unbounded_clock (clock w)"
    and limit: "1 \<le> limit" and fits: "int concurrency \<le> max_queue_size (config e)"
  shows "\<exists>n stats w' st'. (\<forall>k\<ge>n. run_inprocess e uuid rs k limit concurrency tokens t0 t1 w = Some (Inr (stats, w'))) \<and>
    engine_reach e w' st' \<and> clock w' = clock w \<and> bs_elapsed stats = t1 - t0 \<and>
    length (bs_latencies stats) = concurrency \<and> bs_tokens stats = bench_work amax lm e concurrency tokens"
proof -
  define L where "L = init_limits (config e) (Some limit) (Some 20) None"
  have L: "lim_batch L = limit" "lim_queue L = max_queue_size (config e)"
    using limit by (simp_all add: L_def init_limits_def int_or_def)
  define b :: "('a, 'b, 'e) batcher" where "b = tick_top L (start (new_batcher rs w))"
  note B = run_scheduler [OF reach rs b_def]
  have start: "1 \<le> next_seq_id (bworld b)"
    using engine_reach_inv [OF reach window] B(7) by (simp add: engine_inv_def)
  obtain "is" b1 where S: "submit_all e L (default_params\<lparr>max_tokens := tokens\<rparr>) uuid (bench_prompts concurrency) b =
      (map Inr is, b1)" "batch_reach e L b1"
    "submitted e (default_params\<lparr>max_tokens := tokens\<rparr>) (bench_prompts concurrency) is b1"
    "queue b1 = is" "running b1 = []" "bstate b1 = empty_state" "phase b1 = Sleeping" "alive b1" "clock (bworld b1) = clock w"
    using submit_all_accepted [OF _ start _ B(1), of "bench_prompts concurrency" "default_params\<lparr>max_tokens := tokens\<rparr>" uuid]
      B fits L by auto
  obtain n m results where R: "\<forall>k\<ge>n. run_until e L k is b1 = Some (Inr results, sched_run e L m b1)"
    "map res_completion_tokens results = map (\<lambda>x. length (fst (solo amax lm (eos_token_id e)
      (context_limit e) (budget e tokens) (encode e x)))) (bench_prompts concurrency)"
    using submissions_served [OF S(2,8,7,6,4,5) _ _ S(3)] L limit clock S(9) by auto
  let ?b = "sched_run e L m b1"
  define stats where "stats = \<lparr>bs_elapsed = t1 - t0, bs_latencies = map total_s results,
    bs_ttfts = map ttft_s results, bs_tokens = sum_list (map res_completion_tokens results),
    bs_mean_batch = Some (mean_batch_size ?b), bs_steps = steps ?b, bs_spread = None\<rparr>"
  have "run_inprocess e uuid rs k limit concurrency tokens t0 t1 w = Some (Inr (stats, bworld ?b))" if "n \<le> k" for k
    using R(1) that S(1)
    by (simp add: run_inprocess_def Let_def L_def [symmetric] b_def [symmetric] stats_def frame_simps)
  moreover have "engine_reach e (bworld ?b) (bstate ?b)" using reach_sched(2) [OF reach_sched_run [OF S(2)]] .
  moreover have "clock (bworld ?b) = clock w" using progress.sched_run_clock [OF S(2)] S(9) by simp
  moreover have "length results = concurrency" using arg_cong [OF R(2), of length] by simp
  ultimately show ?thesis
    using R(2) by (intro exI [of _ n] exI [of _ stats] exI [of _ "bworld ?b"] exI [of _ "bstate ?b"])
      (simp add: stats_def bench_work_def)
qed

end

end
