(* ===== verification/BenchProps.thy ===== *)
theory BenchProps
  imports BenchRun BatcherProps
begin

text \<open>
  The properties of the benchmarks: the throughput sweep compares equal work, the repetition and the
  percentiles it reports are what they are called, and the cache benchmark passes.
\<close>

section \<open>Helpers\<close>




lemma min_by_mem: "min_by f x xs \<in> set (x # xs)"
  by (induction xs arbitrary: x) (auto split: if_splits)

lemma min_by_least: "y \<in> set (x # xs) \<Longrightarrow> f (min_by f x xs) \<le> f y"
proof (induction xs arbitrary: x y)
  case Nil
  then show ?case by simp
next
  case (Cons z zs)
  let ?x = "if f z < f x then z else x"
  have "f (min_by f ?x zs) \<le> f ?x" using Cons.IH [of ?x ?x] by simp
  moreover have "f ?x \<le> f x" "f ?x \<le> f z" by auto
  ultimately show ?case using Cons.IH [of y ?x] Cons.prems by (auto intro: order_trans)
qed





text \<open>The percentiles are positions of the sorted list.\<close>

lemma percentile_index:
  assumes "mono fl" and "fl 0 = 0" and "0 \<le> p" and "ordered \<noteq> []"
  shows "\<exists>k<length ordered. percentile fl ordered p = ordered ! k \<and>
    int k = min (py_round (fl (fl (p / 100) * of_nat (length ordered - 1)))) (int (length ordered) - 1)"
proof -
  define r where "r = py_round (fl (fl (p / 100) * of_nat (length ordered - 1)))"
  have "0 \<le> fl (p / 100)" using monoD [OF assms(1), of 0 "p / 100"] assms(2,3) by simp
  then have "0 \<le> fl (fl (p / 100) * of_nat (length ordered - 1))"
    using monoD [OF assms(1), of 0] assms(2) by (metis mult_nonneg_nonneg of_nat_0_le_iff)
  then have r: "0 \<le> r" using py_round_mono [of 0] unfolding r_def by (simp add: py_round_def)
  have "0 < length ordered" using assms(4) by simp
  then show ?thesis
    using assms(4) r unfolding percentile_def r_def [symmetric]
    by (intro exI [of _ "nat (min r (int (length ordered) - 1))"]) (auto simp: nat_less_iff min_def)
qed

lemma percentile_mono:
  assumes "mono fl" and "fl 0 = 0" and "0 \<le> p" and "p \<le> q" and "sorted ordered"
  shows "percentile fl ordered p \<le> percentile fl ordered q"
proof (cases "ordered = []")
  case True
  then show ?thesis by (simp add: percentile_def)
next
  case False
  let ?r = "\<lambda>p. py_round (fl (fl (p / 100) * of_nat (length ordered - 1)))"
  obtain i where i: "i < length ordered" "percentile fl ordered p = ordered ! i" "int i = min (?r p) (int (length ordered) - 1)"
    using percentile_index [OF assms(1,2,3) False] by blast
  obtain j where j: "j < length ordered" "percentile fl ordered q = ordered ! j" "int j = min (?r q) (int (length ordered) - 1)"
    using percentile_index [OF assms(1,2) _ False, of q] assms(3,4) by auto
  have "?r p \<le> ?r q"
    by (intro py_round_mono monoD [OF assms(1)] mult_right_mono) (use assms(4) in simp_all)
  then have "i \<le> j" using i(3) j(3) by linarith
  then show ?thesis using i(2) j(1,2) sorted_nth_mono [OF assms(5)] by simp
qed

text \<open>The cache benchmark's rows.\<close>

lemma kv_row_same:
  "0 < cached_s \<Longrightarrow> 0 < naive_s \<Longrightarrow> make_kv_row n out out cached_s naive_s =
    Inr \<lparr>kr_tokens = n, kr_cached_s = cached_s, kr_naive_s = naive_s, kr_cached_tps = of_int n / cached_s,
      kr_naive_tps = of_int n / naive_s, kr_speedup = naive_s / cached_s, kr_status = ''identical''\<rparr>"
  by (simp add: make_kv_row_def py_div_def)

context serving begin

lemma kv_rows_identical:
  assumes "engine_reach e w st" and ctx: "2 \<le> context_limit e" and perf: "\<forall>k. perf k < perf (Suc k)"
    and "\<forall>n\<in>set ns. 1 \<le> n \<and> n \<le> max_new_tokens (config e) \<and> int (length (encode e PROMPT)) + n \<le> context_limit e"
  shows "\<exists>table. kv_rows e perf k ns w = Some (Inr table) \<and> map kr_tokens table = ns \<and>
    (\<forall>r\<in>set table. kr_status r = ''identical'' \<and> kr_speedup r * kr_cached_s r = kr_naive_s r)"
  using assms(1,4)
proof (induction ns arbitrary: w st k)
  case Nil
  then show ?case by simp
next
  case (Cons n ns)
  have n: "1 \<le> n" "n \<le> max_new_tokens (config e)" "int (length (encode e PROMPT)) + n \<le> context_limit e"
    using Cons.prems(2) by simp_all
  note inv = engine_reach_inv [OF Cons.prems(1) ctx]
  have "budget e n = n" using n(1,2) by (simp add: budget_def)
  then obtain out w1 where G: "generate_with_kv_cache e PROMPT n None w = Some (Inr (out, default_params\<lparr>max_tokens := n\<rparr>, w1))"
    "generate_without_cache e PROMPT n = Inr out"
    using generate_with_kv_cache_solo [OF inv ctx, of default_params None PROMPT n]
      generate_without_cache_solo [OF ctx n(1,3)] by (auto simp: default_params_def)
  obtain st1 where w1: "engine_reach e w1 st1"
    using generate_with_kv_cache_reach [OF G(1) Cons.prems(1)] inv by (auto simp: engine_inv_def)
  obtain table where IH: "kv_rows e perf (k + 4) ns w1 = Some (Inr table)" "map kr_tokens table = ns"
    "\<forall>r\<in>set table. kr_status r = ''identical'' \<and> kr_speedup r * kr_cached_s r = kr_naive_s r"
    using Cons.IH [OF w1, of "k + 4"] Cons.prems(2) by auto
  have t: "0 < timed perf k" "0 < timed perf (k + 2)" using perf by (simp_all add: timed_def)
  show ?case using G IH t kv_row_same [OF t, of n out] by simp
qed

end

section \<open>The throughput benchmark\<close>





definition demo_rep :: "rat \<Rightarrow> bench_stats" where
  "demo_rep t = \<lparr>bs_elapsed = t, bs_latencies = [], bs_ttfts = [], bs_tokens = 1, bs_mean_batch = None,
     bs_steps = 1, bs_spread = None\<rparr>"

text \<open>The repetition reported is the one nearest the median, the first of them, and with an odd
  number of repetitions its time is the median; the spread is that of all repetitions.\<close>

theorem median_repetition:
  assumes "pick_rep reps = Inr best"
  shows "\<exists>r\<in>set reps. best = r\<lparr>bs_spread := bs_spread best\<rparr> \<and>
    (\<forall>s\<in>set reps. \<bar>bs_elapsed best - median (map bs_elapsed reps)\<bar> \<le> \<bar>bs_elapsed s - median (map bs_elapsed reps)\<bar>) \<and>
    (odd (length reps) \<longrightarrow> bs_elapsed best = median (map bs_elapsed reps)) \<and>
    map_option (\<lambda>x. x * bs_elapsed best) (bs_spread best) =
      Some (Max (bs_elapsed ` set reps) - Min (bs_elapsed ` set reps))"
proof -
  obtain x xs where reps: "reps = x # xs" using assms by (cases reps) (auto simp: pick_rep_def)
  let ?m = "median (map bs_elapsed reps)" and ?f = "\<lambda>s. \<bar>bs_elapsed s - median (map bs_elapsed reps)\<bar>"
  define r where "r = min_by ?f x xs"
  have r: "r \<in> set reps" "\<forall>s\<in>set reps. ?f r \<le> ?f s"
    using min_by_mem [of ?f x xs] min_by_least [of _ x xs ?f] reps by (auto simp: r_def)
  have best: "bs_elapsed r \<noteq> 0"
    "best = r\<lparr>bs_spread := Some ((Max (bs_elapsed ` set reps) - Min (bs_elapsed ` set reps)) / bs_elapsed r)\<rparr>"
    using assms by (auto simp: pick_rep_def reps r_def py_div_def Let_def split: if_splits)
  have "bs_elapsed r = ?m" if "odd (length reps)"
  proof -
    have "?m = sort (map bs_elapsed reps) ! (length reps div 2)" using that by (simp add: median_def)
    moreover have "length reps div 2 < length (sort (map bs_elapsed reps))" using reps by simp
    ultimately have "?m \<in> bs_elapsed ` set reps" by (metis list.set_map nth_mem set_sort)
    then obtain s where "s \<in> set reps" "bs_elapsed s = ?m" by auto
    then show ?thesis using r(2) by force
  qed
  then show ?thesis using r best by (intro bexI [of _ r]) simp_all
qed

lemma median_repetition_witness:
  "\<exists>best. pick_rep [demo_rep 4, demo_rep 1, demo_rep 2] = Inr best \<and> bs_elapsed best = 2 \<and> bs_spread best = Some (3 / 2)"
proof -
  have p: "pick_rep [demo_rep 4, demo_rep 1, demo_rep 2] = Inr ((demo_rep 2)\<lparr>bs_spread := Some (3 / 2)\<rparr>)"
    by code_simp
  show ?thesis using median_repetition [OF p] p by (simp add: demo_rep_def)
qed

text \<open>The three percentiles are measurements, in their order, for every monotone rounding of
  the rank; without measurements they are zero.\<close>

theorem percentiles_ordered:
  assumes "mono fl" and "fl 0 = 0" and "percentiles fl values = (p50, p95, p99)"
  shows "p50 \<le> p95 \<and> p95 \<le> p99 \<and>
    (if values = [] then p50 = 0 \<and> p99 = 0 else {p50, p95, p99} \<subseteq> set values)"
proof -
  have p: "p50 = percentile fl (sort values) 50" "p95 = percentile fl (sort values) 95" "p99 = percentile fl (sort values) 99"
    using assms(3) by (simp_all add: percentiles_def Let_def)
  have "percentile fl (sort values) p \<in> set values" if "values \<noteq> []" "0 \<le> p" for p
    using percentile_index [OF assms(1,2) that(2), of "sort values"] that(1)
    by (metis nth_mem set_empty set_sort)
  then show ?thesis
    using percentile_mono [OF assms(1,2), of 50 95 "sort values"] percentile_mono [OF assms(1,2), of 95 99 "sort values"]
    by (auto simp: p percentile_def)
qed

lemma percentiles_ordered_witness: "percentiles (\<lambda>x. x) [3, 1, 2] = (2, 3, 3) \<and> (2 :: rat) \<in> set [3, 1, 2]"
proof -
  have p: "percentiles (\<lambda>x. x) [3, 1, 2] = (2, 3, 3)" by code_simp
  show ?thesis using percentiles_ordered [OF _ refl p] p by (simp add: mono_def)
qed

section \<open>The cache benchmark\<close>

text \<open>C13: the cache benchmark passes. Over a network that answers, for lengths in the configured range
  that fit the window after its prompt, it returns one row per length, every row says that both
  paths wrote the same text, and the exit code is zero.\<close>

theorem cache_bench_passes:
  assumes "serving e amax fdiv sortd order smax csum fsub dims vocab lm" and "2 \<le> context_limit e"
    and "engine_reach e w st" and "\<forall>k. perf k < perf (Suc k)" and "parse_list tokens = Inr ns"
    and "\<forall>n\<in>set ns. 1 \<le> n \<and> n \<le> max_new_tokens (config e) \<and> int (length (encode e PROMPT)) + n \<le> context_limit e"
  shows "\<exists>table. kv_main e perf tokens w = Some (Inr (table, 0)) \<and> map kr_tokens table = ns \<and>
    (\<forall>r\<in>set table. kr_status r = ''identical'' \<and> kr_speedup r * kr_cached_s r = kr_naive_s r)"
proof -
  note inv = network.engine_reach_inv [OF serving.axioms(1) [OF assms(1)] assms(3,2)]
  obtain out p w1 where warm: "generate_with_kv_cache e PROMPT 4 None w = Some (Inr (out, p, w1))"
    using serving.generate_with_kv_cache_solo [OF assms(1) inv assms(2), of default_params None PROMPT 4]
    by (auto simp: default_params_def)
  obtain st1 where w1: "engine_reach e w1 st1"
    using generate_with_kv_cache_reach [OF warm assms(3)] inv by (auto simp: engine_inv_def)
  obtain table where T: "kv_rows e perf 0 ns w1 = Some (Inr table)" "map kr_tokens table = ns"
    "\<forall>r\<in>set table. kr_status r = ''identical'' \<and> kr_speedup r * kr_cached_s r = kr_naive_s r"
    using serving.kv_rows_identical [OF assms(1) w1 assms(2,4,6)] by blast
  then show ?thesis using warm assms(5) by (simp add: kv_main_def kv_exit_def)
qed

lemma cache_bench_passes_witness:
  "\<exists>table. kv_main demo_engine of_nat ''1,1'' demo_world = Some (Inr (table, 0)) \<and> length table = 2"
proof -
  have p: "parse_list ''1,1'' = Inr [1, 1]" by code_simp
  have "length (encode demo_engine PROMPT) = 7" by code_simp
  then have n: "\<forall>n\<in>set [1, 1]. 1 \<le> n \<and> n \<le> max_new_tokens (config demo_engine) \<and>
      int (length (encode demo_engine PROMPT)) + n \<le> context_limit demo_engine"
    by (simp add: demo_settings_def)
  obtain table where T: "kv_main demo_engine of_nat ''1,1'' demo_world = Some (Inr (table, 0))" "map kr_tokens table = [1, 1]"
    using cache_bench_passes [OF demo_serving demo_window demo_start _ p n, of of_nat] by auto
  have "length table = 2" using arg_cong [OF T(2), of length] by simp
  then show ?thesis using T(1) by blast
qed

end
